(* ===== verification/Prelude.thy ===== *)
theory Prelude
  imports Main "HOL-Library.Word"
begin

text \<open>
  What every theory of the development shares: the names of the machine integer types, the
  values a kernel function can end with, the way a failing call aborts its caller, and the
  generic lemmas on words, bits and lists that the component proofs use.

  The model is of the 64-bit configurations of the system (\<^verbatim>\<open>ARCH_WIDTH == 64\<close>): an
  \<^verbatim>\<open>ulong\<close>, a pointer and a \<^verbatim>\<open>size_t\<close> are 64 bits wide.
\<close>

unbundle bit_operations_syntax

section \<open>Machine integers\<close>

type_synonym u8 = "8 word"
type_synonym u16 = "16 word"
type_synonym u32 = "32 word"
type_synonym u64 = "64 word"
type_synonym ulong = "64 word"

section \<open>How a kernel function ends\<close>

text \<open>
  A call returns a value or stops the processor: \<^verbatim>\<open>panic\<close> and \<^verbatim>\<open>panic_if\<close> of
  \<^verbatim>\<open>libk/include/debug.h\<close> (\<open>Panic\<close>), \<^verbatim>\<open>assert\<close> of the same file (\<open>Assertion\<close>),
  or an operation the C standard leaves undefined, such as a shift by the width of its operand
  or the use of a pointer that points to no object (\<open>Undefined\<close>). A processor that spins on a
  lock that will never be released does not return (\<open>Deadlock\<close>). \<open>Out_of_fuel\<close> is the value of a
  pointer-chasing loop whose fuel does not suffice; the theorems about such loops show how much
  fuel does.
\<close>

datatype fault = Panic | Assertion | Undefined | Deadlock | Out_of_fuel

type_synonym 'a res = "fault + 'a"

definition ebind :: "'a res \<Rightarrow> ('a \<Rightarrow> 'b res) \<Rightarrow> 'b res" where
  "ebind m f = (case m of Inl e \<Rightarrow> Inl e | Inr x \<Rightarrow> f x)"

definition panic_if :: "bool \<Rightarrow> 'a res \<Rightarrow> 'a res" where
  "panic_if c k = (if c then Inl Panic else k)"

definition assert_that :: "bool \<Rightarrow> 'a res \<Rightarrow> 'a res" where
  "assert_that c k = (if c then k else Inl Assertion)"

named_theorems res_simps \<open>unfolding of the result plumbing\<close>
named_theorems bit_facts \<open>bitwise characterisations\<close>

lemma ebind_Inl [simp, res_simps]: "ebind (Inl e) f = Inl e"
  by (simp add: ebind_def)

lemma ebind_Inr [simp, res_simps]: "ebind (Inr x) f = f x"
  by (simp add: ebind_def)

lemma ebind_eq_Inr_iff [res_simps]: "ebind m f = Inr y \<longleftrightarrow> (\<exists>x. m = Inr x \<and> f x = Inr y)"
  by (cases m) auto

lemma ebind_assoc: "ebind (ebind m f) g = ebind m (\<lambda>x. ebind (f x) g)"
  by (cases m) auto

lemma panic_if_False [simp, res_simps]: "panic_if False k = k"
  by (simp add: panic_if_def)

lemma panic_if_True [simp, res_simps]: "panic_if True k = Inl Panic"
  by (simp add: panic_if_def)

lemma panic_if_eq_Inr_iff [res_simps]: "panic_if c k = Inr y \<longleftrightarrow> \<not> c \<and> k = Inr y"
  by (simp add: panic_if_def)

lemma assert_that_True [simp, res_simps]: "assert_that True k = k"
  by (simp add: assert_that_def)

lemma assert_that_False [simp, res_simps]: "assert_that False k = Inl Assertion"
  by (simp add: assert_that_def)

lemma assert_that_eq_Inr_iff [res_simps]: "assert_that c k = Inr y \<longleftrightarrow> c \<and> k = Inr y"
  by (simp add: assert_that_def)

section \<open>Words\<close>

lemma and_push_bit_1_neq_0_iff [bit_facts]:
  fixes v :: "'a::len word"
  assumes "i < LENGTH('a)"
  shows "v AND push_bit i 1 \<noteq> 0 \<longleftrightarrow> bit v i"
proof -
  have "v AND push_bit i 1 = (if bit v i then push_bit i 1 else 0)"
    by (rule bit_word_eqI) (auto simp: bit_simps)
  moreover have "bit (push_bit i (1::'a word)) i"
    using assms by (simp add: bit_simps)
  then have "push_bit i (1::'a word) \<noteq> 0" by (metis bit_0_eq bot_apply bot_bool_def)
  ultimately show ?thesis by auto
qed

lemma and_1_neq_0_iff [bit_facts]: "(v::'a::len word) AND 1 = 0 \<longleftrightarrow> \<not> bit v 0"
  using and_push_bit_1_neq_0_iff [of 0 v] by auto

lemma bit_push_bit_1_iff:
  "bit (push_bit 1 (v::'a::len word)) m \<longleftrightarrow> 0 < m \<and> m < LENGTH('a) \<and> bit v (m - 1)"
  by (subst bit_push_bit_iff) auto

lemma unat_drop_bit_Suc_0_less: "v \<noteq> 0 \<Longrightarrow> unat (drop_bit (Suc 0) (v::'a::len word)) < unat v"
proof -
  assume "v \<noteq> 0"
  then have "0 < unat v" by (simp add: unat_gt_0)
  moreover have "unat (drop_bit (Suc 0) v) = unat v div 2"
    by (subst unat_drop_bit_eq) (simp add: drop_bit_Suc)
  ultimately show ?thesis by (simp only: div_less_dividend)
qed

lemma drop_bit_top_eq_0_iff [bit_facts]:
  "drop_bit (LENGTH('a) - Suc 0) (v::'a::len word) = 0 \<longleftrightarrow> \<not> bit v (LENGTH('a) - Suc 0)"
proof
  assume "drop_bit (LENGTH('a) - Suc 0) v = 0"
  then have "\<not> bit (drop_bit (LENGTH('a) - Suc 0) v) 0" by simp
  then show "\<not> bit v (LENGTH('a) - Suc 0)" by (simp add: bit_simps)
next
  assume a: "\<not> bit v (LENGTH('a) - Suc 0)"
  show "drop_bit (LENGTH('a) - Suc 0) v = 0"
  proof (rule bit_word_eqI)
    fix n assume "n < LENGTH('a)"
    show "bit (drop_bit (LENGTH('a) - Suc 0) v) n = bit (0::'a word) n"
      using a by (cases n) (auto simp: bit_simps dest: bit_imp_le_length)
  qed
qed

lemma unat_2_power: "k < LENGTH('a) \<Longrightarrow> unat (2 ^ k :: 'a::len word) = 2 ^ k"
proof -
  assume "k < LENGTH('a)"
  then have "(2::nat) ^ k < 2 ^ LENGTH('a)" by (intro power_strict_increasing) auto
  moreover have "(2 ^ k :: 'a word) = of_nat (2 ^ k)" by simp
  ultimately show ?thesis by (simp only: unat_of_nat mod_less)
qed

text \<open>The highest set bit brackets the value.\<close>

lemma unat_highest_bit:
  fixes v :: "'a::len word"
  assumes top: "bit v m" and above: "\<And>j. m < j \<Longrightarrow> \<not> bit v j"
  shows "2 ^ m \<le> unat v" and "unat v < 2 ^ Suc m"
proof -
  have "bit (unat v) m" using top by (simp add: bit_unsigned_iff)
  then have "odd (unat v div 2 ^ m)" unfolding bit_iff_odd .
  then have "unat v div 2 ^ m \<noteq> 0" by (metis even_zero)
  then show "2 ^ m \<le> unat v" by (metis div_less not_le)
  have "take_bit (Suc m) v = v"
    by (rule bit_word_eqI) (metis above bit_take_bit_iff less_Suc_eq_le not_le)
  then have "take_bit (Suc m) (unat v) = unat v" by (metis unsigned_take_bit_eq)
  then show "unat v < 2 ^ Suc m" by (metis take_bit_nat_less_exp)
qed

section \<open>Lists\<close>

lemma in_set_tlD: "x \<in> set (tl xs) \<Longrightarrow> x \<in> set xs"
  by (cases xs) auto

end
