(* ===== verification/Kbits.thy ===== *)
theory Kbits
  imports Prelude
begin

text \<open>
  The bit library, \<^verbatim>\<open>libk/lib/bit.c\<close>: byte order conversion, population count, leading and
  trailing zero counts and rounding up to a power of two. Each C function is one definition of
  the same name; its loop, where it has one, is a recursive function that carries the loop
  variables. A \<^verbatim>\<open>>>\<close> is \<open>drop_bit\<close>, a \<^verbatim>\<open><<\<close> is \<open>push_bit\<close>. Build-time switches of the
  source (\<^verbatim>\<open>ARCH_BIG_ENDIAN\<close>, \<^verbatim>\<open>ARCH_LITTLE_ENDIAN\<close>) are boolean arguments. The shift of the signed constant 1 into the sign bit in
  \<^verbatim>\<open>popcount32\<close> is taken to give that bit, as the compilers in use define it.
\<close>

section \<open>Byte order\<close>

definition swap_endian16 :: "u16 \<Rightarrow> u16" where
  "swap_endian16 val =
     (let r = val AND 0xff;
          l = drop_bit 8 val AND 0xff
      in push_bit 8 r OR l)"

definition swap_endian32 :: "u32 \<Rightarrow> u32" where
  "swap_endian32 val =
     (let rr = val AND 0xff;
          rl = drop_bit 8 val AND 0xff;
          lr = drop_bit 16 val AND 0xff;
          ll = drop_bit 24 val AND 0xff
      in push_bit 24 rr OR push_bit 16 rl OR push_bit 8 lr OR ll)"

definition swap_endian64 :: "u64 \<Rightarrow> u64" where
  "swap_endian64 val =
     (let rrr = val AND 0xff;
          rrl = drop_bit 8 val AND 0xff;
          rlr = drop_bit 16 val AND 0xff;
          rll = drop_bit 24 val AND 0xff;
          lrr = drop_bit 32 val AND 0xff;
          lrl = drop_bit 40 val AND 0xff;
          llr = drop_bit 48 val AND 0xff;
          lll = drop_bit 56 val AND 0xff
      in push_bit 56 rrr OR push_bit 48 rrl OR push_bit 40 rlr OR push_bit 32 rll OR
         push_bit 24 lrr OR push_bit 16 lrl OR push_bit 8 llr OR lll)"

definition swap_endian :: "ulong \<Rightarrow> ulong" where
  "swap_endian val = swap_endian64 val"

definition swap_big_endian16 :: "bool \<Rightarrow> u16 \<Rightarrow> u16" where
  "swap_big_endian16 arch_big_endian val = (if arch_big_endian then val else swap_endian16 val)"

definition swap_big_endian32 :: "bool \<Rightarrow> u32 \<Rightarrow> u32" where
  "swap_big_endian32 arch_big_endian val = (if arch_big_endian then val else swap_endian32 val)"

definition swap_big_endian64 :: "bool \<Rightarrow> u64 \<Rightarrow> u64" where
  "swap_big_endian64 arch_big_endian val = (if arch_big_endian then val else swap_endian64 val)"

definition swap_big_endian :: "bool \<Rightarrow> ulong \<Rightarrow> ulong" where
  "swap_big_endian arch_big_endian val = (if arch_big_endian then val else swap_endian val)"

definition swap_little_endian16 :: "bool \<Rightarrow> u16 \<Rightarrow> u16" where
  "swap_little_endian16 arch_little_endian val =
     (if arch_little_endian then val else swap_endian16 val)"

definition swap_little_endian32 :: "bool \<Rightarrow> u32 \<Rightarrow> u32" where
  "swap_little_endian32 arch_little_endian val =
     (if arch_little_endian then val else swap_endian32 val)"

definition swap_little_endian64 :: "bool \<Rightarrow> u64 \<Rightarrow> u64" where
  "swap_little_endian64 arch_little_endian val =
     (if arch_little_endian then val else swap_endian64 val)"

definition swap_little_endian :: "bool \<Rightarrow> ulong \<Rightarrow> ulong" where
  "swap_little_endian arch_little_endian val =
     (if arch_little_endian then val else swap_endian val)"

section \<open>Counting bits\<close>

text \<open>
  The loops are shared by the three widths: \<open>n\<close> is the loop bound and \<open>sh\<close> the shift that the
  leading-zero loop tests with, both literals of the C function.
\<close>

function popcount_loop :: "nat \<Rightarrow> 'a::len word \<Rightarrow> nat \<Rightarrow> nat \<Rightarrow> nat" where
  "popcount_loop n val i count =
     (if i < n
      then popcount_loop n val (Suc i) (if val AND push_bit i 1 \<noteq> 0 then Suc count else count)
      else count)"
  by pat_completeness auto
termination by (relation "measure (\<lambda>(n, val, i, count). n - i)") auto

definition popcount64 :: "u64 \<Rightarrow> nat" where
  "popcount64 val = popcount_loop 64 val 0 0"

definition popcount32 :: "u32 \<Rightarrow> nat" where
  "popcount32 val = popcount_loop 32 val 0 0"

definition popcount16 :: "u16 \<Rightarrow> nat" where
  "popcount16 val = popcount_loop 16 val 0 0"

definition popcount :: "ulong \<Rightarrow> nat" where
  "popcount val = popcount64 val"

function clz_loop :: "nat \<Rightarrow> nat \<Rightarrow> nat \<Rightarrow> 'a::len word \<Rightarrow> nat \<Rightarrow> nat" where
  "clz_loop n sh i val lead_zeros =
     (if i < n \<and> drop_bit sh val = 0
      then clz_loop n sh (Suc i) (push_bit 1 val) (Suc lead_zeros)
      else lead_zeros)"
  by pat_completeness auto
termination by (relation "measure (\<lambda>(n, sh, i, val, z). n - i)") auto

definition clz64 :: "u64 \<Rightarrow> nat" where
  "clz64 val = clz_loop 64 63 0 val 0"

definition clz32 :: "u32 \<Rightarrow> nat" where
  "clz32 val = clz_loop 32 31 0 val 0"

definition clz16 :: "u16 \<Rightarrow> nat" where
  "clz16 val = clz_loop 16 16 0 val 0"

definition clz :: "ulong \<Rightarrow> nat" where
  "clz val = clz64 val"

function ctz_loop :: "nat \<Rightarrow> nat \<Rightarrow> 'a::len word \<Rightarrow> nat \<Rightarrow> nat" where
  "ctz_loop n i val trail_zeros =
     (if i < n \<and> val AND 1 = 0
      then ctz_loop n (Suc i) (drop_bit 1 val) (Suc trail_zeros)
      else trail_zeros)"
  by pat_completeness auto
termination by (relation "measure (\<lambda>(n, i, val, z). n - i)") auto

definition ctz64 :: "u64 \<Rightarrow> nat" where
  "ctz64 val = ctz_loop 64 0 val 0"

definition ctz32 :: "u32 \<Rightarrow> nat" where
  "ctz32 val = ctz_loop 32 0 val 0"

definition ctz16 :: "u16 \<Rightarrow> nat" where
  "ctz16 val = ctz_loop 16 0 val 0"

definition ctz :: "ulong \<Rightarrow> nat" where
  "ctz val = ctz64 val"

section \<open>Rounding up to a power of two\<close>

function bit_length_loop :: "'a::len word \<Rightarrow> nat \<Rightarrow> nat" where
  "bit_length_loop shift pos =
     (if shift \<noteq> 0 then bit_length_loop (drop_bit 1 shift) (Suc pos) else pos)"
  by pat_completeness auto
termination
  by (relation "measure (\<lambda>(shift, pos). unat shift)") (use unat_drop_bit_Suc_0_less in auto)

text \<open>
  In the 64-bit version \<^verbatim>\<open>0x1ull << pos\<close> is undefined when \<open>pos\<close> reaches 64; in the 32-bit
  version the shift is done in 64 bits and the assignment truncates it.
\<close>

definition align_to_power2_next64 :: "u64 \<Rightarrow> u64 res" where
  "align_to_power2_next64 val =
     (if val = 0 then Inr 0
      else let pos = bit_length_loop val 0 in
        if 64 \<le> pos then Inl Undefined
        else let aligned = push_bit pos 1; prev = push_bit (pos - 1) 1
             in if prev = val then Inr val else Inr aligned)"

definition align_to_power2_next32 :: "u32 \<Rightarrow> u32" where
  "align_to_power2_next32 val =
     (if val = 0 then 0
      else let pos = bit_length_loop val 0;
               aligned = ucast (push_bit pos (1::u64));
               prev = ucast (push_bit (pos - 1) (1::u64))
           in if prev = val then val else aligned)"

definition align_to_power2_next :: "ulong \<Rightarrow> ulong res" where
  "align_to_power2_next val = align_to_power2_next64 val"

declare popcount_loop.simps [simp del] clz_loop.simps [simp del] ctz_loop.simps [simp del]
  bit_length_loop.simps [simp del]

section \<open>What the loops compute\<close>

lemma popcount_loop_card:
  fixes val :: "'a::len word"
  shows "i \<le> n \<Longrightarrow> n \<le> LENGTH('a) \<Longrightarrow> popcount_loop n val i count = count + card {j. i \<le> j \<and> j < n \<and> bit val j}"
proof (induction n val i count rule: popcount_loop.induct)
  case (1 n val i count)
  show ?case
  proof (cases "i < n")
    case True
    have split: "{j. i \<le> j \<and> j < n \<and> bit val j} =
        (if bit val i then {i} else {}) \<union> {j. Suc i \<le> j \<and> j < n \<and> bit val j}"
      using True by (auto simp: le_less Suc_le_eq)
    have "card {j. i \<le> j \<and> j < n \<and> bit val j} =
        (if bit val i then 1 else 0) + card {j. Suc i \<le> j \<and> j < n \<and> bit val j}"
      unfolding split by (subst card_Un_disjoint) simp_all
    moreover have "val AND push_bit i 1 \<noteq> 0 \<longleftrightarrow> bit val i"
      using True "1.prems" by (intro and_push_bit_1_neq_0_iff) simp
    moreover have "Suc i \<le> n" using True by simp
    note "1.IH" [OF True this "1.prems"(2)]
    ultimately show ?thesis
      using True by (subst popcount_loop.simps) simp
  next
    case False
    with "1.prems" show ?thesis by (subst popcount_loop.simps) simp
  qed
qed

lemma ctz_loop_bits:
  "i \<le> n \<Longrightarrow>
   \<exists>k. ctz_loop n i val z = z + k \<and> k \<le> n - i \<and> (\<forall>j<k. \<not> bit val j) \<and> (k < n - i \<longrightarrow> bit val k)"
proof (induction n i val z rule: ctz_loop.induct)
  case (1 n i val z)
  show ?case
  proof (cases "i < n \<and> val AND 1 = 0")
    case True
    then have nb: "\<not> bit val 0" by (simp add: and_1_neq_0_iff)
    have "Suc i \<le> n" using True by simp
    from "1.IH" [OF True this] obtain k where k: "ctz_loop n (Suc i) (drop_bit 1 val) (Suc z) = Suc z + k"
      "k \<le> n - Suc i" "\<forall>j<k. \<not> bit (drop_bit 1 val) j" "k < n - Suc i \<longrightarrow> bit (drop_bit 1 val) k"
      by blast
    note k' = k(3,4) [unfolded bit_drop_bit_eq o_apply]
    have "\<not> bit val j" if "j < Suc k" for j
      using that k'(1) nb by (cases j) auto
    moreover have "bit val (Suc k)" if "Suc k < n - i"
      using that k'(2) by auto
    moreover have "Suc k \<le> n - i" using True k(2) by linarith
    moreover have "ctz_loop n i val z = z + Suc k"
      using True k(1) by (subst ctz_loop.simps) simp
    ultimately show ?thesis by blast
  next
    case False
    then have "ctz_loop n i val z = z" by (subst ctz_loop.simps) auto
    moreover have "bit val 0" if "i < n" using that False and_1_neq_0_iff [of val] by blast
    ultimately show ?thesis by (intro exI[of _ 0]) simp
  qed
qed

lemma clz_loop_bits:
  fixes val :: "'a::len word"
  shows "i \<le> n \<Longrightarrow> n = LENGTH('a) \<Longrightarrow> sh = LENGTH('a) - Suc 0 \<Longrightarrow>
   \<exists>k. clz_loop n sh i val z = z + k \<and> k \<le> n - i \<and> (\<forall>j<k. \<not> bit val (sh - j)) \<and>
       (k < n - i \<longrightarrow> bit val (sh - k))"
proof (induction n sh i val z rule: clz_loop.induct)
  case (1 n sh i val z)
  show ?case
  proof (cases "i < n \<and> drop_bit sh val = 0")
    case True
    then have nb: "\<not> bit val sh" using "1.prems" by (simp add: drop_bit_top_eq_0_iff)
    have "Suc i \<le> n" using True by simp
    from "1.IH" [OF True this "1.prems"(2,3)] obtain k where k: "clz_loop n sh (Suc i) (push_bit 1 val) (Suc z) = Suc z + k"
      "k \<le> n - Suc i" "\<forall>j<k. \<not> bit (push_bit 1 val) (sh - j)"
      "k < n - Suc i \<longrightarrow> bit (push_bit 1 val) (sh - k)"
      by blast
    note k' = k(3,4) [unfolded bit_push_bit_1_iff]
    have "\<not> bit val (sh - j)" if "j < Suc k" for j
      using that k(2) k'(1) nb "1.prems" by (cases j) auto
    moreover have "bit val (sh - Suc k)" if "Suc k < n - i"
      using that k'(2) by auto
    moreover have "Suc k \<le> n - i" using True k(2) by linarith
    moreover have "clz_loop n sh i val z = z + Suc k"
      using True k(1) by (subst clz_loop.simps) simp
    ultimately show ?thesis by blast
  next
    case False
    then have "clz_loop n sh i val z = z" by (subst clz_loop.simps) auto
    moreover have "bit val sh" if "i < n"
      using that False "1.prems" drop_bit_top_eq_0_iff [of val] by metis
    ultimately show ?thesis by (intro exI[of _ 0]) simp
  qed
qed

section \<open>Byte order lemmas\<close>

lemma and_0xff_eq_take_bit [bit_facts]: "v AND 0xff = take_bit 8 (v::'a::len word)"
  by (simp add: take_bit_eq_mask mask_eq_exp_minus_1)

definition bytes_of :: "nat \<Rightarrow> 'a::len word \<Rightarrow> 'a word list" where
  "bytes_of n v = map (\<lambda>i. drop_bit (8 * i) v AND 0xff) [0..<n]"

lemma less_4_cases: "i < 4 \<Longrightarrow> P 0 \<Longrightarrow> P 1 \<Longrightarrow> P 2 \<Longrightarrow> P 3 \<Longrightarrow> P (i::nat)"
  by (auto simp: less_Suc_eq numeral_eq_Suc)

lemma less_8_cases:
  "i < 8 \<Longrightarrow> P 0 \<Longrightarrow> P 1 \<Longrightarrow> P 2 \<Longrightarrow> P 3 \<Longrightarrow> P 4 \<Longrightarrow> P 5 \<Longrightarrow> P 6 \<Longrightarrow> P 7 \<Longrightarrow> P (i::nat)"
  by (auto simp: less_Suc_eq numeral_eq_Suc)

lemma bit_swap_endian32:
  assumes q: "q < 4" and r: "r < 8"
  shows "bit (swap_endian32 v) (8 * q + r) = bit v (8 * (3 - q) + r)"
  unfolding swap_endian32_def Let_def and_0xff_eq_take_bit bit_or_iff bit_push_bit_iff
    bit_take_bit_iff bit_drop_bit_eq o_apply
  by (rule less_4_cases [OF q]) (use r in \<open>simp_all\<close>)

lemma bit_swap_endian64:
  assumes q: "q < 8" and r: "r < 8"
  shows "bit (swap_endian64 v) (8 * q + r) = bit v (8 * (7 - q) + r)"
  unfolding swap_endian64_def Let_def and_0xff_eq_take_bit bit_or_iff bit_push_bit_iff
    bit_take_bit_iff bit_drop_bit_eq o_apply
  by (rule less_8_cases [OF q]) (use r in \<open>simp_all\<close>)

lemma bit_swap_endian16:
  assumes q: "q < 2" and r: "r < 8"
  shows "bit (swap_endian16 v) (8 * q + r) = bit v (8 * (1 - q) + r)"
  unfolding swap_endian16_def Let_def and_0xff_eq_take_bit bit_or_iff bit_push_bit_iff
    bit_take_bit_iff bit_drop_bit_eq o_apply
  using q r by (cases q) simp_all

lemma byte_eqI:
  fixes v w :: "'a::len word"
  assumes "\<And>r. r < 8 \<Longrightarrow> bit v (a + r) = bit w (b + r)"
  shows "drop_bit a v AND 0xff = drop_bit b w AND 0xff"
  unfolding and_0xff_eq_take_bit
  by (rule bit_word_eqI) (use assms in \<open>auto simp: bit_take_bit_iff bit_drop_bit_eq\<close>)

lemma word_eq_by_bytesI:
  fixes v w :: "'a::len word"
  assumes "LENGTH('a) = 8 * m"
    and "\<And>q r. q < m \<Longrightarrow> r < 8 \<Longrightarrow> bit v (8 * q + r) = bit w (8 * q + r)"
  shows "v = w"
proof (rule bit_word_eqI)
  fix n assume "n < LENGTH('a)"
  with assms(1) have "n div 8 < m" by simp
  from assms(2) [OF this, of "n mod 8"] show "bit v n = bit w n" by simp
qed

lemma swap_endian64_swap_endian64 [simp]: "swap_endian64 (swap_endian64 v) = v"
proof (rule word_eq_by_bytesI [where m = 8])
  fix q r :: nat assume "q < 8" "r < 8"
  then show "bit (swap_endian64 (swap_endian64 v)) (8 * q + r) = bit v (8 * q + r)"
    by (simp only: bit_swap_endian64 [of q r] bit_swap_endian64 [of "7 - q" r]) simp
qed simp

lemma swap_endian32_swap_endian32 [simp]: "swap_endian32 (swap_endian32 v) = v"
proof (rule word_eq_by_bytesI [where m = 4])
  fix q r :: nat assume "q < 4" "r < 8"
  then show "bit (swap_endian32 (swap_endian32 v)) (8 * q + r) = bit v (8 * q + r)"
    by (simp only: bit_swap_endian32 [of q r] bit_swap_endian32 [of "3 - q" r]) simp
qed simp

lemma swap_endian16_swap_endian16 [simp]: "swap_endian16 (swap_endian16 v) = v"
proof (rule word_eq_by_bytesI [where m = 2])
  fix q r :: nat assume "q < 2" "r < 8"
  then show "bit (swap_endian16 (swap_endian16 v)) (8 * q + r) = bit v (8 * q + r)"
    by (simp only: bit_swap_endian16 [of q r] bit_swap_endian16 [of "1 - q" r]) simp
qed simp

lemma bytes_of_swapped:
  assumes "\<And>q r. q < n \<Longrightarrow> r < 8 \<Longrightarrow> bit w (8 * q + r) = bit v (8 * (n - 1 - q) + r)"
  shows "bytes_of n w = rev (bytes_of n v)"
  by (rule nth_equalityI)
     (use assms in \<open>auto simp: bytes_of_def rev_nth intro!: byte_eqI\<close>)

text \<open>
  C32: converting the byte order of a 64-bit, 32-bit or 16-bit value reverses its bytes, and
  converting twice gives the value back.
\<close>

theorem swap_endian_reverses_bytes:
  "bytes_of 8 (swap_endian64 v) = rev (bytes_of 8 v) \<and> swap_endian64 (swap_endian64 v) = v \<and>
   bytes_of 4 (swap_endian32 w) = rev (bytes_of 4 w) \<and> swap_endian32 (swap_endian32 w) = w \<and>
   bytes_of 2 (swap_endian16 x) = rev (bytes_of 2 x) \<and> swap_endian16 (swap_endian16 x) = x"
  by (auto intro!: bytes_of_swapped simp: bit_swap_endian64 bit_swap_endian32 bit_swap_endian16)
lemma popcount64_card: "popcount64 val = card {i. i < 64 \<and> bit val i}"
  by (simp add: popcount64_def popcount_loop_card)

lemma popcount32_card: "popcount32 val = card {i. i < 32 \<and> bit val i}"
  by (simp add: popcount32_def popcount_loop_card)

lemma popcount16_card: "popcount16 val = card {i. i < 16 \<and> bit val i}"
  by (simp add: popcount16_def popcount_loop_card)

lemma word_eq_2_power_iff:
  "(v::'a::len word) = 2 ^ k \<and> k < LENGTH('a) \<longleftrightarrow> {i. i < LENGTH('a) \<and> bit v i} = {k}"
proof
  assume *: "{i. i < LENGTH('a) \<and> bit v i} = {k}"
  have "v = 2 ^ k"
  proof (rule bit_word_eqI)
    fix n assume "n < LENGTH('a)"
    with * show "bit v n = bit (2 ^ k :: 'a word) n" by (auto simp: bit_exp_iff)
  qed
  with * show "v = 2 ^ k \<and> k < LENGTH('a)" by blast
qed (auto simp: bit_exp_iff)

lemma popcount64_eq_1_iff: "popcount64 v = 1 \<longleftrightarrow> (\<exists>k<64. v = 2 ^ k)"
proof -
  have "popcount64 v = 1 \<longleftrightarrow> (\<exists>k. {i. i < LENGTH(64) \<and> bit v i} = {k})"
    by (simp add: popcount64_card card_1_singleton_iff)
  also have "\<dots> \<longleftrightarrow> (\<exists>k<64. v = 2 ^ k)"
    unfolding word_eq_2_power_iff [symmetric] by auto
  finally show ?thesis .
qed

lemma clz_bits:
  assumes "n = LENGTH('a)" and "sh = LENGTH('a) - 1"
  shows "clz_loop n sh 0 (0::'a::len word) 0 = n"
    and "v \<noteq> 0 \<Longrightarrow> clz_loop n sh 0 v 0 < n"
    and "v \<noteq> 0 \<Longrightarrow> bit (v::'a word) (sh - clz_loop n sh 0 v 0)"
    and "sh - clz_loop n sh 0 v 0 < j \<Longrightarrow> \<not> bit v j"
proof -
  obtain k where "clz_loop n sh 0 (0::'a word) 0 = k" "k \<le> n" "\<not> k < n"
    using clz_loop_bits [of 0 n sh "0::'a word" 0] assms by auto
  then show "clz_loop n sh 0 (0::'a word) 0 = n" by simp
  obtain k where k: "clz_loop n sh 0 v 0 = k" "k \<le> n" "\<forall>j<k. \<not> bit v (sh - j)"
    "k < n \<longrightarrow> bit v (sh - k)"
    using clz_loop_bits [of 0 n sh v 0] assms by auto
  have no: "\<not> bit v j" if "sh - k < j" for j
  proof (cases "j \<le> sh")
    case True
    with that have "sh - j < k" by linarith
    with k(3) have "\<not> bit v (sh - (sh - j))" by blast
    with True show ?thesis by simp
  next
    case False
    then show ?thesis using assms bit_imp_le_length [of v j] by fastforce
  qed
  show "\<not> bit v j" if "sh - clz_loop n sh 0 v 0 < j" using that k no by simp
  show "clz_loop n sh 0 v 0 < n" if "v \<noteq> 0"
  proof (rule ccontr)
    assume "\<not> ?thesis"
    with k have "k = n" by simp
    have "v = 0"
    proof (rule bit_word_eqI)
      fix j assume "j < LENGTH('a)"
      then show "bit v j = bit 0 j" using k(3) \<open>k = n\<close> assms by (auto dest: spec [of _ "sh - j"])
    qed
    with that show False by simp
  qed
  then show "bit v (sh - clz_loop n sh 0 v 0)" if "v \<noteq> 0" using that k by simp
qed

lemma clz64_0: "clz64 0 = 64" by (simp add: clz64_def clz_bits)
lemma clz32_0: "clz32 0 = 32" by (simp add: clz32_def clz_bits)

lemma clz64_bounds:
  assumes "v \<noteq> 0"
  shows "clz64 v < 64" and "2 ^ (63 - clz64 v) \<le> unat v" and "unat v < 2 ^ (64 - clz64 v)"
proof -
  show lt: "clz64 v < 64" using assms by (simp add: clz64_def clz_bits)
  have "bit v (63 - clz64 v)" and "\<And>j. 63 - clz64 v < j \<Longrightarrow> \<not> bit v j"
    using assms clz_bits(3,4) [of 64 63 v] by (auto simp: clz64_def)
  note * = unat_highest_bit [OF this]
  have "Suc (63 - clz64 v) = 64 - clz64 v" using lt by simp
  with * show "2 ^ (63 - clz64 v) \<le> unat v" and "unat v < 2 ^ (64 - clz64 v)"
    by (simp_all only:)
qed

lemma clz32_bounds:
  assumes "v \<noteq> 0"
  shows "clz32 v < 32" and "2 ^ (31 - clz32 v) \<le> unat v" and "unat v < 2 ^ (32 - clz32 v)"
proof -
  show lt: "clz32 v < 32" using assms by (simp add: clz32_def clz_bits)
  have "bit v (31 - clz32 v)" and "\<And>j. 31 - clz32 v < j \<Longrightarrow> \<not> bit v j"
    using assms clz_bits(3,4) [of 32 31 v] by (auto simp: clz32_def)
  note * = unat_highest_bit [OF this]
  have "Suc (31 - clz32 v) = 32 - clz32 v" using lt by simp
  with * show "2 ^ (31 - clz32 v) \<le> unat v" and "unat v < 2 ^ (32 - clz32 v)"
    by (simp_all only:)
qed

lemma ctz_bits:
  assumes "n = LENGTH('a)"
  shows "ctz_loop n 0 (0::'a::len word) 0 = n"
    and "v \<noteq> 0 \<Longrightarrow> ctz_loop n 0 v 0 < n"
    and "v \<noteq> 0 \<Longrightarrow> bit (v::'a word) (ctz_loop n 0 v 0)"
    and "j < ctz_loop n 0 v 0 \<Longrightarrow> \<not> bit v j"
proof -
  obtain k where "ctz_loop n 0 (0::'a word) 0 = k" "k \<le> n" "\<not> k < n"
    using ctz_loop_bits [of 0 n "0::'a word" 0] by auto
  then show "ctz_loop n 0 (0::'a word) 0 = n" by simp
  obtain k where k: "ctz_loop n 0 v 0 = k" "k \<le> n" "\<forall>j<k. \<not> bit v j" "k < n \<longrightarrow> bit v k"
    using ctz_loop_bits [of 0 n v 0] by auto
  then show "\<not> bit v j" if "j < ctz_loop n 0 v 0" using that by simp
  show "ctz_loop n 0 v 0 < n" if "v \<noteq> 0"
  proof (rule ccontr)
    assume "\<not> ?thesis"
    with k have "k = n" by simp
    then have "v = 0" using k(3) assms by (intro bit_word_eqI) auto
    with that show False by simp
  qed
  then show "bit v (ctz_loop n 0 v 0)" if "v \<noteq> 0" using that k by simp
qed

lemma ctz64_0: "ctz64 0 = 64" by (simp add: ctz64_def ctz_bits)

lemma ctz64_lowest_bit:
  assumes "v \<noteq> 0"
  shows "ctz64 v < 64" and "bit v (ctz64 v)" and "j < ctz64 v \<Longrightarrow> \<not> bit v j"
  using assms ctz_bits(2,3) [of 64 v] ctz_bits(4) [of 64 j v] by (simp_all add: ctz64_def)

text \<open>
  C33: the counting loops compute what their names say: the number of set bits, the number of zero
  bits above the highest set bit (so that the value lies between two adjacent powers of two), and
  the position of the lowest set bit; on zero the last two return the width.
\<close>

theorem bit_counts_correct:
  "popcount64 v = card {i. i < 64 \<and> bit v i} \<and>
   (if v = 0 then clz64 v = 64 \<and> ctz64 v = 64
    else 2 ^ (63 - clz64 v) \<le> unat v \<and> unat v < 2 ^ (64 - clz64 v) \<and> clz64 v < 64 \<and>
         Min {i. bit v i} = ctz64 v)"
proof (cases "v = 0")
  case True
  then show ?thesis by (simp add: popcount64_card clz64_0 ctz64_0)
next
  case False
  have "finite {i. bit v i}"
    by (rule finite_subset [of _ "{..<64}"]) (use bit_imp_le_length [of v] in auto)
  then have "Min {i. bit v i} = ctz64 v"
    using False ctz64_lowest_bit by (intro Min_eqI) (auto simp: not_less [symmetric])
  with False show ?thesis by (simp add: popcount64_card clz64_bounds)
qed

text \<open>
  The 16-bit leading-zero count tests bit 16 of a 16-bit value, which is never set, so it
  returns 16 for every argument.
\<close>

theorem clz16_constant: "clz16 v = 16"
proof -
  have "clz_loop 16 16 i (w::u16) z = z + (16 - i)" if "i \<le> 16" for i w z
    using that
  proof (induction "16 - i" arbitrary: i w z)
    case 0
    then show ?case by (subst clz_loop.simps) simp
  next
    case (Suc m)
    then have "m = 16 - Suc i" and "Suc i \<le> 16" by simp_all
    from Suc.hyps(1) [OF this] Suc.prems Suc.hyps(2) show ?case
      by (subst clz_loop.simps) (auto simp: drop_bit_word_beyond)
  qed
  from this [of 0 v 0] show ?thesis by (simp add: clz16_def)
qed

lemma bit_length_loop_bounds:
  fixes v :: "'a::len word"
  shows "\<exists>l. bit_length_loop v p = p + l \<and> unat v < 2 ^ l \<and>
     (if v = 0 then l = 0 else 0 < l \<and> 2 ^ (l - 1) \<le> unat v)"
proof (induction v p rule: bit_length_loop.induct)
  case (1 v p)
  show ?case
  proof (cases "v = 0")
    case True
    then show ?thesis by (subst bit_length_loop.simps) simp
  next
    case False
    from "1.IH" [OF False] obtain l where l: "bit_length_loop (drop_bit 1 v) (Suc p) = Suc p + l"
      "unat (drop_bit 1 v) < 2 ^ l"
      "if drop_bit 1 v = 0 then l = 0 else 0 < l \<and> 2 ^ (l - 1) \<le> unat (drop_bit 1 v)"
      by blast
    have half: "unat (drop_bit 1 v) = unat v div 2"
      by (subst unat_drop_bit_eq) (simp add: drop_bit_Suc)
    have "bit_length_loop v p = p + Suc l" using False l(1) by (subst bit_length_loop.simps) simp
    moreover have "unat v < 2 ^ Suc l" using l(2) half by simp
    moreover have "2 ^ (Suc l - 1) \<le> unat v"
    proof (cases l)
      case 0
      with False show ?thesis by (simp add: Suc_le_eq unat_gt_0)
    next
      case (Suc m)
      with l(3) half have "2 ^ m \<le> unat v div 2" by (auto split: if_splits)
      with Suc show ?thesis by simp
    qed
    ultimately show ?thesis using False by (intro exI[of _ "Suc l"]) simp
  qed
qed

text \<open>
  C34: rounding up to a power of two: for a non-zero value below \<open>2 ^ 63\<close> the result is a power of
  two, is not below the value and is less than twice the value, so it is the least such power; for a
  value with the top bit set the C code shifts by 64, which is undefined.
\<close>

theorem align_to_power2_next64_least:
  "(if v = 0 then align_to_power2_next64 v = Inr 0
    else if unat v < 2 ^ 63
    then \<exists>k. align_to_power2_next64 v = Inr (2 ^ k) \<and> k < 64 \<and>
             unat v \<le> unat (2 ^ k :: u64) \<and> unat (2 ^ k :: u64) < 2 * unat v
    else align_to_power2_next64 v = Inl Undefined)"
proof (cases "v = 0")
  case True
  then show ?thesis by (simp add: align_to_power2_next64_def)
next
  case False
  then obtain l where l: "bit_length_loop v 0 = l" "unat v < 2 ^ l" "0 < l" "2 ^ (l - 1) \<le> unat v"
    using bit_length_loop_bounds [of v 0] by auto
  have le: "l \<le> 63 \<longleftrightarrow> unat v < 2 ^ 63"
  proof
    assume "l \<le> 63"
    then have "(2::nat) ^ l \<le> 2 ^ 63" by (intro power_increasing) auto
    with l(2) show "unat v < 2 ^ 63" by simp
  next
    assume "unat v < 2 ^ 63"
    with l(4) have "(2::nat) ^ (l - 1) < 2 ^ 63" by simp
    then have "l - 1 < 63" by (rule power_less_imp_less_exp [rotated]) simp
    then show "l \<le> 63" by simp
  qed
  show ?thesis
  proof (cases "unat v < 2 ^ 63")
    case True
    with le have l63: "l \<le> 63" by simp
    define k where "k = (if 2 ^ (l - 1) = v then l - 1 else l)"
    have k: "k < 64" using l63 by (auto simp: k_def)
    have res: "align_to_power2_next64 v = Inr (2 ^ k)"
      using False l63 l(1) by (simp add: align_to_power2_next64_def Let_def k_def)
    have "unat v \<le> 2 ^ k \<and> 2 ^ k < 2 * unat v"
    proof (cases "2 ^ (l - 1) = v")
      case True
      then have "unat v = 2 ^ (l - 1)" using unat_2_power [of "l - 1", where 'a = 64] l63 by simp
      with True show ?thesis by (simp add: k_def)
    next
      case ne: False
      have "2 ^ (l - 1) \<noteq> unat v"
      proof
        assume "2 ^ (l - 1) = unat v"
        then have "unat (2 ^ (l - 1) :: u64) = unat v" using l63 by (simp add: unat_2_power)
        with ne show False by (simp add: word_unat_eq_iff)
      qed
      with l(2-4) have "2 * 2 ^ (l - 1) < 2 * unat v" by simp
      with l(2,3) ne show ?thesis by (simp add: k_def flip: power_Suc)
    qed
    with res k False True show ?thesis by (auto simp: unat_2_power)
  next
    case False
    with le l \<open>v \<noteq> 0\<close> show ?thesis by (simp add: align_to_power2_next64_def Let_def)
  qed
qed
end
