(* ===== verification/Kmath.thy ===== *)
theory Kmath
  imports Kbits
begin

text \<open>
  Software multiplication and division, \<^verbatim>\<open>libk/lib/math.c\<close>, which the targets without the
  instructions link as their compiler support routines. Signed values are words of the same width
  read in two's complement. A function that stores through \<^verbatim>\<open>qout\<close> and \<^verbatim>\<open>rout\<close> returns the pair
  of the two values. A shift of a 32-bit operand by 32 or more is undefined in C and ends the
  computation with \<open>Inl Undefined\<close>; the source has such shifts where it writes \<^verbatim>\<open>0x1u << i\<close> in
  64-bit loops and where it divides by zero.
\<close>

section \<open>Multiplication\<close>

function mul_u32_loop :: "u32 \<Rightarrow> u32 \<Rightarrow> nat \<Rightarrow> u32 \<Rightarrow> u32" where
  "mul_u32_loop a b i um =
     (if i < 32
      then mul_u32_loop a b (Suc i) (if b AND push_bit i 1 \<noteq> 0 then um + push_bit i a else um)
      else um)"
  by pat_completeness auto
termination by (relation "measure (\<lambda>(a, b, i, um). 32 - i)") auto

definition mul_u32 :: "u32 \<Rightarrow> u32 \<Rightarrow> u32" where
  "mul_u32 a b = mul_u32_loop a b 0 0"

definition mul_s32 :: "u32 \<Rightarrow> u32 \<Rightarrow> u32" where
  "mul_s32 a b =
     (let na = drop_bit 31 a \<noteq> 0; ua = (if na then NOT a + 1 else a);
          nb = drop_bit 31 b \<noteq> 0; ub = (if nb then NOT b + 1 else b);
          negs = of_bool na + of_bool nb :: nat;
          um = mul_u32 ua ub
      in if negs = 1 then NOT um + 1 else um)"

text \<open>The 32-bit constant \<^verbatim>\<open>0x1u\<close> shifted left.\<close>

definition shl_1u :: "nat \<Rightarrow> u32 res" where
  "shl_1u i = (if i < 32 then Inr (push_bit i 1) else Inl Undefined)"

function mul_u64_loop :: "u64 \<Rightarrow> u64 \<Rightarrow> nat \<Rightarrow> u64 \<Rightarrow> u64 res" where
  "mul_u64_loop a b i um =
     (if i < 64
      then case shl_1u i of
             Inl e \<Rightarrow> Inl e
           | Inr m \<Rightarrow> mul_u64_loop a b (Suc i) (if b AND ucast m \<noteq> 0 then um + push_bit i a else um)
      else Inr um)"
  by pat_completeness auto
termination by (relation "measure (\<lambda>(a, b, i, um). 64 - i)") auto

definition mul_u64 :: "u64 \<Rightarrow> u64 \<Rightarrow> u64 res" where
  "mul_u64 a b = mul_u64_loop a b 0 0"

definition mul_s64 :: "u64 \<Rightarrow> u64 \<Rightarrow> u64 res" where
  "mul_s64 a b =
     (let na = drop_bit 63 a \<noteq> 0; ua = (if na then NOT a + 1 else a);
          nb = drop_bit 63 b \<noteq> 0; ub = (if nb then NOT b + 1 else b);
          negs = of_bool na + of_bool nb :: nat
      in ebind (mul_u64 ua ub) (\<lambda>um. Inr (if negs = 1 then NOT um + 1 else um)))"

definition mul_ulong :: "ulong \<Rightarrow> ulong \<Rightarrow> ulong res" where
  "mul_ulong a b = mul_u64 a b"

definition mul_long :: "ulong \<Rightarrow> ulong \<Rightarrow> ulong res" where
  "mul_long a b = mul_s64 a b"

section \<open>Division\<close>

text \<open>
  The loop runs from \<open>i = clz b\<close> down to 0; its argument here is \<open>Suc i\<close>, so that \<open>0\<close> is the state
  after the last iteration. For \<open>b = 0\<close> the first shift is by the full width.
\<close>

fun div_u32_loop :: "u32 \<Rightarrow> nat \<Rightarrow> u32 \<Rightarrow> u32 \<Rightarrow> (u32 \<times> u32) res" where
  "div_u32_loop b 0 q r = Inr (q, r)"
| "div_u32_loop b (Suc i) q r =
     (if 32 \<le> i then Inl Undefined
      else let t = push_bit i b in
        if t \<le> r then div_u32_loop b i (q OR push_bit i 1) (r - t)
        else div_u32_loop b i q r)"

definition div_u32 :: "u32 \<Rightarrow> u32 \<Rightarrow> (u32 \<times> u32) res" where
  "div_u32 a b = div_u32_loop b (Suc (clz32 b)) 0 a"

definition div_s32 :: "u32 \<Rightarrow> u32 \<Rightarrow> (u32 \<times> u32) res" where
  "div_s32 a b =
     (let neg_a = sint a < 0; neg_b = sint b < 0;
          ua = (if neg_a then NOT a + 1 else a);
          ub = (if neg_b then NOT b + 1 else b)
      in ebind (div_u32 ua ub) (\<lambda>(uq, ur). Inr (
           if neg_a \<and> neg_b then (uq, NOT ur + 1)
           else if neg_b then (NOT uq + 1, ur)
           else if neg_a \<and> ur \<noteq> 0 then (NOT (uq + 1) + 1, NOT ur + 1 + ub)
           else (uq, ur))))"

fun div_u64_loop :: "u64 \<Rightarrow> nat \<Rightarrow> u64 \<Rightarrow> u64 \<Rightarrow> (u64 \<times> u64) res" where
  "div_u64_loop b 0 q r = Inr (q, r)"
| "div_u64_loop b (Suc i) q r =
     (if 64 \<le> i then Inl Undefined
      else let t = push_bit i b in
        if t \<le> r
        then (case shl_1u i of
                Inl e \<Rightarrow> Inl e
              | Inr m \<Rightarrow> div_u64_loop b i (q OR ucast m) (r - t))
        else div_u64_loop b i q r)"

definition div_u64 :: "u64 \<Rightarrow> u64 \<Rightarrow> (u64 \<times> u64) res" where
  "div_u64 a b = div_u64_loop b (Suc (clz64 b)) 0 a"

text \<open>\<^verbatim>\<open>div_s64\<close> keeps its operands and its results in \<^verbatim>\<open>u32\<close> variables.\<close>

definition div_s64 :: "u64 \<Rightarrow> u64 \<Rightarrow> (u64 \<times> u64) res" where
  "div_s64 a b =
     (let neg_a = sint a < 0; neg_b = sint b < 0;
          ua = (if neg_a then NOT (ucast a) + 1 else ucast a :: u32);
          ub = (if neg_b then NOT (ucast b) + 1 else ucast b :: u32)
      in ebind (div_u32 ua ub) (\<lambda>(uq, ur).
           let (uq', ur') =
             (if neg_a \<and> neg_b then (uq, NOT ur + 1)
              else if neg_b then (NOT uq + 1, ur)
              else if neg_a \<and> ur \<noteq> 0 then (NOT (uq + 1) + 1, NOT ur + 1 + ub)
              else (uq, ur))
           in Inr (ucast uq', ucast ur')))"

definition div_ulong :: "ulong \<Rightarrow> ulong \<Rightarrow> (ulong \<times> ulong) res" where
  "div_ulong a b = div_u64 a b"

definition div_long :: "ulong \<Rightarrow> ulong \<Rightarrow> (ulong \<times> ulong) res" where
  "div_long a b = div_s64 a b"

section \<open>Quotient and remainder\<close>

definition quo_u64 :: "u64 \<Rightarrow> u64 \<Rightarrow> u64 res" where
  "quo_u64 a b = ebind (div_u64 a b) (\<lambda>(q, _). Inr q)"

definition quo_s64 :: "u64 \<Rightarrow> u64 \<Rightarrow> u64 res" where
  "quo_s64 a b = ebind (div_s64 a b) (\<lambda>(q, _). Inr q)"

definition quo_u32 :: "u32 \<Rightarrow> u32 \<Rightarrow> u32 res" where
  "quo_u32 a b = ebind (div_u32 a b) (\<lambda>(q, _). Inr q)"

text \<open>Returned as \<^verbatim>\<open>u64\<close>: the signed 32-bit quotient is sign-extended.\<close>

definition quo_s32 :: "u32 \<Rightarrow> u32 \<Rightarrow> u64 res" where
  "quo_s32 a b = ebind (div_s32 a b) (\<lambda>(q, _). Inr (scast q))"

definition quo_ulong :: "ulong \<Rightarrow> ulong \<Rightarrow> ulong res" where
  "quo_ulong a b = quo_u64 a b"

definition quo_long :: "ulong \<Rightarrow> ulong \<Rightarrow> ulong res" where
  "quo_long a b = quo_s64 a b"

definition rem_u64 :: "u64 \<Rightarrow> u64 \<Rightarrow> u64 res" where
  "rem_u64 a b = ebind (div_u64 a b) (\<lambda>(_, r). Inr r)"

definition rem_s64 :: "u64 \<Rightarrow> u64 \<Rightarrow> u64 res" where
  "rem_s64 a b = ebind (div_s64 a b) (\<lambda>(_, r). Inr r)"

definition rem_u32 :: "u32 \<Rightarrow> u32 \<Rightarrow> u32 res" where
  "rem_u32 a b = ebind (div_u32 a b) (\<lambda>(_, r). Inr r)"

definition rem_s32 :: "u32 \<Rightarrow> u32 \<Rightarrow> u64 res" where
  "rem_s32 a b = ebind (div_s32 a b) (\<lambda>(_, r). Inr (scast r))"

definition rem_ulong :: "ulong \<Rightarrow> ulong \<Rightarrow> ulong res" where
  "rem_ulong a b = rem_u64 a b"

definition rem_long :: "ulong \<Rightarrow> ulong \<Rightarrow> ulong res" where
  "rem_long a b = rem_s64 a b"

declare mul_u32_loop.simps [simp del] mul_u64_loop.simps [simp del]

section \<open>Multiplication is multiplication\<close>

lemma drop_bit_Suc_eq: "drop_bit (Suc i) b = drop_bit i (b::'a::len word) div 2"
  by (simp add: drop_bit_Suc drop_bit_half)

lemma drop_bit_mod_2_eq: "drop_bit i (b::'a::len word) mod 2 = of_bool (bit b i)"
  by (simp add: mod_2_eq_odd bit_iff_odd_drop_bit)

lemma push_bit_drop_bit_step:
  "push_bit i (drop_bit i (b::'a::len word)) =
   (if bit b i then 2 ^ i else 0) + push_bit (Suc i) (drop_bit (Suc i) b)"
proof -
  have "drop_bit i b = 2 * drop_bit (Suc i) b + of_bool (bit b i)"
    unfolding drop_bit_Suc_eq drop_bit_mod_2_eq [symmetric] by (rule mult_div_mod_eq [symmetric])
  then have "push_bit i (drop_bit i b) =
      push_bit i (2 * drop_bit (Suc i) b) + push_bit i (of_bool (bit b i))"
    by (metis push_bit_add)
  then show ?thesis
    by (simp add: push_bit_eq_mult [of i] mult.assoc mult.left_commute)
qed

lemma mul_u32_loop_eq: "mul_u32_loop a b i um = um + a * push_bit i (drop_bit i b)"
proof (induction a b i um rule: mul_u32_loop.induct)
  case (1 a b i um)
  show ?case
  proof (cases "i < 32")
    case True
    then have "b AND push_bit i 1 \<noteq> 0 \<longleftrightarrow> bit b i" by (intro and_push_bit_1_neq_0_iff) simp
    moreover have "push_bit i a = a * 2 ^ i" by (simp add: push_bit_eq_mult)
    ultimately show ?thesis
      using True "1.IH" [OF True]
      by (subst mul_u32_loop.simps, subst push_bit_drop_bit_step)
         (simp only: if_True distrib_left split: if_split, simp)
  next
    case False
    then show ?thesis by (subst mul_u32_loop.simps) (simp add: drop_bit_word_beyond)
  qed
qed

lemma mul_u32_eq: "mul_u32 a b = a * b"
  by (simp add: mul_u32_def mul_u32_loop_eq)

lemma NOT_plus_1: "NOT (v::'a::len word) + 1 = - v"
  by (rule minus_eq_not_plus_1 [symmetric])

text \<open>
  C35: the shift-and-add multiplication of unsigned and of signed 32-bit values is multiplication
  modulo \<open>2 ^ 32\<close>, which in two's complement is the same function of the bits.
\<close>

theorem mul_32_correct: "mul_u32 a b = a * b \<and> mul_s32 a b = a * b"
  by (simp add: mul_u32_eq mul_s32_def NOT_plus_1 Let_def)

text \<open>
  Every call of the 64-bit multiplication runs into an undefined shift: its mask
  \<^verbatim>\<open>0x1u << i\<close> is a 32-bit shift and the loop runs \<open>i\<close> up to 63.
\<close>

theorem mul_u64_undefined: "mul_u64 a b = Inl Undefined"
proof -
  have "mul_u64_loop a b i um = Inl Undefined" if "i \<le> 32" for i um
    using that
  proof (induction "32 - i" arbitrary: i um)
    case 0
    then show ?case by (subst mul_u64_loop.simps) (simp add: shl_1u_def)
  next
    case (Suc m)
    then have "m = 32 - Suc i" "Suc i \<le> 32" by simp_all
    from Suc.hyps(1) [OF this] Suc.hyps(2) show ?case
      by (subst mul_u64_loop.simps) (auto simp: shl_1u_def)
  qed
  from this [of 0 0] show ?thesis by (simp add: mul_u64_def)
qed

section \<open>Division is division\<close>

lemma div_step:
  fixes b r :: "'a::len word"
  assumes b: "b \<noteq> 0" and fits: "unat b * 2 ^ i < 2 ^ LENGTH('a)" and r: "unat r < unat b * 2 ^ Suc i"
  shows "push_bit i b \<le> r \<Longrightarrow> unat (r - push_bit i b) < unat b * 2 ^ i"
    and "push_bit i b \<le> r \<Longrightarrow> r div b = 2 ^ i + (r - push_bit i b) div b"
    and "push_bit i b \<le> r \<Longrightarrow> r mod b = (r - push_bit i b) mod b"
    and "\<not> push_bit i b \<le> r \<Longrightarrow> unat r < unat b * 2 ^ i"
    and "push_bit i b \<le> r \<longleftrightarrow> 2 ^ i \<le> unat r div unat b"
proof -
  have b0: "0 < unat b" using b by (simp add: unat_gt_0)
  have t: "unat (push_bit i b) = unat b * 2 ^ i"
    by (subst unsigned_push_bit_eq) (use fits in \<open>simp add: take_bit_nat_eq_self push_bit_eq_mult\<close>)
  show iff: "push_bit i b \<le> r \<longleftrightarrow> 2 ^ i \<le> unat r div unat b"
    using b0 by (simp add: word_le_nat_alt t less_eq_div_iff_mult_less_eq mult.commute)
  show "unat r < unat b * 2 ^ i" if "\<not> push_bit i b \<le> r"
    using that by (simp add: word_le_nat_alt t)
  assume le: "push_bit i b \<le> r"
  then have sub: "unat (r - push_bit i b) = unat r - unat b * 2 ^ i"
    by (simp add: unat_sub t)
  have le': "unat b * 2 ^ i \<le> unat r" using le by (simp add: word_le_nat_alt t)
  show "unat (r - push_bit i b) < unat b * 2 ^ i" using r le' by (simp add: sub)
  have eq: "unat r = unat b * 2 ^ i + unat (r - push_bit i b)" using le' by (simp add: sub)
  have i: "i < LENGTH('a)"
  proof (rule ccontr)
    assume "\<not> i < LENGTH('a)"
    then have "(2::nat) ^ LENGTH('a) \<le> 2 ^ i" by (intro power_increasing) auto
    also have "\<dots> \<le> unat b * 2 ^ i" using b0 by simp
    finally show False using fits by simp
  qed
  have "unat r div unat b = 2 ^ i + unat (r - push_bit i b) div unat b"
    using b0 by (subst eq) simp
  moreover have "2 ^ i + unat (r - push_bit i b) div unat b < 2 ^ LENGTH('a)"
  proof -
    have "unat (r div b) < 2 ^ LENGTH('a)" by (rule unsigned_less)
    then show ?thesis using calculation by (simp only: unat_div)
  qed
  ultimately show "r div b = 2 ^ i + (r - push_bit i b) div b"
    by (simp only: word_unat_eq_iff unat_word_ariths(1) unat_div unat_2_power [OF i] mod_less)
  show "r mod b = (r - push_bit i b) mod b"
    by (simp only: word_unat_eq_iff unat_mod) (subst eq, simp)
qed

lemma or_2_power_eq_add:
  "i < LENGTH('a) \<Longrightarrow> \<not> bit q i \<Longrightarrow> (q::'a::len word) OR 2 ^ i = q + 2 ^ i"
proof -
  assume "\<not> bit q i"
  then have "q + 2 ^ i = q OR 2 ^ i" by (intro disjunctive_add) (auto simp: bit_exp_iff)
  then show ?thesis by simp
qed

lemma ucast_2_power: "i < 32 \<Longrightarrow> ucast (2 ^ i :: u32) = (2 ^ i :: u64)"
  by (rule bit_word_eqI) (auto simp: bit_ucast_iff bit_exp_iff)

lemma shift_fits:
  fixes b :: "'a::len word"
  assumes "b \<noteq> 0" and "unat b * 2 ^ i < 2 ^ LENGTH('a)"
  shows "i < LENGTH('a)"
proof (rule ccontr)
  assume "\<not> i < LENGTH('a)"
  then have "(2::nat) ^ LENGTH('a) \<le> 2 ^ i" by (intro power_increasing) auto
  also have "\<dots> \<le> unat b * 2 ^ i" using assms(1) by (simp add: unat_gt_0 Suc_le_eq)
  finally show False using assms(2) by simp
qed

lemma div_u32_loop_eq:
  assumes "b \<noteq> 0"
  shows "n = 0 \<or> unat b * 2 ^ (n - 1) < 2 ^ 32 \<Longrightarrow> unat r < unat b * 2 ^ n \<Longrightarrow>
     (\<forall>j<n. \<not> bit q j) \<Longrightarrow> div_u32_loop b n q r = Inr (q + r div b, r mod b)"
proof (induction n arbitrary: q r)
  case 0
  then have "r div b = 0" and "r mod b = r"
    by (simp_all add: word_unat_eq_iff unat_div unat_mod)
  then show ?case by simp
next
  case (Suc i)
  have fits: "unat b * 2 ^ i < 2 ^ LENGTH(32)" using Suc.prems(1) by simp
  have i: "i < 32" using shift_fits [OF assms fits] by simp
  have i': "i = 0 \<or> unat b * 2 ^ (i - 1) < 2 ^ 32"
    using fits by (cases i) auto
  note step = div_step [OF assms fits Suc.prems(2)]
  show ?case
  proof (cases "push_bit i b \<le> r")
    case True
    have q: "q OR 2 ^ i = q + 2 ^ i"
      using i Suc.prems(3) by (intro or_2_power_eq_add) auto
    have "\<forall>j<i. \<not> bit (q OR 2 ^ i) j"
      using Suc.prems(3) by (auto simp: bit_or_iff bit_exp_iff)
    from Suc.IH [OF i' step(1) [OF True] this]
    show ?thesis using True i by (simp add: q Let_def step(2,3) [OF True] add.assoc)
  next
    case False
    have "\<forall>j<i. \<not> bit q j" using Suc.prems(3) by simp
    from Suc.IH [OF i' step(4) [OF False] this] False i show ?thesis by (simp add: Let_def)
  qed
qed

lemma clz32_fits:
  assumes "b \<noteq> 0"
  shows "unat b * 2 ^ clz32 b < 2 ^ 32" and "2 ^ 32 \<le> unat b * 2 ^ Suc (clz32 b)"
proof -
  have lt: "clz32 b < 32" using assms by (rule clz32_bounds)
  have "unat b * 2 ^ clz32 b < 2 ^ (32 - clz32 b) * 2 ^ clz32 b"
    using clz32_bounds(3) [OF assms] by simp
  with lt show "unat b * 2 ^ clz32 b < 2 ^ 32" by (simp flip: power_add)
  have "2 ^ (31 - clz32 b) * 2 ^ Suc (clz32 b) \<le> unat b * 2 ^ Suc (clz32 b)"
    using clz32_bounds(2) [OF assms] by simp
  with lt show "2 ^ 32 \<le> unat b * 2 ^ Suc (clz32 b)" by (simp flip: power_add power_Suc)
qed

lemma div_u32_eq:
  "div_u32 a b = (if b = 0 then Inl Undefined else Inr (a div b, a mod b))"
proof (cases "b = 0")
  case True
  then show ?thesis unfolding div_u32_def by (subst div_u32_loop.simps) (simp add: clz32_0)
next
  case False
  have "unat a < 2 ^ 32" using unsigned_less [of a] by simp
  then have "unat a < unat b * 2 ^ Suc (clz32 b)" using clz32_fits(2) [OF False] by linarith
  then show ?thesis
    using False clz32_fits(1) [OF False]
    by (simp add: div_u32_def div_u32_loop_eq [OF False] del: div_u32_loop.simps)
qed

lemma div_u64_loop_eq:
  assumes "b \<noteq> 0"
  shows "n = 0 \<or> unat b * 2 ^ (n - 1) < 2 ^ 64 \<Longrightarrow> unat r < unat b * 2 ^ n \<Longrightarrow>
     (\<forall>j<n. \<not> bit q j) \<Longrightarrow>
     div_u64_loop b n q r =
       (if unat r div unat b < 2 ^ 32 then Inr (q + r div b, r mod b) else Inl Undefined)"
proof (induction n arbitrary: q r)
  case 0
  then have "r div b = 0" and "r mod b = r" and "unat r div unat b = 0"
    by (simp_all add: word_unat_eq_iff unat_div unat_mod)
  then show ?case by simp
next
  case (Suc i)
  have fits: "unat b * 2 ^ i < 2 ^ LENGTH(64)" using Suc.prems(1) by simp
  have i: "i < 64" using shift_fits [OF assms fits] by simp
  have i': "i = 0 \<or> unat b * 2 ^ (i - 1) < 2 ^ 64"
    using fits by (cases i) auto
  note step = div_step [OF assms fits Suc.prems(2)]
  show ?case
  proof (cases "push_bit i b \<le> r")
    case True
    show ?thesis
    proof (cases "i < 32")
      case i32: True
      have q: "q OR ucast (2 ^ i :: u32) = q OR 2 ^ i" "q OR 2 ^ i = q + 2 ^ i"
        using i Suc.prems(3) ucast_2_power [OF i32] or_2_power_eq_add [of i q] by simp_all
      have low: "\<forall>j<i. \<not> bit (q OR 2 ^ i) j"
        using Suc.prems(3) by (auto simp: bit_or_iff bit_exp_iff)
      have small: "unat x div unat b < 2 ^ 32" if "unat x < unat b * 2 ^ m" "m \<le> 32" for x :: u64 and m
      proof -
        have "unat x div unat b < 2 ^ m"
          using that(1) assms by (simp add: div_less_iff_less_mult unat_gt_0 mult.commute)
        also have "\<dots> \<le> 2 ^ 32" using that(2) by (intro power_increasing) auto
        finally show ?thesis .
      qed
      from Suc.IH [OF i' step(1) [OF True] low] small [OF step(1) [OF True]]
        small [OF Suc.prems(2)] i32 True
      show ?thesis
        by (simp add: q Let_def shl_1u_def step(2,3) [OF True] add.assoc)
    next
      case False
      then have "(2::nat) ^ 32 \<le> 2 ^ i" by (intro power_increasing) auto
      with step(5) True have "\<not> unat r div unat b < 2 ^ 32" by linarith
      with True False i show ?thesis by (simp add: Let_def shl_1u_def)
    qed
  next
    case False
    have "\<forall>j<i. \<not> bit q j" using Suc.prems(3) by simp
    from Suc.IH [OF i' step(4) [OF False] this] False i show ?thesis by (simp add: Let_def)
  qed
qed

lemma clz64_fits:
  assumes "b \<noteq> 0"
  shows "unat b * 2 ^ clz64 b < 2 ^ 64" and "2 ^ 64 \<le> unat b * 2 ^ Suc (clz64 b)"
proof -
  have lt: "clz64 b < 64" using assms by (rule clz64_bounds)
  have "unat b * 2 ^ clz64 b < 2 ^ (64 - clz64 b) * 2 ^ clz64 b"
    using clz64_bounds(3) [OF assms] by simp
  with lt show "unat b * 2 ^ clz64 b < 2 ^ 64" by (simp flip: power_add)
  have "2 ^ (63 - clz64 b) * 2 ^ Suc (clz64 b) \<le> unat b * 2 ^ Suc (clz64 b)"
    using clz64_bounds(2) [OF assms] by simp
  with lt show "2 ^ 64 \<le> unat b * 2 ^ Suc (clz64 b)" by (simp flip: power_add power_Suc)
qed

lemma div_u64_eq:
  "div_u64 a b =
     (if b \<noteq> 0 \<and> unat a div unat b < 2 ^ 32 then Inr (a div b, a mod b) else Inl Undefined)"
proof (cases "b = 0")
  case True
  then show ?thesis unfolding div_u64_def by (subst div_u64_loop.simps) (simp add: clz64_0)
next
  case False
  have "unat a < 2 ^ 64" using unsigned_less [of a] by simp
  then have "unat a < unat b * 2 ^ Suc (clz64 b)" using clz64_fits(2) [OF False] by linarith
  then show ?thesis
    using False clz64_fits(1) [OF False]
    by (simp add: div_u64_def div_u64_loop_eq [OF False] del: div_u64_loop.simps)
qed

text \<open>
  C36: the restoring division of unsigned 32-bit values returns the quotient and the remainder for
  every non-zero divisor; a zero divisor reaches a shift by 32. The quotient and remainder functions built on it agree.
\<close>

theorem div_u32_correct:
  "div_u32 a b = (if b = 0 then Inl Undefined else Inr (a div b, a mod b)) \<and>
   quo_u32 a b = (if b = 0 then Inl Undefined else Inr (a div b)) \<and>
   rem_u32 a b = (if b = 0 then Inl Undefined else Inr (a mod b))"
  by (simp add: div_u32_eq quo_u32_def rem_u32_def)

text \<open>
  C37: the 64-bit division is right exactly when the quotient fits in 32 bits; otherwise setting the
  quotient bit with \<^verbatim>\<open>0x1u << i\<close> is an undefined shift, as it is for a zero divisor.
\<close>

theorem div_u64_correct:
  "div_ulong a b =
     (if b \<noteq> 0 \<and> unat a div unat b < 2 ^ 32 then Inr (a div b, a mod b) else Inl Undefined) \<and>
   quo_ulong a b =
     (if b \<noteq> 0 \<and> unat a div unat b < 2 ^ 32 then Inr (a div b) else Inl Undefined) \<and>
   rem_ulong a b =
     (if b \<noteq> 0 \<and> unat a div unat b < 2 ^ 32 then Inr (a mod b) else Inl Undefined)"
  by (simp add: div_ulong_def quo_ulong_def rem_ulong_def quo_u64_def rem_u64_def div_u64_eq)

text \<open>
  Signed division: with both operands non-negative it is the unsigned division, but a negative
  dividend that the divisor divides keeps a positive quotient, so \<open>-4 / 2\<close> gives \<open>2\<close>; and the
  64-bit version drops the upper halves of its operands, so \<open>2 ^ 32 / 1\<close> gives \<open>0\<close>.
\<close>

theorem div_signed_behaviour:
  "(0 \<le> sint a \<and> 0 < sint b \<longrightarrow> div_s32 a b = Inr (a div b, a mod b)) \<and>
   div_s32 (- 4) 2 = Inr (2, 0) \<and> div_s64 (2 ^ 32) 1 = Inr (0, 0)"
proof (intro conjI impI)
  assume "0 \<le> sint a \<and> 0 < sint b"
  then have "\<not> sint a < 0" "\<not> sint b < 0" "b \<noteq> 0" by auto
  then show "div_s32 a b = Inr (a div b, a mod b)"
    by (simp add: div_s32_def Let_def div_u32_eq)
next
  show "div_s32 (- 4) 2 = Inr (2, 0)"
    by (simp add: div_s32_def Let_def div_u32_eq)
  show "div_s64 (2 ^ 32) 1 = Inr (0, 0)"
    by (simp add: div_s64_def Let_def div_u32_eq)
qed
theorem div_signed_behaviour_witness:
  "0 \<le> sint (7::u32) \<and> 0 < sint (2::u32) \<and> div_s32 7 2 = Inr (3, 1)"
  using div_signed_behaviour [of 7 2] by simp

end
