(* ===== verification/Klist.thy ===== *)
theory Klist
  imports Prelude "HOL-Library.Multiset"
begin

text \<open>
  The kernel's intrusive doubly linked list, \<^verbatim>\<open>kernel/struct/list.c\<close>. List nodes live in an
  explicit store that maps addresses to nodes; the two sentinels of a list are nodes of the store
  like any other. Following a pointer to an address outside the store is \<open>Inl Undefined\<close>, so every
  theorem that gives a call the value \<open>Inr\<close> also says that the call only uses valid pointers.

  The abstraction relation \<open>is_list h l xs\<close> says that the store \<open>h\<close> holds a well-formed list \<open>l\<close>
  whose nodes are, in order, \<open>xs\<close>. Each operation is shown to implement the operation on \<open>xs\<close> that
  its name says. The locale \<open>node_order\<close> states what a comparison callback owes the sorted
  insertion, the locale \<open>kernel_deque\<close> what the list owes its clients.
\<close>

section \<open>Nodes, lists and the store\<close>

type_synonym addr = nat

record list_node =
  l_prev :: addr
  l_next :: addr
  l_owner :: addr

text \<open>
  \<open>l_self\<close> is the address of the \<^verbatim>\<open>list_t\<close> object itself, \<open>l_head\<close> and \<open>l_tail\<close> those of the
  two sentinel nodes inside it. Of the spin lock only the \<^verbatim>\<open>locked\<close> bit matters here.
\<close>

record list_t =
  l_self :: addr
  l_head :: addr
  l_tail :: addr
  l_count :: ulong
  l_locked :: bool

type_synonym heap = "addr \<rightharpoonup> list_node"

definition load_node :: "heap \<Rightarrow> addr \<Rightarrow> list_node res" where
  "load_node h p = (case h p of None \<Rightarrow> Inl Undefined | Some nd \<Rightarrow> Inr nd)"

definition update_node :: "heap \<Rightarrow> addr \<Rightarrow> (list_node \<Rightarrow> list_node) \<Rightarrow> heap res" where
  "update_node h p f = (case h p of None \<Rightarrow> Inl Undefined | Some nd \<Rightarrow> Inr (h(p \<mapsto> f nd)))"

abbreviation set_prev :: "heap \<Rightarrow> addr \<Rightarrow> addr \<Rightarrow> heap res" where
  "set_prev h p v \<equiv> update_node h p (\<lambda>nd. nd\<lparr>l_prev := v\<rparr>)"

abbreviation set_next :: "heap \<Rightarrow> addr \<Rightarrow> addr \<Rightarrow> heap res" where
  "set_next h p v \<equiv> update_node h p (\<lambda>nd. nd\<lparr>l_next := v\<rparr>)"

abbreviation set_owner :: "heap \<Rightarrow> addr \<Rightarrow> addr \<Rightarrow> heap res" where
  "set_owner h p v \<equiv> update_node h p (\<lambda>nd. nd\<lparr>l_owner := v\<rparr>)"

section \<open>Operations\<close>

definition list_init :: "list_t \<Rightarrow> heap \<Rightarrow> (list_t \<times> heap) res" where
  "list_init l h =
     ebind (set_prev h (l_head l) 0) (\<lambda>h.
     ebind (set_next h (l_head l) (l_tail l)) (\<lambda>h.
     ebind (set_prev h (l_tail l) (l_head l)) (\<lambda>h.
     ebind (set_next h (l_tail l) 0) (\<lambda>h.
     ebind (set_owner h (l_head l) (l_self l)) (\<lambda>h.
     ebind (set_owner h (l_tail l) (l_self l)) (\<lambda>h.
     Inr (l\<lparr>l_count := 0, l_locked := False\<rparr>, h)))))))"

text \<open>The removed node, or \<open>0\<close> for \<^verbatim>\<open>NULL\<close>, is the last component of the result.\<close>

definition list_remove :: "list_t \<Rightarrow> heap \<Rightarrow> addr \<Rightarrow> (list_t \<times> heap \<times> addr) res" where
  "list_remove l h n =
     panic_if (\<not> l_locked l) (
     if n = 0 \<or> n = l_head l \<or> n = l_tail l then Inr (l, h, 0)
     else ebind (load_node h n) (\<lambda>nd.
       panic_if (l_owner nd \<noteq> l_self l) (
       let p = l_prev nd; x = l_next nd in
       ebind (set_next h p x) (\<lambda>h.
       ebind (set_prev h x p) (\<lambda>h.
       Inr (l\<lparr>l_count := l_count l - 1\<rparr>, h, n))))))"

definition list_insert :: "list_t \<Rightarrow> heap \<Rightarrow> addr \<Rightarrow> addr \<Rightarrow> (list_t \<times> heap) res" where
  "list_insert l h p n =
     panic_if (\<not> l_locked l) (
     ebind (load_node h p) (\<lambda>pd.
     let x = l_next pd in
     ebind (set_prev h x n) (\<lambda>h.
     ebind (set_next h p n) (\<lambda>h.
     ebind (set_prev h n p) (\<lambda>h.
     ebind (set_next h n x) (\<lambda>h.
     ebind (set_owner h n (l_self l)) (\<lambda>h.
     Inr (l\<lparr>l_count := l_count l + 1\<rparr>, h))))))))"

text \<open>
  The loop of \<^verbatim>\<open>list_insert_sorted\<close>; a comparison callback is a function of the two nodes'
  addresses, since it reads the structures the nodes are embedded in and never a link. Falling off
  the loop is the \<^verbatim>\<open>panic_if(!inserted)\<close>.
\<close>

fun list_insert_sorted_loop ::
  "nat \<Rightarrow> list_t \<Rightarrow> heap \<Rightarrow> addr \<Rightarrow> (addr \<Rightarrow> addr \<Rightarrow> int) \<Rightarrow> addr \<Rightarrow> addr \<Rightarrow> (list_t \<times> heap) res" where
  "list_insert_sorted_loop 0 l h n cmp left right = Inl Out_of_fuel"
| "list_insert_sorted_loop (Suc fuel) l h n cmp left right =
     (if left = l_tail l then Inl Panic
      else
        let cmp_left = (if left = l_head l then 1 else cmp n left);
            cmp_right = (if right = l_tail l then 1 else cmp right n)
        in if 0 \<le> cmp_left \<and> 0 \<le> cmp_right
           then ebind (set_prev h right n) (\<lambda>h.
                ebind (set_next h left n) (\<lambda>h.
                ebind (set_prev h n left) (\<lambda>h.
                ebind (set_next h n right) (\<lambda>h.
                ebind (set_owner h n (l_self l)) (\<lambda>h.
                Inr (l\<lparr>l_count := l_count l + 1\<rparr>, h))))))
           else ebind (load_node h right) (\<lambda>rd.
                list_insert_sorted_loop fuel l h n cmp right (l_next rd)))"

definition list_insert_sorted ::
  "nat \<Rightarrow> list_t \<Rightarrow> heap \<Rightarrow> addr \<Rightarrow> (addr \<Rightarrow> addr \<Rightarrow> int) \<Rightarrow> (list_t \<times> heap) res" where
  "list_insert_sorted fuel l h n cmp =
     panic_if (\<not> l_locked l) (
     ebind (load_node h (l_head l)) (\<lambda>hd.
     list_insert_sorted_loop fuel l h n cmp (l_head l) (l_next hd)))"

text \<open>
  \<^verbatim>\<open>list_merge\<close>: a merge callback changes the structures around the nodes, a state \<open>p\<close> of its
  own, and returns 0 when it has folded the second node into the first. The result carries the
  nodes to free, \<open>0\<close> for none.
\<close>

definition list_merge ::
  "list_t \<Rightarrow> heap \<Rightarrow> 'p \<Rightarrow> addr \<Rightarrow> ('p \<Rightarrow> addr \<Rightarrow> addr \<Rightarrow> 'p \<times> int) \<Rightarrow>
   (list_t \<times> heap \<times> 'p \<times> addr \<times> addr) res" where
  "list_merge l h p n merger =
     ebind (load_node h n) (\<lambda>nd.
     ebind
       (if l_prev nd \<noteq> l_head l then
          let (p', r) = merger p (l_prev nd) n in
          if r = 0 then
            ebind (list_remove l h n) (\<lambda>(l', h', _).
            ebind (load_node h' n) (\<lambda>nd'.
            Inr (l', h', p', l_prev nd', n)))
          else Inr (l, h, p', n, 0)
        else Inr (l, h, p, n, 0))
       (\<lambda>(l, h, p, n, free1).
     ebind (load_node h n) (\<lambda>nd.
       if l_next nd \<noteq> l_tail l then
         let (p', r) = merger p n (l_next nd) in
         if r = 0 then
           ebind (list_remove l h (l_next nd)) (\<lambda>(l', h', _).
           Inr (l', h', p', free1, l_next nd))
         else Inr (l, h, p', free1, 0)
       else Inr (l, h, p, free1, 0))))"

definition list_insert_merge_sorted ::
  "nat \<Rightarrow> list_t \<Rightarrow> heap \<Rightarrow> 'p \<Rightarrow> addr \<Rightarrow> (addr \<Rightarrow> addr \<Rightarrow> int) \<Rightarrow>
   ('p \<Rightarrow> addr \<Rightarrow> addr \<Rightarrow> 'p \<times> int) \<Rightarrow> (list_t \<times> heap \<times> 'p \<times> addr \<times> addr) res" where
  "list_insert_merge_sorted fuel l h p n cmp merger =
     ebind (list_insert_sorted fuel l h n cmp) (\<lambda>(l, h). list_merge l h p n merger)"

definition list_insert_merge_free_sorted ::
  "nat \<Rightarrow> list_t \<Rightarrow> heap \<Rightarrow> 'p \<Rightarrow> addr \<Rightarrow> (addr \<Rightarrow> addr \<Rightarrow> int) \<Rightarrow>
   ('p \<Rightarrow> addr \<Rightarrow> addr \<Rightarrow> 'p \<times> int) \<Rightarrow> ('p \<Rightarrow> addr \<Rightarrow> 'p) \<Rightarrow> (list_t \<times> heap \<times> 'p) res" where
  "list_insert_merge_free_sorted fuel l h p n cmp merger freer =
     ebind (list_insert_merge_sorted fuel l h p n cmp merger) (\<lambda>(l, h, p, free1, free2).
     let p = (if free1 \<noteq> 0 then freer p free1 else p);
         p = (if free2 \<noteq> 0 then freer p free2 else p)
     in Inr (l, h, p))"

definition list_front :: "list_t \<Rightarrow> heap \<Rightarrow> addr res" where
  "list_front l h =
     panic_if (\<not> l_locked l) (
     ebind (load_node h (l_head l)) (\<lambda>hd.
     Inr (if l_next hd = l_tail l then 0 else l_next hd)))"

definition list_back :: "list_t \<Rightarrow> heap \<Rightarrow> addr res" where
  "list_back l h =
     panic_if (\<not> l_locked l) (
     ebind (load_node h (l_tail l)) (\<lambda>tl.
     Inr (if l_prev tl = l_head l then 0 else l_prev tl)))"

definition list_push_front :: "list_t \<Rightarrow> heap \<Rightarrow> addr \<Rightarrow> (list_t \<times> heap) res" where
  "list_push_front l h n = list_insert l h (l_head l) n"

definition list_push_back :: "list_t \<Rightarrow> heap \<Rightarrow> addr \<Rightarrow> (list_t \<times> heap) res" where
  "list_push_back l h n =
     ebind (load_node h (l_tail l)) (\<lambda>tl. list_insert l h (l_prev tl) n)"

definition list_pop_front :: "list_t \<Rightarrow> heap \<Rightarrow> (list_t \<times> heap \<times> addr) res" where
  "list_pop_front l h =
     ebind (load_node h (l_head l)) (\<lambda>hd. list_remove l h (l_next hd))"

definition list_pop_back :: "list_t \<Rightarrow> heap \<Rightarrow> (list_t \<times> heap \<times> addr) res" where
  "list_pop_back l h =
     ebind (load_node h (l_tail l)) (\<lambda>tl. list_remove l h (l_prev tl))"

text \<open>The macro \<^verbatim>\<open>list_foreach\<close>: the nodes it visits, from \<open>cur\<close> on.\<close>

fun list_foreach :: "nat \<Rightarrow> list_t \<Rightarrow> heap \<Rightarrow> addr \<Rightarrow> addr list res" where
  "list_foreach 0 l h cur = Inl Out_of_fuel"
| "list_foreach (Suc fuel) l h cur =
     (if cur = l_tail l then Inr []
      else ebind (load_node h cur) (\<lambda>nd.
           ebind (list_foreach fuel l h (l_next nd)) (\<lambda>xs. Inr (cur # xs))))"

text \<open>What \<^verbatim>\<open>list_display\<close> passes to its callback: each node with its position.\<close>

definition list_display :: "nat \<Rightarrow> list_t \<Rightarrow> heap \<Rightarrow> (nat \<times> addr) list res" where
  "list_display fuel l h =
     panic_if (\<not> l_locked l) (
     ebind (load_node h (l_head l)) (\<lambda>hd.
     ebind (list_foreach fuel l h (l_next hd)) (\<lambda>xs.
     Inr (enumerate 0 xs))))"

section \<open>Exclusive variants\<close>

text \<open>
  \<^verbatim>\<open>list_access_exclusive\<close> takes the list's spin lock around its body. On a lock that is already
  held the processor spins; within one processor nobody will release it.
\<close>

definition list_access_exclusive :: "list_t \<Rightarrow> (list_t \<Rightarrow> (list_t \<times> 'r) res) \<Rightarrow> (list_t \<times> 'r) res" where
  "list_access_exclusive l body =
     (if l_locked l then Inl Deadlock
      else ebind (body (l\<lparr>l_locked := True\<rparr>)) (\<lambda>(l, r).
           assert_that (l_locked l) (Inr (l\<lparr>l_locked := False\<rparr>, r))))"

definition list_remove_exclusive :: "list_t \<Rightarrow> heap \<Rightarrow> addr \<Rightarrow> (list_t \<times> heap \<times> addr) res" where
  "list_remove_exclusive l h n = list_access_exclusive l (\<lambda>l. list_remove l h n)"

definition list_insert_exclusive :: "list_t \<Rightarrow> heap \<Rightarrow> addr \<Rightarrow> addr \<Rightarrow> (list_t \<times> heap) res" where
  "list_insert_exclusive l h p n = list_access_exclusive l (\<lambda>l. list_insert l h p n)"

definition list_insert_sorted_exclusive ::
  "nat \<Rightarrow> list_t \<Rightarrow> heap \<Rightarrow> addr \<Rightarrow> (addr \<Rightarrow> addr \<Rightarrow> int) \<Rightarrow> (list_t \<times> heap) res" where
  "list_insert_sorted_exclusive fuel l h n cmp =
     list_access_exclusive l (\<lambda>l. list_insert_sorted fuel l h n cmp)"

definition list_insert_merge_sorted_exclusive ::
  "nat \<Rightarrow> list_t \<Rightarrow> heap \<Rightarrow> 'p \<Rightarrow> addr \<Rightarrow> (addr \<Rightarrow> addr \<Rightarrow> int) \<Rightarrow>
   ('p \<Rightarrow> addr \<Rightarrow> addr \<Rightarrow> 'p \<times> int) \<Rightarrow> (list_t \<times> heap \<times> 'p \<times> addr \<times> addr) res" where
  "list_insert_merge_sorted_exclusive fuel l h p n cmp merger =
     list_access_exclusive l (\<lambda>l.
     ebind (list_insert_sorted fuel l h n cmp) (\<lambda>(l, h). list_merge l h p n merger))"

definition list_insert_merge_free_sorted_exclusive ::
  "nat \<Rightarrow> list_t \<Rightarrow> heap \<Rightarrow> 'p \<Rightarrow> addr \<Rightarrow> (addr \<Rightarrow> addr \<Rightarrow> int) \<Rightarrow>
   ('p \<Rightarrow> addr \<Rightarrow> addr \<Rightarrow> 'p \<times> int) \<Rightarrow> ('p \<Rightarrow> addr \<Rightarrow> 'p) \<Rightarrow> (list_t \<times> heap \<times> 'p) res" where
  "list_insert_merge_free_sorted_exclusive fuel l h p n cmp merger freer =
     ebind (list_insert_merge_sorted_exclusive fuel l h p n cmp merger) (\<lambda>(l, h, p, free1, free2).
     let p = (if free1 \<noteq> 0 then freer p free1 else p);
         p = (if free2 \<noteq> 0 then freer p free2 else p)
     in Inr (l, h, p))"

definition list_push_front_exclusive :: "list_t \<Rightarrow> heap \<Rightarrow> addr \<Rightarrow> (list_t \<times> heap) res" where
  "list_push_front_exclusive l h n = list_access_exclusive l (\<lambda>l. list_push_front l h n)"

definition list_push_back_exclusive :: "list_t \<Rightarrow> heap \<Rightarrow> addr \<Rightarrow> (list_t \<times> heap) res" where
  "list_push_back_exclusive l h n = list_access_exclusive l (\<lambda>l. list_push_back l h n)"

definition list_pop_front_exclusive :: "list_t \<Rightarrow> heap \<Rightarrow> (list_t \<times> heap \<times> addr) res" where
  "list_pop_front_exclusive l h =
     list_access_exclusive l (\<lambda>l.
     ebind (load_node h (l_head l)) (\<lambda>hd. list_remove l h (l_next hd)))"

definition list_pop_back_exclusive :: "list_t \<Rightarrow> heap \<Rightarrow> (list_t \<times> heap \<times> addr) res" where
  "list_pop_back_exclusive l h =
     list_access_exclusive l (\<lambda>l.
     ebind (load_node h (l_tail l)) (\<lambda>tl. list_remove l h (l_prev tl)))"

definition list_display_exclusive :: "nat \<Rightarrow> list_t \<Rightarrow> heap \<Rightarrow> (list_t \<times> (nat \<times> addr) list) res" where
  "list_display_exclusive fuel l h =
     list_access_exclusive l (\<lambda>l. ebind (list_display fuel l h) (\<lambda>out. Inr (l, out)))"

definition list_count_exclusive :: "list_t \<Rightarrow> (list_t \<times> ulong) res" where
  "list_count_exclusive l = list_access_exclusive l (\<lambda>l. Inr (l, l_count l))"

section \<open>Well-formed lists\<close>

definition link :: "heap \<Rightarrow> addr \<Rightarrow> addr \<Rightarrow> bool" where
  "link h x y \<longleftrightarrow> map_option l_next (h x) = Some y \<and> map_option l_prev (h y) = Some x"

fun linked :: "heap \<Rightarrow> addr list \<Rightarrow> bool" where
  "linked h (x # y # zs) \<longleftrightarrow> link h x y \<and> linked h (y # zs)"
| "linked h _ \<longleftrightarrow> True"

definition chain :: "list_t \<Rightarrow> addr list \<Rightarrow> addr list" where
  "chain l xs = l_head l # xs @ [l_tail l]"

definition is_list :: "heap \<Rightarrow> list_t \<Rightarrow> addr list \<Rightarrow> bool" where
  "is_list h l xs \<longleftrightarrow>
     linked h (chain l xs) \<and> distinct (chain l xs) \<and> 0 \<notin> set (chain l xs) \<and>
     (\<forall>x\<in>set xs. map_option l_owner (h x) = Some (l_self l)) \<and>
     l_count l = of_nat (length xs)"

lemma linked_append:
  "linked h (as @ x # y # bs) \<longleftrightarrow> linked h (as @ [x]) \<and> link h x y \<and> linked h (y # bs)"
  by (induction as rule: induct_list012) auto

lemma linked_cong:
  assumes "\<And>x. x \<in> set (butlast c) \<Longrightarrow> map_option l_next (h' x) = map_option l_next (h x)"
    and "\<And>x. x \<in> set (tl c) \<Longrightarrow> map_option l_prev (h' x) = map_option l_prev (h x)"
  shows "linked h' c \<longleftrightarrow> linked h c"
  using assms by (induction h c rule: linked.induct) (auto simp: link_def)

lemma load_node_Some [simp]: "h p = Some nd \<Longrightarrow> load_node h p = Inr nd"
  by (simp add: load_node_def)

lemma update_node_Some [simp]: "h p = Some nd \<Longrightarrow> update_node h p f = Inr (h(p \<mapsto> f nd))"
  by (simp add: update_node_def)

lemma linkD:
  assumes "link h x y"
  obtains nx ny where "h x = Some nx" "l_next nx = y" "h y = Some ny" "l_prev ny = x"
  using assms by (auto simp: link_def)

lemma linked_insert:
  assumes "linked h (as @ p # q # bs)" and "distinct (as @ p # q # bs)" and "n \<notin> set (as @ p # q # bs)"
    and "h' n = Some nd" "l_prev nd = p" "l_next nd = q"
    and "map_option l_next (h' p) = Some n" "map_option l_prev (h' q) = Some n"
    and "map_option l_prev (h' p) = map_option l_prev (h p)"
    and "map_option l_next (h' q) = map_option l_next (h q)"
    and "\<And>x. x \<notin> {n, p, q} \<Longrightarrow> h' x = h x"
  shows "linked h' (as @ p # n # q # bs)"
proof -
  have same: "h' x = h x" if "x \<in> set as \<union> set bs" for x
    using that assms(2,3) by (intro assms(11)) auto
  have "linked h' (as @ [p]) = linked h (as @ [p])"
    using same assms(9) by (intro linked_cong) (auto dest!: in_set_tlD)
  moreover have "linked h' (q # bs) = linked h (q # bs)"
    using same assms(10) by (intro linked_cong) (auto dest: in_set_butlastD split: if_splits)
  ultimately show ?thesis using assms(1,4-8) by (simp add: linked_append link_def)
qed

lemma linked_remove:
  assumes "linked h (as @ p # n # q # bs)" and "distinct (as @ p # n # q # bs)"
    and "map_option l_next (h' p) = Some q" "map_option l_prev (h' q) = Some p"
    and "map_option l_prev (h' p) = map_option l_prev (h p)"
    and "map_option l_next (h' q) = map_option l_next (h q)"
    and "\<And>x. x \<notin> {p, q} \<Longrightarrow> h' x = h x"
  shows "linked h' (as @ p # q # bs)"
proof -
  have same: "h' x = h x" if "x \<in> set as \<union> set bs" for x
    using that assms(2) by (intro assms(7)) auto
  have "linked h' (as @ [p]) = linked h (as @ [p])"
    using same assms(5) by (intro linked_cong) (auto dest!: in_set_tlD)
  moreover have "linked h' (q # bs) = linked h (q # bs)"
    using same assms(6) by (intro linked_cong) (auto dest: in_set_butlastD split: if_splits)
  ultimately show ?thesis using assms(1,3,4) by (simp add: linked_append link_def)
qed

text \<open>Where a node sits in the chain of a list.\<close>

lemma chain_split_at:
  assumes "xs = us @ n # vs"
  obtains as p q bs where "chain l xs = as @ p # n # q # bs" "chain l (us @ vs) = as @ p # q # bs"
    "p = last (l_head l # us)" "q = hd (vs @ [l_tail l])"
proof -
  define as p where "as = butlast (l_head l # us)" and "p = last (l_head l # us)"
  define q bs where "q = hd (vs @ [l_tail l])" and "bs = tl (vs @ [l_tail l])"
  have 1: "l_head l # us = as @ [p]" by (simp add: as_def p_def)
  have 2: "vs @ [l_tail l] = q # bs" by (simp add: q_def bs_def)
  have "chain l xs = (l_head l # us) @ n # (vs @ [l_tail l])" using assms by (simp add: chain_def)
  moreover have "chain l (us @ vs) = (l_head l # us) @ (vs @ [l_tail l])" by (simp add: chain_def)
  ultimately show ?thesis
    using that [of as p q bs] unfolding 1 2 by (simp add: p_def q_def)
qed

lemma list_remove_refines:
  assumes wf: "is_list h l xs" and locked: "l_locked l" and n: "n \<in> set xs"
  shows "\<exists>l' h'. list_remove l h n = Inr (l', h', n) \<and> is_list h' l' (remove1 n xs) \<and>
     l' = l\<lparr>l_count := l_count l - 1\<rparr> \<and> (\<forall>x. x \<notin> set (chain l xs) \<longrightarrow> h' x = h x) \<and> dom h' = dom h"
proof -
  from n obtain us vs where xs: "xs = us @ n # vs" "n \<notin> set us" by (meson split_list_first)
  then have rem: "remove1 n xs = us @ vs" by (simp add: remove1_append)
  obtain as p q bs where c: "chain l xs = as @ p # n # q # bs" "chain l (us @ vs) = as @ p # q # bs"
    using chain_split_at [OF xs(1), of l thesis] by blast
  have lk: "linked h (as @ p # n # q # bs)" and dist: "distinct (as @ p # n # q # bs)"
    and n0: "0 \<notin> set (as @ p # n # q # bs)" using wf c(1) by (auto simp: is_list_def)
  then have "link h p n" "link h n q" by (simp_all add: linked_append)
  then obtain np nn nq where nodes: "h p = Some np" "l_next np = n" "h n = Some nn" "l_prev nn = p"
      "l_next nn = q" "h q = Some nq" "l_prev nq = n"
    by (auto simp: link_def)
  have own: "l_owner nn = l_self l" using wf n nodes(3) by (auto simp: is_list_def)
  have ne: "n \<noteq> 0" "n \<noteq> l_head l" "n \<noteq> l_tail l" "p \<noteq> q"
    using n0 dist wf n by (auto simp: is_list_def chain_def)
  define h' where "h' = h(p \<mapsto> np\<lparr>l_next := q\<rparr>, q \<mapsto> nq\<lparr>l_prev := p\<rparr>)"
  have eq: "list_remove l h n = Inr (l\<lparr>l_count := l_count l - 1\<rparr>, h', n)"
    using locked ne nodes own by (simp add: list_remove_def Let_def h'_def)
  have "linked h' (as @ p # q # bs)"
    using lk dist nodes ne by (intro linked_remove [of h as p n q bs]) (auto simp: h'_def)
  moreover have "map_option l_owner (h' x) = map_option l_owner (h x)" for x
    using nodes by (auto simp: h'_def)
  moreover have "of_nat (length xs) - (1::ulong) = of_nat (length (us @ vs))"
    using xs(1) by simp
  ultimately have "is_list h' (l\<lparr>l_count := l_count l - 1\<rparr>) (us @ vs)"
    using wf c dist n0 xs(1) by (auto simp: is_list_def chain_def)
  moreover have "\<forall>x. x \<notin> set (chain l xs) \<longrightarrow> h' x = h x" using c(1) by (auto simp: h'_def)
  moreover have "dom h' = dom h" using nodes by (auto simp: h'_def)
  ultimately show ?thesis unfolding rem eq by blast
qed

text \<open>The store after \<open>n\<close> has been spliced in between \<open>p\<close> and \<open>q\<close>.\<close>

definition spliced :: "heap \<Rightarrow> addr \<Rightarrow> addr \<Rightarrow> addr \<Rightarrow> addr \<Rightarrow> heap" where
  "spliced h p q n own =
     h(q \<mapsto> (the (h q))\<lparr>l_prev := n\<rparr>, p \<mapsto> (the (h p))\<lparr>l_next := n\<rparr>,
       n \<mapsto> (the (h n))\<lparr>l_prev := p, l_next := q, l_owner := own\<rparr>)"

lemma splice_steps:
  assumes "h p \<noteq> None" "h q \<noteq> None" "h n \<noteq> None" "p \<noteq> q" "n \<noteq> p" "n \<noteq> q"
  shows "ebind (set_prev h q n) (\<lambda>h. ebind (set_next h p n) (\<lambda>h. ebind (set_prev h n p) (\<lambda>h.
         ebind (set_next h n q) (\<lambda>h. ebind (set_owner h n own) (\<lambda>h. Inr (l, h)))))) =
         Inr (l, spliced h p q n own)"
  using assms by (auto simp: spliced_def)

lemma chain_gap:
  obtains as p q bs where "chain l (us @ vs) = as @ p # q # bs" "chain l (us @ n # vs) = as @ p # n # q # bs"
    "p = last (l_head l # us)" "q = hd (vs @ [l_tail l])"
  using chain_split_at [of "us @ n # vs" us n vs l] by metis

lemma is_list_spliced:
  assumes wf: "is_list h l (us @ vs)" and n: "n \<notin> set (chain l (us @ vs))" "n \<noteq> 0" "h n \<noteq> None"
    and pq: "p = last (l_head l # us)" "q = hd (vs @ [l_tail l])"
  shows "is_list (spliced h p q n (l_self l)) (l\<lparr>l_count := l_count l + 1\<rparr>) (us @ n # vs)"
    and "h p \<noteq> None" and "h q \<noteq> None" and "p \<noteq> q" and "n \<noteq> p" and "n \<noteq> q"
    and "map_option l_next (h p) = Some q" and "map_option l_prev (h q) = Some p"
    and "x \<notin> set (chain l (us @ n # vs)) \<Longrightarrow> spliced h p q n (l_self l) x = h x"
    and "dom (spliced h p q n (l_self l)) = dom h"
proof -
  obtain as bs where c: "chain l (us @ vs) = as @ p # q # bs" "chain l (us @ n # vs) = as @ p # n # q # bs"
    using chain_gap [of l us vs n thesis] pq by blast
  have lk: "linked h (as @ p # q # bs)" and dist: "distinct (as @ p # q # bs)"
    and n0: "0 \<notin> set (as @ p # q # bs)" using wf c(1) by (auto simp: is_list_def)
  then have "link h p q" by (simp add: linked_append)
  then obtain np nq where nodes: "h p = Some np" "l_next np = q" "h q = Some nq" "l_prev nq = p"
    by (auto simp: link_def)
  show ne: "p \<noteq> q" "n \<noteq> p" "n \<noteq> q" using dist n c(1) by auto
  show "h p \<noteq> None" and "h q \<noteq> None" and "map_option l_next (h p) = Some q"
    and "map_option l_prev (h q) = Some p" using nodes by auto
  let ?h = "spliced h p q n (l_self l)"
  have "linked ?h (as @ p # n # q # bs)"
    using lk dist nodes ne n c(1)
    by (intro linked_insert [where h = h
          and nd = "(the (h n))\<lparr>l_prev := p, l_next := q, l_owner := l_self l\<rparr>"])
       (auto simp: spliced_def)
  moreover have "\<forall>x\<in>set (us @ n # vs). map_option l_owner (?h x) = Some (l_self l)"
  proof
    fix x assume x: "x \<in> set (us @ n # vs)"
    show "map_option l_owner (?h x) = Some (l_self l)"
    proof (cases "x = n")
      case False
      then have "map_option l_owner (?h x) = map_option l_owner (h x)"
        using nodes by (auto simp: spliced_def)
      with False x wf show ?thesis unfolding is_list_def by simp
    qed (simp add: spliced_def)
  qed
  ultimately show "is_list ?h (l\<lparr>l_count := l_count l + 1\<rparr>) (us @ n # vs)"
    using wf c dist n0 n by (auto simp: is_list_def chain_def)
  show "?h x = h x" if "x \<notin> set (chain l (us @ n # vs))" using that c(2) by (auto simp: spliced_def)
  show "dom ?h = dom h" using nodes n(3) by (auto simp: spliced_def)
qed

lemma list_insert_refines:
  assumes wf: "is_list h l (us @ vs)" and locked: "l_locked l"
    and n: "n \<notin> set (chain l (us @ vs))" "n \<noteq> 0" "h n \<noteq> None" and p: "p = last (l_head l # us)"
  shows "\<exists>l' h'. list_insert l h p n = Inr (l', h') \<and> is_list h' l' (us @ n # vs) \<and>
     l' = l\<lparr>l_count := l_count l + 1\<rparr> \<and> (\<forall>x. x \<notin> set (chain l (us @ n # vs)) \<longrightarrow> h' x = h x) \<and>
     dom h' = dom h"
proof -
  define q where "q = hd (vs @ [l_tail l])"
  note S = is_list_spliced [OF wf n p q_def]
  obtain np where "h p = Some np" "l_next np = q" using S(2,7) by auto
  then have "list_insert l h p n = Inr (l\<lparr>l_count := l_count l + 1\<rparr>, spliced h p q n (l_self l))"
    using locked splice_steps [OF S(2,3) n(3) S(4-6)]
    by (simp add: list_insert_def Let_def)
  with S show ?thesis by blast
qed

section \<open>Sorted insertion\<close>

text \<open>The insertion on sequences: \<open>left\<close> is the element before the current position.\<close>

fun seq_insert_sorted :: "('a \<Rightarrow> 'a \<Rightarrow> int) \<Rightarrow> 'a \<Rightarrow> 'a option \<Rightarrow> 'a list \<Rightarrow> 'a list option" where
  "seq_insert_sorted cmp n left [] =
     (if (case left of None \<Rightarrow> True | Some x \<Rightarrow> 0 \<le> cmp n x) then Some [n] else None)"
| "seq_insert_sorted cmp n left (r # rs) =
     (if (case left of None \<Rightarrow> True | Some x \<Rightarrow> 0 \<le> cmp n x) \<and> 0 \<le> cmp r n then Some (n # r # rs)
      else map_option ((#) r) (seq_insert_sorted cmp n (Some r) rs))"

lemma list_insert_sorted_loop_refines:
  assumes wf: "is_list h l (us @ vs)" and locked: "l_locked l"
    and n: "n \<notin> set (chain l (us @ vs))" "n \<noteq> 0" "h n \<noteq> None" and fuel: "length vs + 1 < fuel"
    and p: "p = last (l_head l # us)" and q: "q = hd (vs @ [l_tail l])"
  shows "case seq_insert_sorted cmp n (if us = [] then None else Some (last us)) vs of
      None \<Rightarrow> list_insert_sorted_loop fuel l h n cmp p q = Inl Panic
    | Some ys \<Rightarrow> \<exists>l' h'. list_insert_sorted_loop fuel l h n cmp p q = Inr (l', h') \<and>
        is_list h' l' (us @ ys) \<and> l' = l\<lparr>l_count := l_count l + 1\<rparr> \<and>
        (\<forall>x. x \<notin> set (chain l (us @ ys)) \<longrightarrow> h' x = h x) \<and> dom h' = dom h"
  using assms
proof (induction vs arbitrary: us fuel p q)
  case Nil
  then obtain f where fuel: "fuel = Suc (Suc f)" by (cases fuel; cases "fuel - 1") auto
  have q: "q = l_tail l" using Nil.prems by simp
  note S = is_list_spliced [OF Nil.prems(1,3-5,7,8)]
  have steps: "ebind (set_prev h q n) (\<lambda>h. ebind (set_next h p n) (\<lambda>h. ebind (set_prev h n p) (\<lambda>h.
         ebind (set_next h n q) (\<lambda>h. ebind (set_owner h n (l_self l)) (\<lambda>h.
           Inr (l\<lparr>l_count := l_count l + 1\<rparr>, h)))))) =
         Inr (l\<lparr>l_count := l_count l + 1\<rparr>, spliced h p q n (l_self l))"
    by (rule splice_steps [OF S(2,3) Nil.prems(5) S(4-6)])
  have hd: "p = l_head l \<longleftrightarrow> us = []"
    using Nil.prems(1,7) by (auto simp: is_list_def chain_def dest: last_in_set)
  have pt: "p \<noteq> l_tail l" using S(4) q by simp
  show ?case
  proof (cases "us = [] \<or> 0 \<le> cmp n (last us)")
    case True
    then have "list_insert_sorted_loop fuel l h n cmp p q =
        Inr (l\<lparr>l_count := l_count l + 1\<rparr>, spliced h p q n (l_self l))"
      using hd pt q Nil.prems(7) steps by (auto simp: fuel Let_def)
    with True S show ?thesis by auto
  next
    case False
    obtain nq where "h q = Some nq" using S(3) by auto
    with False hd pt q Nil.prems(7) have "list_insert_sorted_loop fuel l h n cmp p q = Inl Panic"
      by (simp add: fuel Let_def)
    with False show ?thesis by simp
  qed
next
  case (Cons r rs)
  then obtain f where fuel: "fuel = Suc f" "length rs + 1 < f" by (cases fuel) auto
  have q: "q = r" using Cons.prems by simp
  note S = is_list_spliced [OF Cons.prems(1,3-5,7,8)]
  have steps: "ebind (set_prev h q n) (\<lambda>h. ebind (set_next h p n) (\<lambda>h. ebind (set_prev h n p) (\<lambda>h.
         ebind (set_next h n q) (\<lambda>h. ebind (set_owner h n (l_self l)) (\<lambda>h.
           Inr (l\<lparr>l_count := l_count l + 1\<rparr>, h)))))) =
         Inr (l\<lparr>l_count := l_count l + 1\<rparr>, spliced h p q n (l_self l))"
    by (rule splice_steps [OF S(2,3) Cons.prems(5) S(4-6)])
  have hd: "p = l_head l \<longleftrightarrow> us = []" and pt: "p \<noteq> l_tail l" and rt: "r \<noteq> l_tail l"
    using Cons.prems(1,7) by (auto simp: is_list_def chain_def dest: last_in_set split: if_splits)
  show ?case
  proof (cases "(us = [] \<or> 0 \<le> cmp n (last us)) \<and> 0 \<le> cmp r n")
    case True
    then have "list_insert_sorted_loop fuel l h n cmp p q =
        Inr (l\<lparr>l_count := l_count l + 1\<rparr>, spliced h p q n (l_self l))"
      using hd pt q rt Cons.prems(7) steps by (auto simp: fuel Let_def)
    with True S show ?thesis by auto
  next
    case False
    obtain nq where nq: "h r = Some nq" using S(3) q by auto
    have wf': "is_list h l ((us @ [r]) @ rs)" using Cons.prems(1) by simp
    have n': "n \<notin> set (chain l ((us @ [r]) @ rs))" using Cons.prems(3) by simp
    have "map_option l_next (h r) = Some (hd (rs @ [l_tail l]))"
      using is_list_spliced(7) [OF wf' n' Cons.prems(4,5) refl refl] by simp
    with nq have nx: "l_next nq = hd (rs @ [l_tail l])" by simp
    have step: "list_insert_sorted_loop fuel l h n cmp p q =
        list_insert_sorted_loop f l h n cmp r (hd (rs @ [l_tail l]))"
      using False hd pt q rt nq nx Cons.prems(7) by (auto simp: fuel Let_def)
    from Cons.IH [OF wf' Cons.prems(2) n' Cons.prems(4,5) fuel(2), of r "hd (rs @ [l_tail l])"]
    show ?thesis using False by (auto simp: step split: option.splits)
  qed
qed

definition cmp_sorted :: "('a \<Rightarrow> 'a \<Rightarrow> int) \<Rightarrow> 'a list \<Rightarrow> bool" where
  "cmp_sorted cmp = sorted_wrt (\<lambda>a b. 0 \<le> cmp b a)"

definition insertion :: "('a \<Rightarrow> 'a \<Rightarrow> int) \<Rightarrow> 'a \<Rightarrow> 'a list \<Rightarrow> 'a list" where
  "insertion cmp n xs = takeWhile (\<lambda>x. cmp x n < 0) xs @ n # dropWhile (\<lambda>x. cmp x n < 0) xs"

lemma mset_insertion: "mset (insertion cmp n xs) = add_mset n (mset xs)"
proof -
  have "mset xs = mset (takeWhile (\<lambda>x. cmp x n < 0) xs) + mset (dropWhile (\<lambda>x. cmp x n < 0) xs)"
    by (metis mset_append takeWhile_dropWhile_id)
  then show ?thesis by (simp add: insertion_def)
qed

lemma set_insertion [simp]: "set (insertion cmp n xs) = insert n (set xs)"
  by (metis mset_insertion set_mset_add_mset_insert set_mset_mset)

lemma length_insertion [simp]: "length (insertion cmp n xs) = Suc (length xs)"
  by (metis mset_insertion size_add_mset size_mset)

lemma distinct_insertion [simp]: "distinct (insertion cmp n xs) \<longleftrightarrow> n \<notin> set xs \<and> distinct xs"
  by (metis distinct.simps(2) mset.simps(2) mset_eq_imp_distinct_iff mset_insertion)

text \<open>
  What a comparison callback owes the list: \<open>0 \<le> cmp a b\<close> reads "\<open>a\<close> is not below \<open>b\<close>" and is a
  total preorder. Every comparison function of the kernel is an instance; with it the sorted
  insertion always finds a place, and puts the new node in front of the first node that is not
  below it.
\<close>

locale node_order =
  fixes cmp :: "'a \<Rightarrow> 'a \<Rightarrow> int"
  assumes cmp_total: "0 \<le> cmp a b \<or> 0 \<le> cmp b a"
    and cmp_trans: "0 \<le> cmp a b \<Longrightarrow> 0 \<le> cmp b c \<Longrightarrow> 0 \<le> cmp a c"
begin

lemma seq_insert_sorted_eq:
  assumes "left = None \<or> (\<exists>x. left = Some x \<and> 0 \<le> cmp n x)"
  shows "seq_insert_sorted cmp n left xs = Some (insertion cmp n xs)"
  using assms
proof (induction xs arbitrary: left)
  case Nil
  then show ?case by (auto simp: insertion_def)
next
  case (Cons r rs)
  show ?case
  proof (cases "0 \<le> cmp r n")
    case True
    with Cons.prems show ?thesis by (auto simp: insertion_def)
  next
    case False
    then have "0 \<le> cmp n r" using cmp_total by blast
    with Cons.IH [of "Some r"] False show ?thesis by (simp add: insertion_def)
  qed
qed

lemma cmp_sorted_insertion:
  assumes "cmp_sorted cmp xs"
  shows "cmp_sorted cmp (insertion cmp n xs)"
  using assms
proof (induction xs)
  case Nil
  then show ?case by (simp add: insertion_def cmp_sorted_def)
next
  case (Cons r rs)
  then have rs: "cmp_sorted cmp rs" and r: "\<forall>x\<in>set rs. 0 \<le> cmp x r" by (auto simp: cmp_sorted_def)
  show ?case
  proof (cases "0 \<le> cmp r n")
    case True
    with r have "\<forall>x\<in>set rs. 0 \<le> cmp x n" using cmp_trans by blast
    with Cons.prems True show ?thesis by (simp add: insertion_def cmp_sorted_def)
  next
    case False
    then have "0 \<le> cmp n r" using cmp_total by blast
    then have "\<forall>x\<in>set (insertion cmp n rs). 0 \<le> cmp x r" using r by simp
    moreover have "insertion cmp n (r # rs) = r # insertion cmp n rs" using False by (simp add: insertion_def)
    ultimately show ?thesis using Cons.IH [OF rs] by (simp add: cmp_sorted_def)
  qed
qed

end

locale addr_order = node_order cmp for cmp :: "addr \<Rightarrow> addr \<Rightarrow> int"
begin

lemma list_insert_sorted_refines:
  assumes wf: "is_list h l xs" and locked: "l_locked l"
    and n: "n \<notin> set (chain l xs)" "n \<noteq> 0" "h n \<noteq> None" and fuel: "length xs + 1 < fuel"
  shows "\<exists>l' h'. list_insert_sorted fuel l h n cmp = Inr (l', h') \<and> is_list h' l' (insertion cmp n xs) \<and>
        l' = l\<lparr>l_count := l_count l + 1\<rparr> \<and>
        (\<forall>x. x \<notin> set (chain l (insertion cmp n xs)) \<longrightarrow> h' x = h x) \<and> dom h' = dom h"
proof -
  have wf': "is_list h l ([] @ xs)" and n': "n \<notin> set (chain l ([] @ xs))" using wf n by simp_all
  have "map_option l_next (h (l_head l)) = Some (hd (xs @ [l_tail l]))"
    using is_list_spliced(7) [OF wf' n' n(2,3) refl refl] by simp
  then obtain nd where "h (l_head l) = Some nd" "l_next nd = hd (xs @ [l_tail l])" by auto
  then have "list_insert_sorted fuel l h n cmp =
      list_insert_sorted_loop fuel l h n cmp (l_head l) (hd (xs @ [l_tail l]))"
    using locked by (simp add: list_insert_sorted_def)
  with list_insert_sorted_loop_refines [OF wf' locked n' n(2,3) fuel, of "l_head l" _ cmp]
    seq_insert_sorted_eq [of None n xs]
  show ?thesis by simp
qed

end

section \<open>Initialisation and traversal\<close>

lemma list_init_refines:
  assumes "h (l_head l) \<noteq> None" "h (l_tail l) \<noteq> None" "l_head l \<noteq> l_tail l" "l_head l \<noteq> 0" "l_tail l \<noteq> 0"
  shows "\<exists>l' h'. list_init l h = Inr (l', h') \<and> is_list h' l' [] \<and> \<not> l_locked l' \<and>
     l' = l\<lparr>l_count := 0, l_locked := False\<rparr> \<and> dom h' = dom h \<and>
     (\<forall>x. x \<noteq> l_head l \<longrightarrow> x \<noteq> l_tail l \<longrightarrow> h' x = h x)"
  using assms by (auto simp: list_init_def is_list_def chain_def link_def)

lemma is_list_links:
  assumes "is_list h l xs"
  shows "map_option l_next (h (l_head l)) = Some (hd (xs @ [l_tail l]))"
    and "map_option l_prev (h (l_tail l)) = Some (last (l_head l # xs))"
proof -
  have lk: "linked h (l_head l # xs @ [l_tail l])" using assms by (simp add: is_list_def chain_def)
  show "map_option l_next (h (l_head l)) = Some (hd (xs @ [l_tail l]))"
    using lk by (cases xs) (simp_all add: link_def)
  show "map_option l_prev (h (l_tail l)) = Some (last (l_head l # xs))"
  proof (cases xs rule: rev_cases)
    case (snoc ys y)
    then show ?thesis using lk linked_append [of h "l_head l # ys" y "l_tail l" "[]"]
      by (simp add: link_def)
  qed (use lk in \<open>simp add: link_def\<close>)
qed

lemma is_list_not_sentinel:
  assumes "is_list h l xs" "x \<in> set xs"
  shows "x \<noteq> 0" "x \<noteq> l_head l" "x \<noteq> l_tail l" "h x \<noteq> None"
  using assms by (auto simp: is_list_def chain_def intro: gr0I)

lemma list_front_eq:
  assumes wf: "is_list h l xs" and "l_locked l"
  shows "list_front l h = Inr (case xs of [] \<Rightarrow> 0 | x # _ \<Rightarrow> x)"
  using is_list_links(1) [OF wf] is_list_not_sentinel [OF wf] assms
  by (auto simp: list_front_def split: list.splits)

lemma list_back_eq:
  assumes wf: "is_list h l xs" and "l_locked l"
  shows "list_back l h = Inr (if xs = [] then 0 else last xs)"
  using is_list_links(2) [OF wf] is_list_not_sentinel [OF wf] assms
  by (auto simp: list_back_def dest: last_in_set split: if_splits)

lemma list_foreach_visits:
  assumes "is_list h l (us @ vs)" and "length vs < fuel"
  shows "list_foreach fuel l h (hd (vs @ [l_tail l])) = Inr vs"
  using assms
proof (induction vs arbitrary: us fuel)
  case Nil
  then show ?case by (cases fuel) auto
next
  case (Cons v vs)
  then obtain f where f: "fuel = Suc f" "length vs < f" by (cases fuel) auto
  obtain as p q bs where c: "chain l (us @ v # vs) = as @ p # v # q # bs" "q = hd (vs @ [l_tail l])"
    using chain_split_at [of "us @ v # vs" us v vs l] by metis
  then have "link h v (hd (vs @ [l_tail l]))"
    using Cons.prems(1) linked_append [of h "as @ [p]" v q bs] by (simp add: is_list_def)
  moreover have "v \<noteq> l_tail l" using is_list_not_sentinel [OF Cons.prems(1), of v] by simp
  moreover have "list_foreach f l h (hd (vs @ [l_tail l])) = Inr vs"
    using Cons.IH [of "us @ [v]" f] Cons.prems(1) f(2) by simp
  ultimately show ?case by (auto simp: f link_def)
qed

lemma list_display_eq:
  assumes wf: "is_list h l xs" and "l_locked l" "length xs < fuel"
  shows "list_display fuel l h = Inr (enumerate 0 xs)"
  using is_list_links(1) [OF wf] list_foreach_visits [of h l "[]" xs fuel] assms
  by (auto simp: list_display_def)

section \<open>Pushing and popping\<close>

lemma list_push_front_refines:
  assumes "is_list h l xs" "l_locked l" "n \<notin> set (chain l xs)" "n \<noteq> 0" "h n \<noteq> None"
  shows "\<exists>l' h'. list_push_front l h n = Inr (l', h') \<and> is_list h' l' (n # xs) \<and>
     l' = l\<lparr>l_count := l_count l + 1\<rparr> \<and> (\<forall>x. x \<notin> set (chain l (n # xs)) \<longrightarrow> h' x = h x) \<and> dom h' = dom h"
  using list_insert_refines [of h l "[]" xs n "l_head l"] assms by (simp add: list_push_front_def)

lemma list_push_back_refines:
  assumes wf: "is_list h l xs" and "l_locked l" "n \<notin> set (chain l xs)" "n \<noteq> 0" "h n \<noteq> None"
  shows "\<exists>l' h'. list_push_back l h n = Inr (l', h') \<and> is_list h' l' (xs @ [n]) \<and>
     l' = l\<lparr>l_count := l_count l + 1\<rparr> \<and> (\<forall>x. x \<notin> set (chain l (xs @ [n])) \<longrightarrow> h' x = h x) \<and> dom h' = dom h"
proof -
  obtain t where "h (l_tail l) = Some t" "l_prev t = last (l_head l # xs)"
    using is_list_links(2) [OF wf] by blast
  then have "list_push_back l h n = list_insert l h (last (l_head l # xs)) n"
    by (simp add: list_push_back_def)
  with list_insert_refines [of h l xs "[]" n "last (l_head l # xs)"] assms show ?thesis by simp
qed

lemma list_remove_sentinel:
  assumes "l_locked l" "n = 0 \<or> n = l_head l \<or> n = l_tail l"
  shows "list_remove l h n = Inr (l, h, 0)"
  using assms by (auto simp: list_remove_def)

lemma list_pop_front_refines:
  assumes wf: "is_list h l xs" and lk: "l_locked l"
  shows "case xs of
      [] \<Rightarrow> list_pop_front l h = Inr (l, h, 0)
    | x # ys \<Rightarrow> \<exists>l' h'. list_pop_front l h = Inr (l', h', x) \<and> is_list h' l' ys \<and>
        l' = l\<lparr>l_count := l_count l - 1\<rparr> \<and> (\<forall>z. z \<notin> set (chain l xs) \<longrightarrow> h' z = h z) \<and> dom h' = dom h"
proof -
  have "list_pop_front l h = list_remove l h (hd (xs @ [l_tail l]))"
    using is_list_links(1) [OF wf] by (auto simp: list_pop_front_def)
  then show ?thesis
    using list_remove_refines [OF wf lk, of "hd xs"] list_remove_sentinel [OF lk]
    by (cases xs) simp_all
qed

lemma remove1_last: "distinct xs \<Longrightarrow> xs \<noteq> [] \<Longrightarrow> remove1 (last xs) xs = butlast xs"
  by (cases xs rule: rev_cases) (auto simp: remove1_append)

lemma list_pop_back_refines:
  assumes wf: "is_list h l xs" and lk: "l_locked l"
  shows "if xs = [] then list_pop_back l h = Inr (l, h, 0)
    else \<exists>l' h'. list_pop_back l h = Inr (l', h', last xs) \<and> is_list h' l' (butlast xs) \<and>
        l' = l\<lparr>l_count := l_count l - 1\<rparr> \<and> (\<forall>z. z \<notin> set (chain l xs) \<longrightarrow> h' z = h z) \<and> dom h' = dom h"
proof -
  have "list_pop_back l h = list_remove l h (last (l_head l # xs))"
    using is_list_links(2) [OF wf] by (auto simp: list_pop_back_def)
  moreover have "distinct xs" using wf by (simp add: is_list_def chain_def)
  ultimately show ?thesis
    using list_remove_refines [OF wf lk, of "last xs"] list_remove_sentinel [OF lk]
    by (cases "xs = []") (simp_all add: remove1_last)
qed


section \<open>Merging\<close>

text \<open>
  The merge on sequences, around the node \<open>n\<close> with \<open>us\<close> before and \<open>vs\<close> behind it: the state of the
  callback, the remaining nodes and the two nodes that were folded away.
\<close>

definition seq_merge ::
  "('p \<Rightarrow> addr \<Rightarrow> addr \<Rightarrow> 'p \<times> int) \<Rightarrow> 'p \<Rightarrow> addr list \<Rightarrow> addr \<Rightarrow> addr list \<Rightarrow>
   'p \<times> addr list \<times> addr \<times> addr" where
  "seq_merge merger p us n vs =
     (let (p, us, n, free1) =
        (if us = [] then (p, us, n, 0)
         else let (p', r) = merger p (last us) n in
              if r = 0 then (p', butlast us, last us, n) else (p', us, n, 0))
      in case vs of [] \<Rightarrow> (p, us @ [n], free1, 0)
         | v # ws \<Rightarrow> let (p', r) = merger p n v in
             if r = 0 then (p', us @ n # ws, free1, v) else (p', us @ n # vs, free1, 0))"

lemma is_list_links_at:
  assumes "is_list h l (us @ n # vs)"
  shows "\<exists>nd. h n = Some nd \<and> l_prev nd = last (l_head l # us) \<and> l_next nd = hd (vs @ [l_tail l])"
proof -
  obtain as p q bs where "chain l (us @ n # vs) = as @ p # n # q # bs"
      "p = last (l_head l # us)" "q = hd (vs @ [l_tail l])"
    using chain_split_at [of "us @ n # vs" us n vs l] by metis
  then show ?thesis
    using assms linked_append [of h "as @ [p]" n q bs] linked_append [of h as p n "q # bs"]
    by (auto simp: is_list_def link_def)
qed

lemma list_remove_node:
  assumes "is_list h l (us @ n # vs)" "l_locked l"
  shows "\<exists>l' h'. list_remove l h n = Inr (l', h', n) \<and> is_list h' l' (us @ vs) \<and>
     l' = l\<lparr>l_count := l_count l - 1\<rparr> \<and> h' n = h n \<and> dom h' = dom h"
proof -
  have "n \<notin> set us" using assms(1) by (auto simp: is_list_def chain_def)
  then have "remove1 n (us @ n # vs) = us @ vs" by (simp add: remove1_append)
  moreover obtain l' h' where r: "list_remove l h n = Inr (l', h', n)" "is_list h' l' (remove1 n (us @ n # vs))"
      "l' = l\<lparr>l_count := l_count l - 1\<rparr>" "dom h' = dom h"
    using list_remove_refines [OF assms, of n] by auto
  moreover have "h' n = h n"
  proof -
    obtain nd where nd: "h n = Some nd" "l_prev nd = last (l_head l # us)" "l_next nd = hd (vs @ [l_tail l])"
      using is_list_links_at [OF assms(1)] by blast
    have "n \<noteq> l_prev nd" "n \<noteq> l_next nd"
      using assms(1) nd by (cases vs; auto simp: is_list_def chain_def dest: last_in_set split: if_splits)+
    then show ?thesis
      using r(1) nd(1) is_list_not_sentinel [OF assms(1), of n] assms(2)
      by (auto simp: list_remove_def Let_def update_node_def panic_if_def split: option.splits if_splits)
  qed
  ultimately show ?thesis by simp
qed

lemma list_merge_next:
  assumes wf: "is_list h l (us @ n # vs)" and lk: "l_locked l"
  shows "\<exists>l' h'. (case vs of [] \<Rightarrow> (p, us @ [n], f, 0)
         | v # ws \<Rightarrow> let (p', r) = merger p n v in
             if r = 0 then (p', us @ n # ws, f, v) else (p', us @ n # vs, f, 0)) = (p1, ys, f1, f2) \<longrightarrow>
    ebind (load_node h n) (\<lambda>nd.
       if l_next nd \<noteq> l_tail l then
         let (p', r) = merger p n (l_next nd) in
         if r = 0 then
           ebind (list_remove l h (l_next nd)) (\<lambda>(l', h', _).
           Inr (l', h', p', f, l_next nd))
         else Inr (l, h, p', f, 0)
       else Inr (l, h, p, f, 0)) = Inr (l', h', p1, f1, f2) \<and> is_list h' l' ys \<and> l_locked l' \<and>
       l_self l' = l_self l \<and> l_head l' = l_head l \<and> l_tail l' = l_tail l \<and> dom h' = dom h"
proof -
  obtain nd where nd: "h n = Some nd" "l_next nd = hd (vs @ [l_tail l])"
    using is_list_links_at [OF wf] by blast
  show ?thesis
  proof (cases vs)
    case Nil
    then show ?thesis using nd wf lk by auto
  next
    case (Cons v ws)
    then have "v \<noteq> l_tail l" using is_list_not_sentinel [OF wf, of v] by simp
    moreover obtain l' h' where "list_remove l h v = Inr (l', h', v)" "is_list h' l' (us @ n # ws)"
        "l' = l\<lparr>l_count := l_count l - 1\<rparr>" "dom h' = dom h"
      using list_remove_node [of h l "us @ [n]" v ws] wf lk Cons by auto
    ultimately show ?thesis using nd wf lk Cons by (auto split: prod.splits)
  qed
qed

lemma list_merge_refines:
  assumes wf: "is_list h l (us @ n # vs)" and lk: "l_locked l"
    and seq: "seq_merge merger p us n vs = (p1, ys, f1, f2)"
  shows "\<exists>l' h'. list_merge l h p n merger = Inr (l', h', p1, f1, f2) \<and> is_list h' l' ys \<and> l_locked l' \<and>
     l_self l' = l_self l \<and> l_head l' = l_head l \<and> l_tail l' = l_tail l \<and> dom h' = dom h"
proof -
  obtain nd where nd: "h n = Some nd" "l_prev nd = last (l_head l # us)"
    using is_list_links_at [OF wf] by blast
  show ?thesis
  proof (cases us rule: rev_cases)
    case Nil
    then show ?thesis
      using list_merge_next [OF wf lk, of p 0 merger p1 ys f1 f2] nd seq
      by (auto simp: list_merge_def seq_merge_def)
  next
    case (snoc ws u)
    obtain p' r where m: "merger p u n = (p', r)" by force
    have u: "u \<noteq> l_head l" using is_list_not_sentinel [OF wf, of u] snoc by simp
    show ?thesis
    proof (cases "r = 0")
      case True
      obtain l' h' where rem: "list_remove l h n = Inr (l', h', n)" "is_list h' l' (ws @ u # vs)"
          "l' = l\<lparr>l_count := l_count l - 1\<rparr>" "h' n = h n" "dom h' = dom h"
        using list_remove_node [OF wf lk] snoc by auto
      then show ?thesis
        using list_merge_next [OF rem(2), of p' n merger p1 ys f1 f2] nd seq m u True snoc lk
        by (auto simp: list_merge_def seq_merge_def)
    next
      case False
      then show ?thesis
        using list_merge_next [OF wf lk, of p' 0 merger p1 ys f1 f2] nd seq m u snoc
        by (auto simp: list_merge_def seq_merge_def)
    qed
  qed
qed

section \<open>The deque interface\<close>

text \<open>
  What the list promises its clients: the queues of the scheduler, the wait lists and the page and
  bucket lists only push and pop. \<open>rep s xs\<close> says that the state \<open>s\<close> holds the sequence \<open>xs\<close>, and
  \<open>valid s n\<close> that \<open>n\<close> is an object that can be a node.
\<close>

primrec push_all :: "('s \<Rightarrow> 'a \<Rightarrow> 's res) \<Rightarrow> 's \<Rightarrow> 'a list \<Rightarrow> 's res" where
  "push_all push s [] = Inr s"
| "push_all push s (x # xs) = ebind (push s x) (\<lambda>s. push_all push s xs)"

primrec pop_all :: "('s \<Rightarrow> ('s \<times> 'a) res) \<Rightarrow> nat \<Rightarrow> 's \<Rightarrow> ('s \<times> 'a list) res" where
  "pop_all pop 0 s = Inr (s, [])"
| "pop_all pop (Suc k) s =
     ebind (pop s) (\<lambda>(s, x). ebind (pop_all pop k s) (\<lambda>(s, xs). Inr (s, x # xs)))"

locale kernel_deque =
  fixes rep :: "'s \<Rightarrow> 'a list \<Rightarrow> bool"
    and valid :: "'s \<Rightarrow> 'a \<Rightarrow> bool"
    and null :: 'a
    and push_front push_back :: "'s \<Rightarrow> 'a \<Rightarrow> 's res"
    and pop_front pop_back :: "'s \<Rightarrow> ('s \<times> 'a) res"
  assumes push_front_law: "rep s xs \<Longrightarrow> valid s n \<Longrightarrow> n \<notin> set xs \<Longrightarrow>
      \<exists>s'. push_front s n = Inr s' \<and> rep s' (n # xs) \<and> valid s' = valid s"
    and push_back_law: "rep s xs \<Longrightarrow> valid s n \<Longrightarrow> n \<notin> set xs \<Longrightarrow>
      \<exists>s'. push_back s n = Inr s' \<and> rep s' (xs @ [n]) \<and> valid s' = valid s"
    and pop_front_law: "rep s (x # xs) \<Longrightarrow> \<exists>s'. pop_front s = Inr (s', x) \<and> rep s' xs \<and> valid s' = valid s"
    and pop_back_law: "rep s (xs @ [x]) \<Longrightarrow> \<exists>s'. pop_back s = Inr (s', x) \<and> rep s' xs \<and> valid s' = valid s"
    and pop_empty_law: "rep s [] \<Longrightarrow> pop_front s = Inr (s, null) \<and> pop_back s = Inr (s, null)"
begin

lemma push_back_all:
  assumes "rep s ys" "distinct (ys @ xs)" "\<forall>x\<in>set xs. valid s x"
  shows "\<exists>s'. push_all push_back s xs = Inr s' \<and> rep s' (ys @ xs) \<and> valid s' = valid s"
  using assms
proof (induction xs arbitrary: s ys)
  case (Cons x xs)
  obtain s' where s': "push_back s x = Inr s'" "rep s' (ys @ [x])" "valid s' = valid s"
    using push_back_law [OF Cons.prems(1), of x] Cons.prems(2,3) by auto
  with Cons.IH [of s' "ys @ [x]"] Cons.prems show ?case by auto
qed simp

lemma push_front_all:
  assumes "rep s ys" "distinct (rev xs @ ys)" "\<forall>x\<in>set xs. valid s x"
  shows "\<exists>s'. push_all push_front s xs = Inr s' \<and> rep s' (rev xs @ ys) \<and> valid s' = valid s"
  using assms
proof (induction xs arbitrary: s ys)
  case (Cons x xs)
  obtain s' where s': "push_front s x = Inr s'" "rep s' (x # ys)" "valid s' = valid s"
    using push_front_law [OF Cons.prems(1), of x] Cons.prems(2,3) by auto
  with Cons.IH [of s' "x # ys"] Cons.prems show ?case by auto
qed simp

lemma pop_front_all:
  assumes "rep s (xs @ ys)"
  shows "\<exists>s'. pop_all pop_front (length xs) s = Inr (s', xs) \<and> rep s' ys \<and> valid s' = valid s"
  using assms
proof (induction xs arbitrary: s)
  case (Cons x xs)
  obtain s' where "pop_front s = Inr (s', x)" "rep s' (xs @ ys)" "valid s' = valid s"
    using pop_front_law [of s x "xs @ ys"] Cons.prems by auto
  with Cons.IH [of s'] show ?case by auto
qed simp

lemma fifo_law:
  assumes "rep s []" "distinct xs" "\<forall>x\<in>set xs. valid s x"
  shows "\<exists>s1 s2. push_all push_back s xs = Inr s1 \<and> rep s1 xs \<and>
     pop_all pop_front (length xs) s1 = Inr (s2, xs) \<and> rep s2 [] \<and> valid s2 = valid s"
  using push_back_all [OF assms(1), of xs] pop_front_all [of _ xs "[]"] assms(2,3) by fastforce

lemma lifo_law:
  assumes "rep s []" "distinct xs" "\<forall>x\<in>set xs. valid s x"
  shows "\<exists>s1 s2. push_all push_front s xs = Inr s1 \<and> rep s1 (rev xs) \<and>
     pop_all pop_front (length xs) s1 = Inr (s2, rev xs) \<and> rep s2 [] \<and> valid s2 = valid s"
  using push_front_all [OF assms(1), of xs] pop_front_all [of _ "rev xs" "[]"] assms(2,3) by fastforce

end

definition list_rep :: "list_t \<times> heap \<Rightarrow> addr list \<Rightarrow> bool" where
  "list_rep s xs \<longleftrightarrow> is_list (snd s) (fst s) xs \<and> l_locked (fst s)"

definition node_valid :: "list_t \<times> heap \<Rightarrow> addr \<Rightarrow> bool" where
  "node_valid s n \<longleftrightarrow> n \<noteq> 0 \<and> n \<noteq> l_head (fst s) \<and> n \<noteq> l_tail (fst s) \<and> n \<in> dom (snd s)"

lemma node_valid_chain:
  assumes "node_valid s n" "n \<notin> set xs"
  shows "n \<notin> set (chain (fst s) xs)" "n \<noteq> 0" "snd s n \<noteq> None"
  using assms by (auto simp: node_valid_def chain_def)

lemma node_valid_cong:
  "l_head l' = l_head l \<Longrightarrow> l_tail l' = l_tail l \<Longrightarrow> dom h' = dom h \<Longrightarrow> node_valid (l', h') = node_valid (l, h)"
  by (auto simp: node_valid_def fun_eq_iff)

interpretation klist: kernel_deque list_rep node_valid 0
  "\<lambda>(l, h). list_push_front l h" "\<lambda>(l, h). list_push_back l h"
  "\<lambda>(l, h). ebind (list_pop_front l h) (\<lambda>(l, h, n). Inr ((l, h), n))"
  "\<lambda>(l, h). ebind (list_pop_back l h) (\<lambda>(l, h, n). Inr ((l, h), n))"
proof (unfold_locales, goal_cases)
  case (1 s xs n)
  then show ?case
    using list_push_front_refines [of "snd s" "fst s" xs n] node_valid_chain [of s n xs]
    by (auto simp: list_rep_def split: prod.splits intro!: node_valid_cong)
next
  case (2 s xs n)
  then show ?case
    using list_push_back_refines [of "snd s" "fst s" xs n] node_valid_chain [of s n xs]
    by (auto simp: list_rep_def split: prod.splits intro!: node_valid_cong)
next
  case (3 s x xs)
  then show ?case
    using list_pop_front_refines [of "snd s" "fst s" "x # xs"]
    by (auto simp: list_rep_def split: prod.splits intro!: node_valid_cong)
next
  case (4 s xs x)
  then show ?case
    using list_pop_back_refines [of "snd s" "fst s" "xs @ [x]"]
    by (auto simp: list_rep_def split: prod.splits intro!: node_valid_cong)
next
  case (5 s)
  then show ?case
    using list_pop_front_refines [of "snd s" "fst s" "[]"] list_pop_back_refines [of "snd s" "fst s" "[]"]
    by (auto simp: list_rep_def split: prod.splits)
qed

section \<open>The comparison of the list test\<close>

definition test_list_compare :: "(addr \<Rightarrow> int) \<Rightarrow> addr \<Rightarrow> addr \<Rightarrow> int" where
  "test_list_compare num a b = (if num a > num b then 1 else if num a < num b then - 1 else 0)"

interpretation test_order: addr_order "test_list_compare num" for num
  by unfold_locales (auto simp: test_list_compare_def split: if_splits)

section \<open>Properties of the list\<close>

text \<open>
  C29: Inserting a fresh node behind any position of a well-formed locked list succeeds, gives the
  sequence with the node in that place, and touches no other part of the store; removing the node
  again succeeds and gives back the original list object and, outside the node itself, the original
  store bit for bit.
\<close>

theorem list_insert_remove_roundtrip:
  assumes wf: "is_list h l (us @ vs)" and lk: "l_locked l"
    and n: "n \<notin> set (chain l (us @ vs))" "n \<noteq> 0" "h n \<noteq> None"
  shows "\<exists>l' h' h''. list_insert l h (last (l_head l # us)) n = Inr (l', h') \<and>
     is_list h' l' (us @ n # vs) \<and> (\<forall>x. x \<notin> set (chain l (us @ n # vs)) \<longrightarrow> h' x = h x) \<and>
     list_remove l' h' n = Inr (l, h'', n) \<and> is_list h'' l (us @ vs) \<and> (\<forall>x. x \<noteq> n \<longrightarrow> h'' x = h x)"
proof -
  define p q where "p = last (l_head l # us)" and "q = hd (vs @ [l_tail l])"
  note S = is_list_spliced [OF wf n p_def q_def]
  define l' h' where "l' = l\<lparr>l_count := l_count l + 1\<rparr>" and "h' = spliced h p q n (l_self l)"
  obtain np nq where nodes: "h p = Some np" "l_next np = q" "h q = Some nq" "l_prev nq = p"
    using S(7,8) by auto
  obtain nn where nn: "h n = Some nn" using n(3) by auto
  have ins: "list_insert l h p n = Inr (l', h')"
    using lk splice_steps [OF S(2,3) n(3) S(4-6)] nodes
    by (simp add: list_insert_def Let_def l'_def h'_def)
  have "n \<noteq> l_head l" "n \<noteq> l_tail l" using n(1) by (auto simp: chain_def)
  then have rem: "list_remove l' h' n = Inr (l, h'(p \<mapsto> np, q \<mapsto> nq), n)"
    using lk n(2) nodes nn S(4-6)
    by (auto simp: list_remove_def Let_def l'_def h'_def spliced_def fun_upd_def)
  have wf': "is_list h' l' (us @ n # vs)" using S(1) by (simp add: h'_def l'_def)
  have "is_list (h'(p \<mapsto> np, q \<mapsto> nq)) l (us @ vs)"
    using list_remove_node [OF wf'] rem lk by (auto simp: l'_def)
  moreover have "\<forall>x. x \<noteq> n \<longrightarrow> (h'(p \<mapsto> np, q \<mapsto> nq)) x = h x"
    using nodes by (auto simp: h'_def spliced_def)
  moreover have "\<forall>x. x \<notin> set (chain l (us @ n # vs)) \<longrightarrow> h' x = h x" using S(9) by (simp add: h'_def)
  ultimately show ?thesis using ins rem wf' by (auto simp: p_def)
qed

definition demo_list :: list_t where
  "demo_list = \<lparr>l_self = 100, l_head = 1, l_tail = 2, l_count = 1, l_locked = True\<rparr>"

definition demo_heap :: heap where
  "demo_heap = [1 \<mapsto> \<lparr>l_prev = 0, l_next = 3, l_owner = 100\<rparr>, 2 \<mapsto> \<lparr>l_prev = 3, l_next = 0, l_owner = 100\<rparr>,
     3 \<mapsto> \<lparr>l_prev = 1, l_next = 2, l_owner = 100\<rparr>, 4 \<mapsto> \<lparr>l_prev = 0, l_next = 0, l_owner = 0\<rparr>,
     5 \<mapsto> \<lparr>l_prev = 0, l_next = 0, l_owner = 0\<rparr>]"

lemma demo_list_wf:
  "is_list demo_heap demo_list [3]" "l_locked demo_list"
  "4 \<notin> set (chain demo_list [3])" "5 \<notin> set (chain demo_list [3])"
  "demo_heap 4 \<noteq> None" "demo_heap 5 \<noteq> None"
  by (simp_all add: demo_list_def demo_heap_def is_list_def chain_def link_def)

theorem list_insert_remove_roundtrip_witness:
  "\<exists>l' h' h''. list_insert demo_list demo_heap 3 4 = Inr (l', h') \<and> is_list h' l' [3, 4] \<and>
     list_remove l' h' 4 = Inr (demo_list, h'', 4) \<and> is_list h'' demo_list [3]"
  using list_insert_remove_roundtrip [of demo_heap demo_list "[3]" "[]" 4] demo_list_wf by auto

text \<open>
  C30: The list is a first-in first-out queue for whoever pushes at the back and pops at the front,
  and a stack for whoever pushes at the front: starting from an empty list, any distinct fresh
  nodes come out in the order they went in, respectively in reverse, and the list is empty again.
\<close>

theorem list_fifo_lifo:
  assumes "is_list h l []" "l_locked l" "distinct xs" "\<forall>x\<in>set xs. node_valid (l, h) x"
  shows "(\<exists>l1 h1 l2 h2. push_all (\<lambda>(l, h). list_push_back l h) (l, h) xs = Inr (l1, h1) \<and> is_list h1 l1 xs \<and>
       pop_all (\<lambda>(l, h). ebind (list_pop_front l h) (\<lambda>(l, h, n). Inr ((l, h), n))) (length xs) (l1, h1) =
         Inr ((l2, h2), xs) \<and> is_list h2 l2 []) \<and>
    (\<exists>l1 h1 l2 h2. push_all (\<lambda>(l, h). list_push_front l h) (l, h) xs = Inr (l1, h1) \<and> is_list h1 l1 (rev xs) \<and>
       pop_all (\<lambda>(l, h). ebind (list_pop_front l h) (\<lambda>(l, h, n). Inr ((l, h), n))) (length xs) (l1, h1) =
         Inr ((l2, h2), rev xs) \<and> is_list h2 l2 [])"
proof -
  have "list_rep (l, h) []" using assms(1,2) by (simp add: list_rep_def)
  from klist.fifo_law [OF this assms(3,4)] klist.lifo_law [OF this assms(3,4)]
  show ?thesis unfolding list_rep_def by fastforce
qed

lemma demo_empty:
  "is_list [1 \<mapsto> \<lparr>l_prev = 0, l_next = 2, l_owner = 100\<rparr>, 2 \<mapsto> \<lparr>l_prev = 1, l_next = 0, l_owner = 100\<rparr>,
     4 \<mapsto> \<lparr>l_prev = 0, l_next = 0, l_owner = 0\<rparr>, 5 \<mapsto> \<lparr>l_prev = 0, l_next = 0, l_owner = 0\<rparr>]
     (demo_list\<lparr>l_count := 0\<rparr>) []"
  by (simp add: demo_list_def is_list_def chain_def link_def)

theorem list_fifo_lifo_witness:
  "\<exists>l1 h1. push_all (\<lambda>(l, h). list_push_back l h) (demo_list\<lparr>l_count := 0\<rparr>,
     [1 \<mapsto> \<lparr>l_prev = 0, l_next = 2, l_owner = 100\<rparr>, 2 \<mapsto> \<lparr>l_prev = 1, l_next = 0, l_owner = 100\<rparr>,
      4 \<mapsto> \<lparr>l_prev = 0, l_next = 0, l_owner = 0\<rparr>, 5 \<mapsto> \<lparr>l_prev = 0, l_next = 0, l_owner = 0\<rparr>]) [4, 5] =
     Inr (l1, h1) \<and> is_list h1 l1 [4, 5]"
  using list_fifo_lifo [OF demo_empty, of "[4, 5]"] by (auto simp: demo_list_def node_valid_def)

lemma list_access_exclusive_Inr:
  assumes "\<not> l_locked l" "body (l\<lparr>l_locked := True\<rparr>) = Inr (l', r)" "l_locked l'"
  shows "list_access_exclusive l body = Inr (l'\<lparr>l_locked := False\<rparr>, r)"
  using assms by (simp add: list_access_exclusive_def)

lemma is_list_lock [simp]: "is_list h (l\<lparr>l_locked := b\<rparr>) xs = is_list h l xs"
  by (simp add: is_list_def chain_def)

lemma chain_simps [simp]:
  "chain (l\<lparr>l_locked := b\<rparr>) xs = chain l xs" "chain (l\<lparr>l_count := c\<rparr>) xs = chain l xs"
  by (simp_all add: chain_def)

text \<open>
  C31: With a comparison that is a total preorder, the exclusive sorted insertion into an unlocked
  well-formed list succeeds, releases the lock, and inserts the node in front of the first node that
  is not below it; a sorted list stays sorted and gains exactly that node.
\<close>

theorem list_insert_sorted_exclusive_sorts:
  assumes ord: "addr_order cmp" and wf: "is_list h l xs" and lk: "\<not> l_locked l"
    and n: "n \<notin> set (chain l xs)" "n \<noteq> 0" "h n \<noteq> None" and fuel: "length xs + 1 < fuel"
  shows "\<exists>l' h'. list_insert_sorted_exclusive fuel l h n cmp = Inr (l', h') \<and> \<not> l_locked l' \<and>
     is_list h' l' (insertion cmp n xs) \<and> mset (insertion cmp n xs) = add_mset n (mset xs) \<and>
     (cmp_sorted cmp xs \<longrightarrow> cmp_sorted cmp (insertion cmp n xs))"
proof -
  have o: "node_order cmp" using ord by (simp add: addr_order_def)
  obtain l' h' where "list_insert_sorted fuel (l\<lparr>l_locked := True\<rparr>) h n cmp = Inr (l', h')"
      "is_list h' l' (insertion cmp n xs)" "l' = l\<lparr>l_locked := True\<rparr>\<lparr>l_count := l_count l + 1\<rparr>"
    using addr_order.list_insert_sorted_refines [OF ord, of h "l\<lparr>l_locked := True\<rparr>" xs n fuel] wf n fuel
    by auto
  then have "list_insert_sorted_exclusive fuel l h n cmp = Inr (l'\<lparr>l_locked := False\<rparr>, h')"
      and "is_list h' (l'\<lparr>l_locked := False\<rparr>) (insertion cmp n xs)" and "\<not> l_locked (l'\<lparr>l_locked := False\<rparr>)"
    unfolding list_insert_sorted_exclusive_def is_list_lock
    using lk by (simp_all add: list_access_exclusive_def)
  then show ?thesis using node_order.cmp_sorted_insertion [OF o] mset_insertion by fastforce
qed

theorem list_insert_sorted_exclusive_sorts_witness:
  "\<exists>l' h'. list_insert_sorted_exclusive 3 (demo_list\<lparr>l_locked := False\<rparr>) demo_heap 4
     (test_list_compare (\<lambda>x. 10 - int x)) = Inr (l', h') \<and> is_list h' l' [4, 3]"
  using list_insert_sorted_exclusive_sorts [OF test_order.addr_order_axioms, of demo_heap
      "demo_list\<lparr>l_locked := False\<rparr>" "[3]" 4 3 "\<lambda>x. 10 - int x"] demo_list_wf
  by (auto simp: insertion_def test_list_compare_def)

end
