(* ===== verification/Palloc.thy ===== *)
theory Palloc
  imports Kbits
begin

text \<open>
  The page frame allocator, \<^verbatim>\<open>kernel/mem/palloc.c\<close>: a buddy allocator with one set of free lists per
  region. This theory holds the state and the operations; \<open>Palloc_Buddy\<close> proves them correct.

  Page frame numbers, orders and region numbers are natural numbers. The bit fields of
  \<^verbatim>\<open>struct palloc_node\<close> hold them without loss: an order is below 16, a region number below 32 and a
  frame number, an address shifted right by 12, below \<open>2 ^ 52\<close>. Page counters are machine words.
  The array \<^verbatim>\<open>nodes\<close> is indexed by frame number, \<^verbatim>\<open>nodes[pfn - pfn_start]\<close> being the cell of \<open>pfn\<close>;
  every access goes through \<open>get_node_by_pfn\<close> and its range check. A write outside the array
  \<^verbatim>\<open>regions\<close> is \<open>Inl Undefined\<close>.
\<close>

section \<open>State\<close>

record palloc_node =
  pn_order :: nat
  pn_region :: nat
  pn_alloc :: bool
  pn_has_next :: bool
  pn_avail :: bool
  pn_next :: nat

text \<open>The test \<^verbatim>\<open>node.value\<close> of the union: some bit field is not zero.\<close>

definition node_value_set :: "palloc_node \<Rightarrow> bool" where
  "node_value_set n \<longleftrightarrow>
     pn_order n \<noteq> 0 \<or> pn_region n \<noteq> 0 \<or> pn_alloc n \<or> pn_has_next n \<or> pn_avail n \<or> pn_next n \<noteq> 0"

definition zero_node :: palloc_node where
  "zero_node = \<lparr>pn_order = 0, pn_region = 0, pn_alloc = False, pn_has_next = False, pn_avail = False, pn_next = 0\<rparr>"

record palloc_region_t =
  pr_tags :: u32
  pr_total_pages :: ulong
  pr_avail_pages :: ulong
  pr_buddies :: "nat \<Rightarrow> palloc_node"
  pr_locked :: bool

record palloc_state =
  num_pages_total :: u64
  num_pages_alloc :: u64
  pfn_entry_count :: nat
  pfn_start :: nat
  pfn_limit :: nat
  region_count :: nat
  regions :: "nat \<Rightarrow> palloc_region_t"
  nodes :: "nat \<Rightarrow> palloc_node"

abbreviation (input) PALLOC_MAX_ORDER :: nat where "PALLOC_MAX_ORDER \<equiv> 15"
abbreviation (input) MAX_PALLOC_REGION_COUNT :: nat where "MAX_PALLOC_REGION_COUNT \<equiv> 32"

definition upd_node :: "nat \<Rightarrow> (palloc_node \<Rightarrow> palloc_node) \<Rightarrow> palloc_state \<Rightarrow> palloc_state" where
  "upd_node pfn f s = s\<lparr>nodes := (nodes s)(pfn := f (nodes s pfn))\<rparr>"

definition upd_region :: "nat \<Rightarrow> (palloc_region_t \<Rightarrow> palloc_region_t) \<Rightarrow> palloc_state \<Rightarrow> palloc_state" where
  "upd_region r f s = s\<lparr>regions := (regions s)(r := f (regions s r))\<rparr>"

definition upd_buddy :: "nat \<Rightarrow> nat \<Rightarrow> (palloc_node \<Rightarrow> palloc_node) \<Rightarrow> palloc_state \<Rightarrow> palloc_state" where
  "upd_buddy r k f =
     upd_region r (\<lambda>rg. rg\<lparr>pr_buddies := (pr_buddies rg)(k := f (pr_buddies rg k))\<rparr>)"

abbreviation buddy :: "palloc_state \<Rightarrow> nat \<Rightarrow> nat \<Rightarrow> palloc_node" where
  "buddy s r k \<equiv> pr_buddies (regions s r) k"

definition palloc_stats_page :: "palloc_state \<Rightarrow> u64 \<times> u64" where
  "palloc_stats_page s = (num_pages_total s, num_pages_alloc s)"

section \<open>Nodes and free lists\<close>

definition is_pfn_valid :: "palloc_state \<Rightarrow> nat \<Rightarrow> bool" where
  "is_pfn_valid s pfn \<longleftrightarrow> \<not> (pfn < pfn_start s \<or> pfn_limit s \<le> pfn)"

definition get_node_by_pfn :: "palloc_state \<Rightarrow> nat \<Rightarrow> palloc_node res" where
  "get_node_by_pfn s pfn =
     panic_if (pfn < pfn_start s \<or> pfn_limit s \<le> pfn) (Inr (nodes s pfn))"

definition insert_node :: "nat \<Rightarrow> nat \<Rightarrow> nat \<Rightarrow> palloc_state \<Rightarrow> palloc_state res" where
  "insert_node pfn r k s =
     ebind (get_node_by_pfn s pfn) (\<lambda>_.
     let s = upd_node pfn (\<lambda>n. n\<lparr>pn_next := pn_next (buddy s r k), pn_has_next := pn_has_next (buddy s r k)\<rparr>) s
     in Inr (upd_buddy r k (\<lambda>b. b\<lparr>pn_has_next := True, pn_next := pfn\<rparr>) s))"

text \<open>The \<^verbatim>\<open>do ... while\<close> loop; \<open>prev\<close> is the node the loop has reached, known to have a successor.\<close>

fun remove_node_loop :: "nat \<Rightarrow> nat \<Rightarrow> nat \<Rightarrow> palloc_state \<Rightarrow> palloc_state res" where
  "remove_node_loop 0 pfn prev s = Inl Out_of_fuel"
| "remove_node_loop (Suc fuel) pfn prev s =
     (let cur_pfn = pn_next (nodes s prev) in
      ebind (get_node_by_pfn s cur_pfn) (\<lambda>cur.
      if cur_pfn = pfn then
        let s = upd_node prev (\<lambda>n. n\<lparr>pn_has_next := pn_has_next cur, pn_next := pn_next cur\<rparr>) s
        in Inr (upd_node cur_pfn (\<lambda>n. n\<lparr>pn_has_next := False, pn_next := 0\<rparr>) s)
      else if pn_has_next cur then remove_node_loop fuel pfn cur_pfn s
      else Inl Panic))"

definition remove_node :: "nat \<Rightarrow> nat \<Rightarrow> nat \<Rightarrow> palloc_state \<Rightarrow> palloc_state res" where
  "remove_node pfn r k s =
     (let cur_pfn = pn_next (buddy s r k) in
      ebind (get_node_by_pfn s cur_pfn) (\<lambda>cur.
      if cur_pfn = pfn then
        let s = upd_buddy r k (\<lambda>b. b\<lparr>pn_has_next := pn_has_next cur, pn_next := pn_next cur\<rparr>) s
        in Inr (upd_node cur_pfn (\<lambda>n. n\<lparr>pn_has_next := False, pn_next := 0\<rparr>) s)
      else assert_that (pn_has_next cur)
        (remove_node_loop (pfn_limit s - pfn_start s) pfn cur_pfn s)))"

definition pfn_mod_order_page_count :: "nat \<Rightarrow> nat \<Rightarrow> nat" where
  "pfn_mod_order_page_count pfn order_page_count = pfn AND (order_page_count - 1)"

definition calc_palloc_order :: "int \<Rightarrow> nat res" where
  "calc_palloc_order count =
     (let c = (word_of_int count :: u32);
          order = 31 - int (clz32 c);
          order = (if popcount32 c > 1 then order + 1 else order)
      in if order < 0 then Inr 0
         else panic_if (order > int PALLOC_MAX_ORDER) (Inr (nat order)))"

text \<open>\<^verbatim>\<open>buddy_print\<close>: the number of blocks in each free list of a region, found by walking it.\<close>

fun buddy_count :: "nat \<Rightarrow> palloc_state \<Rightarrow> palloc_node \<Rightarrow> nat res" where
  "buddy_count 0 s nd = Inl Out_of_fuel"
| "buddy_count (Suc fuel) s nd =
     (if pn_has_next nd
      then ebind (get_node_by_pfn s (pn_next nd)) (\<lambda>cur.
           ebind (buddy_count fuel s cur) (\<lambda>c. Inr (Suc c)))
      else Inr 0)"

definition buddy_print :: "palloc_state \<Rightarrow> nat \<Rightarrow> nat res list" where
  "buddy_print s r =
     map (\<lambda>k. buddy_count (Suc (pfn_limit s - pfn_start s)) s (buddy s r k)) [0..<Suc PALLOC_MAX_ORDER]"

section \<open>Splitting and combining\<close>

text \<open>
  Both halves of a split block are set up the same way. In C an order of 0 at that point would shift
  by -1.
\<close>

definition setup_free_node :: "nat \<Rightarrow> nat \<Rightarrow> palloc_node \<Rightarrow> palloc_node" where
  "setup_free_node r k n =
     n\<lparr>pn_alloc := False, pn_order := k, pn_region := r, pn_avail := True, pn_has_next := False, pn_next := 0\<rparr>"

definition buddy_split_head :: "nat \<Rightarrow> nat \<Rightarrow> palloc_state \<Rightarrow> (palloc_state \<times> int) res" where
  "buddy_split_head k r s =
     (let pfn = pn_next (buddy s r k) in
      ebind (get_node_by_pfn s pfn) (\<lambda>node.
      let s = upd_buddy r k (\<lambda>b. b\<lparr>pn_next := pn_next node, pn_has_next := pn_has_next node\<rparr>) s in
      if k = 0 then Inl Undefined
      else
        let pfn2 = pfn + 2 ^ (k - 1) in
        ebind (get_node_by_pfn s pfn2) (\<lambda>_.
        let s = upd_node pfn (setup_free_node r (k - 1)) s;
            s = upd_node pfn2 (setup_free_node r (k - 1)) s
        in ebind (insert_node pfn r (k - 1) s) (\<lambda>s.
           ebind (insert_node pfn2 r (k - 1) s) (\<lambda>s. Inr (s, 0))))))"

function buddy_split :: "nat \<Rightarrow> nat \<Rightarrow> palloc_state \<Rightarrow> (palloc_state \<times> int) res" where
  "buddy_split k r s =
     (if k > PALLOC_MAX_ORDER then Inl Panic
      else if \<not> pn_has_next (buddy s r k) then
        if k = PALLOC_MAX_ORDER then Inr (s, - 1)
        else ebind (buddy_split (k + 1) r s) (\<lambda>(s, rc).
             if rc = - 1 then Inr (s, - 1) else buddy_split_head k r s)
      else buddy_split_head k r s)"
  by auto
termination
  by (relation "measure (\<lambda>(k, _). Suc PALLOC_MAX_ORDER - k)") auto

declare buddy_split.simps [simp del]

text \<open>
  \<^verbatim>\<open>buddy_combine\<close> calls itself with the next higher order; orders stop at 15, so 16 rounds of fuel are
  enough.
\<close>

fun buddy_combine_loop :: "nat \<Rightarrow> nat \<Rightarrow> palloc_state \<Rightarrow> palloc_state res" where
  "buddy_combine_loop 0 pfn s = Inl Out_of_fuel"
| "buddy_combine_loop (Suc fuel) pfn s =
     ebind (get_node_by_pfn s pfn) (\<lambda>node.
     let r = pn_region node; k = pn_order node; order_page_count = 2 ^ k in
     if k = PALLOC_MAX_ORDER then Inr s
     else
       let higher = k + 1;
           (higher_pfn, other_pfn) =
             (if pfn_mod_order_page_count pfn (2 ^ higher) = 0 then (pfn, pfn + order_page_count)
              else (pfn - order_page_count, pfn - order_page_count))
       in
       if \<not> is_pfn_valid s other_pfn then Inr s
       else ebind (get_node_by_pfn s other_pfn) (\<lambda>other_node.
         if \<not> pn_avail other_node \<or> pn_region other_node \<noteq> r \<or> pn_alloc other_node \<or> k \<noteq> pn_order other_node
         then Inr s
         else
           ebind (remove_node pfn r k s) (\<lambda>s.
           ebind (remove_node other_pfn r k s) (\<lambda>s.
           let setup = (\<lambda>n. n\<lparr>pn_has_next := False, pn_next := 0, pn_order := higher, pn_region := r, pn_avail := True\<rparr>);
               s = upd_node pfn setup s;
               s = upd_node other_pfn setup s
           in ebind (insert_node higher_pfn r higher s) (\<lambda>s.
              buddy_combine_loop fuel higher_pfn s)))))"

definition buddy_combine :: "nat \<Rightarrow> palloc_state \<Rightarrow> palloc_state res" where
  "buddy_combine pfn s = buddy_combine_loop (Suc PALLOC_MAX_ORDER) pfn s"

section \<open>Allocation\<close>

text \<open>Taking the lock of a region that is already held would spin forever.\<close>

definition lock_region :: "nat \<Rightarrow> palloc_state \<Rightarrow> palloc_state res" where
  "lock_region r s =
     (if pr_locked (regions s r) then Inl Deadlock else Inr (upd_region r (\<lambda>rg. rg\<lparr>pr_locked := True\<rparr>) s))"

definition unlock_region :: "nat \<Rightarrow> palloc_state \<Rightarrow> palloc_state" where
  "unlock_region r = upd_region r (\<lambda>rg. rg\<lparr>pr_locked := False\<rparr>)"

definition palloc_region :: "int \<Rightarrow> nat \<Rightarrow> palloc_state \<Rightarrow> (palloc_state \<times> nat) res" where
  "palloc_region count r s =
     ebind (calc_palloc_order count) (\<lambda>k.
     let order_count = 2 ^ k in
     if pr_avail_pages (regions s r) < order_count then Inr (s, 0)
     else if k = PALLOC_MAX_ORDER then Inr (s, 0)
     else ebind (lock_region r s) (\<lambda>s.
       ebind (if pn_has_next (buddy s r k) then Inr (s, 0) else buddy_split (k + 1) r s) (\<lambda>(s, rc).
       if rc = - 1 then Inr (unlock_region r s, 0)
       else
         let pfn = pn_next (buddy s r k) in
         ebind (get_node_by_pfn s pfn) (\<lambda>node.
         let s = upd_buddy r k (\<lambda>b. b\<lparr>pn_next := pn_next node, pn_has_next := pn_has_next node\<rparr>) s;
             s = upd_node pfn (\<lambda>n. n\<lparr>pn_alloc := True, pn_has_next := False, pn_next := 0\<rparr>) s;
             s = upd_region r (\<lambda>rg. rg\<lparr>pr_avail_pages := pr_avail_pages rg - order_count\<rparr>) s;
             s = unlock_region r s
         in Inr (s\<lparr>num_pages_alloc := num_pages_alloc s + order_count\<rparr>, pfn)))))"

datatype memmap_match = MATCH_IGNORE | MATCH_EXACT | MATCH_SET_ALL | MATCH_SET_ANY | MATCH_UNSET_ALL | MATCH_UNSET_ANY

definition region_matched :: "u32 \<Rightarrow> u32 \<Rightarrow> memmap_match \<Rightarrow> bool" where
  "region_matched tags msk m =
     (case m of
        MATCH_IGNORE \<Rightarrow> True
      | MATCH_EXACT \<Rightarrow> tags = msk
      | MATCH_SET_ALL \<Rightarrow> tags AND msk = msk
      | MATCH_SET_ANY \<Rightarrow> tags AND msk \<noteq> 0
      | MATCH_UNSET_ALL \<Rightarrow> NOT tags AND msk = msk
      | MATCH_UNSET_ANY \<Rightarrow> NOT tags AND msk \<noteq> 0)"

text \<open>The loop of \<^verbatim>\<open>palloc_tag\<close>, over the region numbers still to be tried.\<close>

fun palloc_tag_loop :: "nat list \<Rightarrow> int \<Rightarrow> u32 \<Rightarrow> memmap_match \<Rightarrow> palloc_state \<Rightarrow> (palloc_state \<times> nat) res" where
  "palloc_tag_loop [] count msk m s = Inr (s, 0)"
| "palloc_tag_loop (r # rs) count msk m s =
     (if region_matched (pr_tags (regions s r)) msk m
      then ebind (palloc_region count r s) (\<lambda>(s, pfn).
           if pfn \<noteq> 0 then Inr (s, pfn) else palloc_tag_loop rs count msk m s)
      else palloc_tag_loop rs count msk m s)"

definition palloc_tag :: "int \<Rightarrow> u32 \<Rightarrow> memmap_match \<Rightarrow> palloc_state \<Rightarrow> (palloc_state \<times> nat) res" where
  "palloc_tag count msk m s = palloc_tag_loop [0..<region_count s] count msk m s"

text \<open>The tables of \<^verbatim>\<open>palloc_direct_mapped\<close> and \<^verbatim>\<open>palloc\<close>, tried in order until one gives a block.\<close>

abbreviation MEMMAP_TAG_NORMAL :: u32 where "MEMMAP_TAG_NORMAL \<equiv> 1"
abbreviation MEMMAP_TAG_DIRECT_MAPPED :: u32 where "MEMMAP_TAG_DIRECT_MAPPED \<equiv> 2"
abbreviation MEMMAP_TAG_DIRECT_ACCESS :: u32 where "MEMMAP_TAG_DIRECT_ACCESS \<equiv> 4"

definition direct_mapped_tags :: "(memmap_match \<times> u32) list" where
  "direct_mapped_tags =
    [(MATCH_EXACT, MEMMAP_TAG_NORMAL OR MEMMAP_TAG_DIRECT_MAPPED OR MEMMAP_TAG_DIRECT_ACCESS),
     (MATCH_SET_ALL, MEMMAP_TAG_NORMAL OR MEMMAP_TAG_DIRECT_MAPPED OR MEMMAP_TAG_DIRECT_ACCESS),
     (MATCH_EXACT, MEMMAP_TAG_NORMAL OR MEMMAP_TAG_DIRECT_MAPPED),
     (MATCH_SET_ALL, MEMMAP_TAG_NORMAL OR MEMMAP_TAG_DIRECT_MAPPED)]"

definition palloc_tags :: "(memmap_match \<times> u32) list" where
  "palloc_tags = direct_mapped_tags @
    [(MATCH_EXACT, MEMMAP_TAG_NORMAL), (MATCH_SET_ALL, MEMMAP_TAG_NORMAL), (MATCH_IGNORE, 0)]"

fun palloc_by_tags :: "(memmap_match \<times> u32) list \<Rightarrow> int \<Rightarrow> palloc_state \<Rightarrow> (palloc_state \<times> nat) res" where
  "palloc_by_tags [] count s = Inr (s, 0)"
| "palloc_by_tags ((m, msk) # ts) count s =
     ebind (palloc_tag count msk m s) (\<lambda>(s, pfn).
     if pfn \<noteq> 0 then Inr (s, pfn) else palloc_by_tags ts count s)"

definition palloc_direct_mapped :: "int \<Rightarrow> palloc_state \<Rightarrow> (palloc_state \<times> nat) res" where
  "palloc_direct_mapped count s =
     ebind (palloc_by_tags direct_mapped_tags count s) (\<lambda>(s, pfn).
     panic_if (pfn = 0) (Inr (s, pfn)))"

definition palloc :: "int \<Rightarrow> palloc_state \<Rightarrow> (palloc_state \<times> nat) res" where
  "palloc count s = palloc_by_tags palloc_tags count s"

section \<open>Release\<close>

definition pfree :: "nat \<Rightarrow> palloc_state \<Rightarrow> (palloc_state \<times> nat) res" where
  "pfree pfn s =
     ebind (get_node_by_pfn s pfn) (\<lambda>node.
     let r = pn_region node; k = pn_order node; order_count = 2 ^ k in
     ebind (lock_region r s) (\<lambda>s.
     let s = upd_node pfn (\<lambda>n. n\<lparr>pn_alloc := False\<rparr>) s;
         s = (if node_value_set (buddy s r k)
              then upd_node pfn (\<lambda>n. n\<lparr>pn_next := pn_next (buddy s r k), pn_has_next := True\<rparr>) s
              else upd_node pfn (\<lambda>n. n\<lparr>pn_next := 0, pn_has_next := False\<rparr>) s);
         s = upd_buddy r k (\<lambda>b. b\<lparr>pn_has_next := True, pn_next := pfn\<rparr>) s;
         s = upd_region r (\<lambda>rg. rg\<lparr>pr_avail_pages := pr_avail_pages rg + of_nat order_count\<rparr>) s
     in ebind (buddy_combine pfn s) (\<lambda>s.
        let s = unlock_region r s
        in Inr (s\<lparr>num_pages_alloc := num_pages_alloc s - of_nat order_count\<rparr>, order_count))))"

section \<open>Addresses and pointers\<close>

text \<open>
  Addresses are machine words. The casts between physical addresses and kernel pointers belong to the
  hardware abstraction layer and are parameters.
\<close>

definition ppfn_to_paddr :: "nat \<Rightarrow> u64" where
  "ppfn_to_paddr ppfn = push_bit 12 (of_nat ppfn)"

definition paddr_to_ppfn :: "u64 \<Rightarrow> nat" where
  "paddr_to_ppfn paddr = unat (drop_bit 12 paddr)"

definition palloc_paddr :: "int \<Rightarrow> palloc_state \<Rightarrow> (palloc_state \<times> u64) res" where
  "palloc_paddr count s = ebind (palloc count s) (\<lambda>(s, ppfn). Inr (s, ppfn_to_paddr ppfn))"

definition palloc_paddr_direct_mapped :: "int \<Rightarrow> palloc_state \<Rightarrow> (palloc_state \<times> u64) res" where
  "palloc_paddr_direct_mapped count s =
     ebind (palloc_direct_mapped count s) (\<lambda>(s, ppfn). Inr (s, ppfn_to_paddr ppfn))"

definition pfree_paddr :: "u64 \<Rightarrow> palloc_state \<Rightarrow> (palloc_state \<times> nat) res" where
  "pfree_paddr paddr s = pfree (paddr_to_ppfn paddr) s"

definition palloc_ptr :: "(u64 \<Rightarrow> ulong) \<Rightarrow> int \<Rightarrow> palloc_state \<Rightarrow> (palloc_state \<times> ulong) res" where
  "palloc_ptr hal_cast_paddr_to_kernel_ptr count s =
     ebind (palloc_paddr_direct_mapped count s) (\<lambda>(s, paddr).
     Inr (s, if paddr \<noteq> 0 then hal_cast_paddr_to_kernel_ptr paddr else 0))"

definition pfree_ptr :: "(ulong \<Rightarrow> u64) \<Rightarrow> ulong \<Rightarrow> palloc_state \<Rightarrow> (palloc_state \<times> nat) res" where
  "pfree_ptr hal_cast_kernel_ptr_to_paddr ptr s = pfree (paddr_to_ppfn (hal_cast_kernel_ptr_to_paddr ptr)) s"

section \<open>Initialisation\<close>

text \<open>
  The inner loop of \<^verbatim>\<open>init_region\<close>: the largest order, at most \<open>k\<close>, of an aligned block at \<open>cur_pfn\<close>
  that ends within the limit. No order at all would make the outer loop spin.
\<close>

fun init_region_order :: "nat \<Rightarrow> nat \<Rightarrow> nat \<Rightarrow> nat option" where
  "init_region_order k cur_pfn limit =
     (if pfn_mod_order_page_count cur_pfn (2 ^ k) = 0 \<and> cur_pfn + 2 ^ k \<le> limit then Some k
      else case k of 0 \<Rightarrow> None | Suc j \<Rightarrow> init_region_order j cur_pfn limit)"

declare init_region_order.simps [simp del]

function init_region_loop :: "nat \<Rightarrow> nat \<Rightarrow> nat \<Rightarrow> palloc_state \<Rightarrow> palloc_state res" where
  "init_region_loop cur_pfn limit r s =
     (if limit \<le> cur_pfn then Inr s
      else case init_region_order PALLOC_MAX_ORDER cur_pfn limit of
        None \<Rightarrow> Inl Out_of_fuel
      | Some k \<Rightarrow>
          ebind (get_node_by_pfn s cur_pfn) (\<lambda>_.
          let s = upd_node cur_pfn (setup_free_node r k) s
          in ebind (insert_node cur_pfn r k s) (\<lambda>s.
             init_region_loop (cur_pfn + 2 ^ k) limit r s)))"
  by auto
termination
  by (relation "measure (\<lambda>(cur, limit, _). limit - cur)") (auto intro!: diff_less_mono2)

declare init_region_loop.simps [simp del]

definition init_region :: "nat \<Rightarrow> nat \<Rightarrow> nat \<Rightarrow> u32 \<Rightarrow> palloc_state \<Rightarrow> palloc_state res" where
  "init_region start_pfn count r tags s =
     (if MAX_PALLOC_REGION_COUNT \<le> r then Inl Undefined
      else
        let s = s\<lparr>num_pages_total := num_pages_total s + of_nat count\<rparr>;
            s = upd_region r (\<lambda>rg. rg\<lparr>pr_tags := tags, pr_total_pages := pr_total_pages rg + of_nat count,
                                     pr_avail_pages := pr_avail_pages rg + of_nat count\<rparr>) s
        in init_region_loop start_pfn (start_pfn + count) r s)"

end
