(* ===== verification/Palloc_Buddy.thy ===== *)
theory Palloc_Buddy
  imports Palloc
begin

text \<open>
  Correctness of the buddy allocator. The proof has three layers: the free lists of the regions as
  sequences of blocks, the partition of the managed frames into aligned blocks (tiles), and the
  public operations with their counters and locks.
\<close>

section \<open>Free lists\<close>

definition links :: "palloc_node \<Rightarrow> bool \<times> nat" where
  "links n = (pn_has_next n, pn_next n)"

definition core :: "palloc_node \<Rightarrow> nat \<times> nat \<times> bool \<times> bool" where
  "core n = (pn_order n, pn_region n, pn_alloc n, pn_avail n)"

fun flist :: "(nat \<Rightarrow> palloc_node) \<Rightarrow> palloc_node \<Rightarrow> nat list \<Rightarrow> bool" where
  "flist nd b [] \<longleftrightarrow> \<not> pn_has_next b \<and> pn_next b = 0"
| "flist nd b (p # ps) \<longleftrightarrow> pn_has_next b \<and> pn_next b = p \<and> flist nd (nd p) ps"

lemma flist_cong:
  "links b' = links b \<Longrightarrow> (\<And>p. p \<in> set ps \<Longrightarrow> links (nd' p) = links (nd p)) \<Longrightarrow> flist nd' b' ps = flist nd b ps"
  by (induction ps arbitrary: b b') (auto simp: links_def)

lemma flist_has_next: "flist nd b ps \<Longrightarrow> pn_has_next b \<longleftrightarrow> ps \<noteq> []"
  by (cases ps) auto

type_synonym free_map = "nat \<Rightarrow> nat \<Rightarrow> nat list"

definition lupd :: "free_map \<Rightarrow> nat \<Rightarrow> nat \<Rightarrow> nat list \<Rightarrow> free_map" where
  "lupd L r k ps = L(r := (L r)(k := ps))"

lemma lupd_apply [simp]: "lupd L r k ps r' k' = (if r' = r \<and> k' = k then ps else L r' k')"
  by (simp add: lupd_def)

text \<open>
  \<open>free_lists s L\<close>: the free list of every region and order enumerates \<open>L r k\<close>, no block is on two
  lists, and the list heads use no field but their link, so that a head is the zero word exactly when
  its list is empty.
\<close>

definition head_ok :: "palloc_node \<Rightarrow> bool" where
  "head_ok b \<longleftrightarrow> core b = (0, 0, False, False)"

definition free_lists :: "palloc_state \<Rightarrow> free_map \<Rightarrow> bool" where
  "free_lists s L \<longleftrightarrow>
     (\<forall>r k. r < MAX_PALLOC_REGION_COUNT \<longrightarrow> k \<le> PALLOC_MAX_ORDER \<longrightarrow>
        flist (nodes s) (buddy s r k) (L r k) \<and> head_ok (buddy s r k)) \<and>
     (\<forall>r k. distinct (L r k)) \<and>
     (\<forall>r k r' k' p. p \<in> set (L r k) \<longrightarrow> p \<in> set (L r' k') \<longrightarrow> r = r' \<and> k = k') \<and>
     (\<forall>r k p. p \<in> set (L r k) \<longrightarrow> is_pfn_valid s p \<and> r < MAX_PALLOC_REGION_COUNT \<and> k \<le> PALLOC_MAX_ORDER)"

definition on_list :: "free_map \<Rightarrow> nat \<Rightarrow> bool" where
  "on_list L p \<longleftrightarrow> (\<exists>r k. p \<in> set (L r k))"

lemma free_listsD:
  assumes "free_lists s L"
  shows "r < 32 \<Longrightarrow> k \<le> 15 \<Longrightarrow> flist (nodes s) (buddy s r k) (L r k)"
    and "r < 32 \<Longrightarrow> k \<le> 15 \<Longrightarrow> head_ok (buddy s r k)"
    and "distinct (L r k)"
    and "p \<in> set (L r k) \<Longrightarrow> p \<in> set (L r' k') \<Longrightarrow> r = r' \<and> k = k'"
    and "p \<in> set (L r k) \<Longrightarrow> is_pfn_valid s p"
    and "p \<in> set (L r k) \<Longrightarrow> r < 32" and "p \<in> set (L r k) \<Longrightarrow> k \<le> 15"
  using assms unfolding free_lists_def by blast+

lemma node_value_set_iff:
  assumes "free_lists s L" "r < 32" "k \<le> 15"
  shows "node_value_set (buddy s r k) \<longleftrightarrow> L r k \<noteq> []"
  using free_listsD(1,2) [OF assms(1), of r k] assms(2,3)
  by (cases "L r k") (auto simp: head_ok_def core_def node_value_set_def)

text \<open>What the list operations leave alone: everything but the links.\<close>

definition env :: "palloc_state \<Rightarrow> _" where
  "env s = (pfn_start s, pfn_limit s, pfn_entry_count s, region_count s, num_pages_total s, num_pages_alloc s,
     (\<lambda>r. (pr_tags (regions s r), pr_total_pages (regions s r), pr_avail_pages (regions s r), pr_locked (regions s r))))"

definition cores :: "palloc_state \<Rightarrow> nat \<Rightarrow> nat \<times> nat \<times> bool \<times> bool" where
  "cores s = (\<lambda>p. core (nodes s p))"

lemma envD:
  assumes "env s' = env s"
  shows "pfn_start s' = pfn_start s" "pfn_limit s' = pfn_limit s" "pfn_entry_count s' = pfn_entry_count s"
    "region_count s' = region_count s" "num_pages_total s' = num_pages_total s" "num_pages_alloc s' = num_pages_alloc s"
    "pr_tags (regions s' r) = pr_tags (regions s r)" "pr_total_pages (regions s' r) = pr_total_pages (regions s r)"
    "pr_avail_pages (regions s' r) = pr_avail_pages (regions s r)" "pr_locked (regions s' r) = pr_locked (regions s r)"
    "is_pfn_valid s' p = is_pfn_valid s p"
  using assms by (auto simp: env_def is_pfn_valid_def fun_eq_iff)

lemma nodes_upd [simp]:
  "nodes (upd_node p f s) q = (if q = p then f (nodes s p) else nodes s q)"
  "nodes (upd_region r g s) = nodes s" "nodes (upd_buddy r k f s) = nodes s"
  "regions (upd_node p f s) = regions s"
  "regions (upd_region r g s) = (regions s)(r := g (regions s r))"
  "buddy (upd_buddy r k f s) r' k' = (if r' = r \<and> k' = k then f (buddy s r k) else buddy s r' k')"
  by (auto simp: upd_node_def upd_region_def upd_buddy_def)

lemma env_upd [simp]: "env (upd_node p f s) = env s" "env (upd_buddy r k f s) = env s"
  by (auto simp: env_def upd_node_def upd_buddy_def upd_region_def fun_eq_iff)

lemma cores_upd [simp]:
  "cores (upd_node p f s) = (cores s)(p := core (f (nodes s p)))"
  "cores (upd_buddy r k f s) = cores s" "cores (upd_region r g s) = cores s"
  by (auto simp: cores_def)

lemma is_pfn_valid_upd [simp]:
  "is_pfn_valid (upd_node p f s) = is_pfn_valid s" "is_pfn_valid (upd_buddy r k b s) = is_pfn_valid s"
  "is_pfn_valid (upd_region r g s) = is_pfn_valid s"
  by (auto simp: is_pfn_valid_def upd_node_def upd_buddy_def upd_region_def fun_eq_iff)

lemma is_pfn_valid_iff: "is_pfn_valid s p \<longleftrightarrow> pfn_start s \<le> p \<and> p < pfn_limit s"
  by (auto simp: is_pfn_valid_def)

lemma get_node_valid [simp]: "is_pfn_valid s p \<Longrightarrow> get_node_by_pfn s p = Inr (nodes s p)"
  by (simp add: get_node_by_pfn_def is_pfn_valid_def)

lemma free_lists_upd_node:
  assumes "free_lists s L" and "\<not> on_list L p \<or> (\<forall>n. links (f n) = links n)"
  shows "free_lists (upd_node p f s) L"
  unfolding free_lists_def
proof (intro conjI allI impI)
  fix r k assume rk: "r < (32::nat)" "k \<le> (15::nat)"
  have "flist (nodes (upd_node p f s)) (buddy s r k) (L r k) = flist (nodes s) (buddy s r k) (L r k)"
    using assms(2) by (intro flist_cong) (auto simp: on_list_def)
  then show "flist (nodes (upd_node p f s)) (buddy (upd_node p f s) r k) (L r k)"
    using free_listsD(1) [OF assms(1) rk] by simp
  show "head_ok (buddy (upd_node p f s) r k)" using free_listsD(2) [OF assms(1) rk] by simp
qed (use free_listsD(3-7) [OF assms(1)] in auto)

lemma free_lists_upd_region:
  assumes "free_lists s L" "\<And>rg. pr_buddies (g rg) = pr_buddies rg"
  shows "free_lists (upd_region r g s) L"
  using assms by (simp add: free_lists_def)

lemma free_lists_cong:
  assumes "free_lists s L" "nodes s' = nodes s" "regions s' = regions s" "is_pfn_valid s' = is_pfn_valid s"
  shows "free_lists s' L"
  using assms by (simp add: free_lists_def)

lemma free_lists_set_head:
  assumes fl: "free_lists s L" and rk: "r < 32" "k \<le> 15"
    and new: "flist (nodes s) (f (buddy s r k)) ps" "core (f (buddy s r k)) = core (buddy s r k)"
    and ps: "distinct ps" "\<And>p. p \<in> set ps \<Longrightarrow> is_pfn_valid s p \<and> (p \<in> set (L r k) \<or> \<not> on_list L p)"
  shows "free_lists (upd_buddy r k f s) (lupd L r k ps)"
  unfolding free_lists_def
proof (intro conjI allI impI)
  fix r' k' assume rk': "r' < (32::nat)" "k' \<le> (15::nat)"
  show "flist (nodes (upd_buddy r k f s)) (buddy (upd_buddy r k f s) r' k') (lupd L r k ps r' k')"
    using new(1) free_listsD(1) [OF fl rk'] by auto
  show "head_ok (buddy (upd_buddy r k f s) r' k')"
    using new(2) free_listsD(2) [OF fl rk'] by (auto simp: head_ok_def)
next
  fix r1 k1 show "distinct (lupd L r k ps r1 k1)" using ps(1) free_listsD(3) [OF fl] by simp
next
  fix r1 k1 r2 k2 p assume "p \<in> set (lupd L r k ps r1 k1)" "p \<in> set (lupd L r k ps r2 k2)"
  then show "r1 = r2" "k1 = k2"
    using ps(2) [of p] free_listsD(4) [OF fl, of p] by (auto simp: on_list_def split: if_splits)
next
  fix r1 k1 p assume "p \<in> set (lupd L r k ps r1 k1)"
  then show "is_pfn_valid (upd_buddy r k f s) p" "r1 < 32" "k1 \<le> 15"
    using ps(2) [of p] free_listsD(5-7) [OF fl, of p r1 k1] rk by (auto split: if_splits)
qed


lemma insert_node_lists:
  assumes fl: "free_lists s L" and p: "is_pfn_valid s p" "\<not> on_list L p" and rk: "r < 32" "k \<le> 15"
  shows "\<exists>s'. insert_node p r k s = Inr s' \<and> free_lists s' (lupd L r k (p # L r k)) \<and>
     env s' = env s \<and> cores s' = cores s"
proof -
  define s1 where
    "s1 = upd_node p (\<lambda>n. n\<lparr>pn_next := pn_next (buddy s r k), pn_has_next := pn_has_next (buddy s r k)\<rparr>) s"
  define s2 where "s2 = upd_buddy r k (\<lambda>b. b\<lparr>pn_has_next := True, pn_next := p\<rparr>) s1"
  have fl1: "free_lists s1 L" unfolding s1_def using fl p(2) by (rule free_lists_upd_node [OF _ disjI1])
  have np: "p \<notin> set (L r k)" using p(2) by (auto simp: on_list_def)
  have "flist (nodes s1) (nodes s1 p) (L r k) = flist (nodes s1) (buddy s r k) (L r k)"
    by (intro flist_cong) (auto simp: s1_def links_def)
  then have "flist (nodes s1) (nodes s1 p) (L r k)" using free_listsD(1) [OF fl1 rk] by (simp add: s1_def)
  then have "free_lists s2 (lupd L r k (p # L r k))"
    unfolding s2_def using np p free_listsD(3,5) [OF fl]
    by (intro free_lists_set_head [OF fl1 rk]) (auto simp: core_def s1_def)
  moreover have "insert_node p r k s = Inr s2" using p(1) by (simp add: insert_node_def s2_def s1_def Let_def)
  moreover have "env s2 = env s" "cores s2 = cores s"
    by (auto simp: s2_def s1_def core_def cores_def fun_eq_iff)
  ultimately show ?thesis by blast
qed

text \<open>Taking the first block off a list.\<close>

definition pop_list :: "nat \<Rightarrow> nat \<Rightarrow> nat \<Rightarrow> palloc_state \<Rightarrow> palloc_state" where
  "pop_list r k p s = upd_buddy r k (\<lambda>b. b\<lparr>pn_next := pn_next (nodes s p), pn_has_next := pn_has_next (nodes s p)\<rparr>) s"

lemma pop_list_lists:
  assumes fl: "free_lists s L" and hd: "L r k = p # ps"
  shows "free_lists (pop_list r k p s) (lupd L r k ps)"
    and "env (pop_list r k p s) = env s" and "cores (pop_list r k p s) = cores s"
    and "nodes (pop_list r k p s) = nodes s"
    and "pn_next (buddy s r k) = p" and "is_pfn_valid s p" and "\<not> on_list (lupd L r k ps) p"
proof -
  have rk: "r < 32" "k \<le> 15" using free_listsD(6,7) [OF fl, of p r k] hd by auto
  have f: "flist (nodes s) (buddy s r k) (p # ps)" using free_listsD(1) [OF fl rk] hd by simp
  then have "flist (nodes s) ((buddy s r k)\<lparr>pn_next := pn_next (nodes s p), pn_has_next := pn_has_next (nodes s p)\<rparr>) ps"
    using flist_cong [of "(buddy s r k)\<lparr>pn_next := pn_next (nodes s p), pn_has_next := pn_has_next (nodes s p)\<rparr>"
        "nodes s p" ps "nodes s" "nodes s"] by (simp add: links_def)
  then show "free_lists (pop_list r k p s) (lupd L r k ps)"
    unfolding pop_list_def using free_listsD(3,5) [OF fl, where r = r and k = k] hd
    by (intro free_lists_set_head [OF fl rk]) (auto simp: core_def)
  show "pn_next (buddy s r k) = p" using f by simp
  show "is_pfn_valid s p" using free_listsD(5) [OF fl, of p r k] hd by simp
  show "\<not> on_list (lupd L r k ps) p"
    using free_listsD(4) [OF fl, of p r k] free_listsD(3) [OF fl, of r k] hd by (auto simp: on_list_def)
qed (auto simp: pop_list_def)

lemma flist_append_links:
  "flist nd b (us @ p # ps) \<Longrightarrow> links (if us = [] then b else nd (last us)) = (True, p) \<and> flist nd (nd p) ps"
  by (induction us arbitrary: b) (auto simp: links_def)

lemma flist_unlink:
  assumes "flist nd b (us @ q # p # ps)" "distinct (us @ q # p # ps)"
    and "\<And>x. x \<noteq> q \<Longrightarrow> x \<noteq> p \<Longrightarrow> links (nd' x) = links (nd x)" "links (nd' q) = links (nd p)"
  shows "flist nd' b (us @ q # ps)"
  using assms(1,2)
proof (induction us arbitrary: b)
  case Nil
  have "x \<noteq> q \<and> x \<noteq> p" if "x \<in> set ps" for x using that Nil.prems(2) by auto
  then have "flist nd' (nd' q) ps = flist nd (nd p) ps"
    using assms(3,4) by (intro flist_cong) auto
  then show ?case using Nil.prems by simp
next
  case (Cons u us)
  then have "flist nd' (nd u) (us @ q # ps)" by simp
  moreover have "links (nd' u) = links (nd u)" using Cons.prems(2) assms(3) by auto
  ultimately have "flist nd' (nd' u) (us @ q # ps)"
    using flist_cong [of "nd' u" "nd u" "us @ q # ps" nd' nd'] by simp
  then show ?case using Cons.prems(1) by simp
qed

lemma valid_list_length:
  assumes "free_lists s L" shows "length (L r k) \<le> pfn_limit s - pfn_start s"
proof -
  have "set (L r k) \<subseteq> {pfn_start s ..< pfn_limit s}"
    using free_listsD(5) [OF assms] by (auto simp: is_pfn_valid_iff)
  then have "card (set (L r k)) \<le> pfn_limit s - pfn_start s"
    using card_mono [of "{pfn_start s ..< pfn_limit s}"] by fastforce
  then show ?thesis using free_listsD(3) [OF assms, of r k] by (simp add: distinct_card)
qed

lemma remove_node_loop_unlinks:
  assumes fl: "flist (nodes s) b (us @ q # vs @ p # ps)" and "distinct (us @ q # vs @ p # ps)"
    and "\<forall>x\<in>set (us @ q # vs @ p # ps). is_pfn_valid s x" and "length vs < fuel"
  shows "remove_node_loop fuel p q s =
     Inr (let z = last (q # vs) in
          upd_node p (\<lambda>n. n\<lparr>pn_has_next := False, pn_next := 0\<rparr>)
            (upd_node z (\<lambda>n. n\<lparr>pn_has_next := pn_has_next (nodes s p), pn_next := pn_next (nodes s p)\<rparr>) s))"
  using assms
proof (induction vs arbitrary: us q fuel)
  case Nil
  then obtain f where "fuel = Suc f" by (cases fuel) auto
  moreover have "pn_next (nodes s q) = p" using flist_append_links [OF Nil.prems(1)] by auto
  ultimately show ?case using Nil.prems(3) by simp
next
  case (Cons v vs)
  then obtain f where f: "fuel = Suc f" "length vs < f" by (cases fuel) auto
  have nx: "pn_next (nodes s q) = v" using flist_append_links [OF Cons.prems(1)] by auto
  have "pn_has_next (nodes s v)"
    using flist_append_links [of "nodes s" b "us @ [q]" v "vs @ p # ps"] Cons.prems(1)
    by (cases vs) auto
  moreover have "remove_node_loop f p v s =
     Inr (let z = last (v # vs) in
          upd_node p (\<lambda>n. n\<lparr>pn_has_next := False, pn_next := 0\<rparr>)
            (upd_node z (\<lambda>n. n\<lparr>pn_has_next := pn_has_next (nodes s p), pn_next := pn_next (nodes s p)\<rparr>) s))"
    using Cons.IH [of "us @ [q]" v f] Cons.prems f by simp
  ultimately show ?case using nx Cons.prems(2,3) by (simp add: f)
qed


lemma set_links_commute:
  "b\<lparr>pn_next := x, pn_has_next := y\<rparr> = (b::palloc_node)\<lparr>pn_has_next := y, pn_next := x\<rparr>"
  by (cases b) simp

lemma remove_node_head:
  assumes fl: "free_lists s L" and hd: "L r k = p # ps"
  shows "remove_node p r k s =
     Inr (upd_node p (\<lambda>n. n\<lparr>pn_has_next := False, pn_next := 0\<rparr>) (pop_list r k p s))"
  using pop_list_lists(5,6) [OF fl hd]
  by (simp add: remove_node_def pop_list_def Let_def set_links_commute)

lemma free_lists_unlink:
  assumes fl: "free_lists s L" and xs: "L r k = us @ q # p # ps"
    and nd: "\<And>x. x \<noteq> q \<Longrightarrow> x \<noteq> p \<Longrightarrow> links (nodes s' x) = links (nodes s x)"
      "links (nodes s' q) = links (nodes s p)"
    and same: "regions s' = regions s" "is_pfn_valid s' = is_pfn_valid s"
  shows "free_lists s' (lupd L r k (us @ q # ps))"
proof -
  have in_rk: "q \<in> set (L r k)" "p \<in> set (L r k)" using xs by auto
  have dist: "distinct (us @ q # p # ps)" using free_listsD(3) [OF fl, of r k] xs by simp
  show ?thesis
    unfolding free_lists_def same
  proof (intro conjI allI impI)
    fix r' k' assume rk': "r' < (32::nat)" "k' \<le> (15::nat)"
    show "flist (nodes s') (buddy s r' k') (lupd L r k (us @ q # ps) r' k')"
    proof (cases "r' = r \<and> k' = k")
      case True
      then show ?thesis
        using flist_unlink [OF _ dist, of "nodes s" "buddy s r k" "nodes s'"] free_listsD(1) [OF fl rk'] xs nd
        by auto
    next
      case False
      then have "q \<notin> set (L r' k')" "p \<notin> set (L r' k')" using free_listsD(4) [OF fl] in_rk by blast+
      then have "flist (nodes s') (buddy s r' k') (L r' k') = flist (nodes s) (buddy s r' k') (L r' k')"
        using nd(1) by (intro flist_cong) metis+
      with False show ?thesis using free_listsD(1) [OF fl rk'] by auto
    qed
    show "head_ok (buddy s r' k')" using free_listsD(2) [OF fl rk'] .
  next
    fix r1 k1 show "distinct (lupd L r k (us @ q # ps) r1 k1)"
      using dist free_listsD(3) [OF fl] by auto
  next
    fix r1 k1 r2 k2 x
    assume "x \<in> set (lupd L r k (us @ q # ps) r1 k1)" "x \<in> set (lupd L r k (us @ q # ps) r2 k2)"
    then have "x \<in> set (L r1 k1)" "x \<in> set (L r2 k2)" using xs by (auto split: if_splits)
    then show "r1 = r2" "k1 = k2" using free_listsD(4) [OF fl] by blast+
  next
    fix r1 k1 x assume "x \<in> set (lupd L r k (us @ q # ps) r1 k1)"
    then have "x \<in> set (L r1 k1)" using xs by (auto split: if_splits)
    then show "is_pfn_valid s x" "r1 < 32" "k1 \<le> 15" using free_listsD(5-7) [OF fl] by blast+
  qed
qed

lemma remove_node_lists:
  assumes fl: "free_lists s L" and p: "p \<in> set (L r k)"
  shows "\<exists>s'. remove_node p r k s = Inr s' \<and> free_lists s' (lupd L r k (remove1 p (L r k))) \<and>
     env s' = env s \<and> cores s' = cores s"
proof -
  have rk: "r < 32" "k \<le> 15" using free_listsD(6,7) [OF fl p] .
  let ?cut = "\<lambda>n. n\<lparr>pn_has_next := False, pn_next := 0\<rparr>"
  obtain us ps where xs: "L r k = us @ p # ps" "p \<notin> set us" using p by (meson split_list_first)
  then have rem: "remove1 p (L r k) = us @ ps" by (simp add: remove1_append)
  show ?thesis
  proof (cases us)
    case Nil
    then have hd: "L r k = p # ps" using xs by simp
    have "free_lists (upd_node p ?cut (pop_list r k p s)) (lupd L r k ps)"
      using pop_list_lists(1,7) [OF fl hd] by (intro free_lists_upd_node disjI1)
    then show ?thesis
      using remove_node_head [OF fl hd] pop_list_lists(2-4) [OF fl hd] Nil rem
      by (auto simp: core_def cores_def fun_eq_iff)
  next
    case (Cons h vs)
    define z where "z = last (h # vs)"
    have us: "us = butlast (h # vs) @ [z]" using Cons by (simp add: z_def)
    define s' where "s' = upd_node p ?cut
        (upd_node z (\<lambda>n. n\<lparr>pn_has_next := pn_has_next (nodes s p), pn_next := pn_next (nodes s p)\<rparr>) s)"
    have f: "flist (nodes s) (buddy s r k) ([] @ h # vs @ p # ps)" and dist: "distinct ([] @ h # vs @ p # ps)"
      and val: "\<forall>x\<in>set ([] @ h # vs @ p # ps). is_pfn_valid s x"
      using free_listsD(1) [OF fl rk] free_listsD(3) [OF fl, of r k] free_listsD(5) [OF fl, of _ r k] xs(1) Cons
      by auto
    have len: "length vs < pfn_limit s - pfn_start s"
      using valid_list_length [OF fl, of r k] xs(1) Cons by simp
    have "pn_has_next (nodes s h)" using f by (cases vs) auto
    then have "remove_node p r k s = Inr s'"
      using remove_node_loop_unlinks [OF f dist val len] f val dist
      by (auto simp: remove_node_def Let_def s'_def z_def)
    moreover have "z \<noteq> p" using dist us Cons by (auto simp: z_def)
    then have "free_lists s' (lupd L r k (butlast (h # vs) @ z # ps))"
      using xs(1) us by (intro free_lists_unlink [OF fl, of r k "butlast (h # vs)" z p ps])
        (auto simp: s'_def links_def)
    moreover have "remove1 p (L r k) = butlast (h # vs) @ z # ps" using rem us by simp
    moreover have "env s' = env s" "cores s' = cores s" by (auto simp: s'_def core_def cores_def fun_eq_iff)
    ultimately show ?thesis by auto
  qed
qed

section \<open>Tiles\<close>

text \<open>
  A tile is an aligned block of \<open>2 ^ k\<close> frames; \<open>T p = Some (r, k, a)\<close> says that a tile of order \<open>k\<close>
  of region \<open>r\<close> starts at \<open>p\<close> and is allocated or free.
\<close>

type_synonym tiles = "nat \<rightharpoonup> nat \<times> nat \<times> bool"

definition block :: "nat \<Rightarrow> nat \<Rightarrow> nat set" where
  "block p k = {p ..< p + 2 ^ k}"

lemma head_in_block [simp]: "p \<in> block p k"
  by (simp add: block_def)

lemma finite_block [simp]: "finite (block p k)" and card_block [simp]: "card (block p k) = 2 ^ k"
  by (simp_all add: block_def)

lemma in_block_iff:
  assumes "2 ^ k dvd p" shows "x \<in> block p k \<longleftrightarrow> x div 2 ^ k = p div 2 ^ k"
proof -
  obtain c where c: "p = 2 ^ k * c" using assms by (auto elim: dvdE)
  then have "x \<in> block p k \<longleftrightarrow> 2 ^ k * c \<le> x \<and> x < 2 ^ k * Suc c" by (auto simp: block_def)
  also have "\<dots> \<longleftrightarrow> x div 2 ^ k = c" by (auto simp: div_nat_eqI dividend_less_times_div)
  finally show ?thesis using c by simp
qed

lemma block_nested:
  assumes "2 ^ k dvd p" "2 ^ j dvd q" "k \<le> j" "x \<in> block p k" "x \<in> block q j"
  shows "block p k \<subseteq> block q j"
proof
  fix y assume "y \<in> block p k"
  then have yx: "y div 2 ^ k = x div 2 ^ k" using assms(1,4) by (simp add: in_block_iff)
  have "(2::nat) ^ j = 2 ^ k * 2 ^ (j - k)" using assms(3) by (simp flip: power_add)
  then have "y div 2 ^ j = x div 2 ^ j" using yx by (simp add: div_mult2_eq)
  then show "y \<in> block q j" using assms(2,5) by (simp add: in_block_iff)
qed

lemma block_Suc: "block p (Suc k) = block p k \<union> block (p + 2 ^ k) k"
  by (auto simp: block_def)

lemma block_halves_disjoint: "block p k \<inter> block (p + 2 ^ k) k = {}"
  by (auto simp: block_def)

definition tiling :: "nat \<Rightarrow> nat \<Rightarrow> tiles \<Rightarrow> bool" where
  "tiling lo hi T \<longleftrightarrow>
     (\<forall>p r k a. T p = Some (r, k, a) \<longrightarrow>
        0 < p \<and> lo \<le> p \<and> p + 2 ^ k \<le> hi \<and> 2 ^ k dvd p \<and> k \<le> PALLOC_MAX_ORDER \<and> r < MAX_PALLOC_REGION_COUNT) \<and>
     (\<forall>p r k a q r' k' a'. T p = Some (r, k, a) \<longrightarrow> T q = Some (r', k', a') \<longrightarrow> p \<noteq> q \<longrightarrow>
        block p k \<inter> block q k' = {})"

lemma tilingD:
  assumes "tiling lo hi T" "T p = Some (r, k, a)"
  shows "0 < p" "lo \<le> p" "p + 2 ^ k \<le> hi" "2 ^ k dvd p" "k \<le> 15" "r < 32"
    "T q = Some (r', k', a') \<Longrightarrow> p \<noteq> q \<Longrightarrow> block p k \<inter> block q k' = {}"
  using assms unfolding tiling_def by blast+

lemma tiling_unique:
  assumes "tiling lo hi T" "T p = Some (r, k, a)" "T q = Some (r', k', a')" "x \<in> block p k" "x \<in> block q k'"
  shows "p = q"
  using tilingD(7) [OF assms(1-3)] assms(4,5) by blast

lemma tiling_finite:
  assumes "tiling lo hi T" shows "finite (dom T)"
proof (rule finite_subset)
  show "dom T \<subseteq> {..<hi}"
  proof
    fix p assume "p \<in> dom T"
    then obtain r k a where "T p = Some (r, k, a)" by auto
    then have "p + 2 ^ k \<le> hi" using tilingD(3) [OF assms] by blast
    moreover have "(0::nat) < 2 ^ k" by simp
    ultimately show "p \<in> {..<hi}" unfolding lessThan_iff by linarith
  qed
qed simp

lemma tiling_set_alloc:
  assumes "tiling lo hi T" "T p = Some (r, k, a)"
  shows "tiling lo hi (T(p \<mapsto> (r, k, b)))"
  unfolding tiling_def
proof (intro conjI allI impI)
  fix q r' k' a' q2 r2 k2 a2
  assume "(T(p \<mapsto> (r, k, b))) q = Some (r', k', a')" "(T(p \<mapsto> (r, k, b))) q2 = Some (r2, k2, a2)" "q \<noteq> q2"
  moreover from this(1,2) obtain c d where "T q = Some (r', k', c)" "T q2 = Some (r2, k2, d)"
    using assms(2) by (auto split: if_splits)
  ultimately show "block q k' \<inter> block q2 k2 = {}" using tilingD(7) [OF assms(1)] by blast
qed (use tilingD(1-6) [OF assms(1)] assms(2) in \<open>auto split: if_splits\<close>)

text \<open>Splitting a tile into its two halves.\<close>

definition split_tile :: "tiles \<Rightarrow> nat \<Rightarrow> nat \<Rightarrow> nat \<Rightarrow> tiles" where
  "split_tile T p r k = T(p \<mapsto> (r, k, False), p + 2 ^ k \<mapsto> (r, k, False))"

lemma split_tile_fresh:
  assumes "tiling lo hi T" "T p = Some (r, Suc k, a)" shows "T (p + 2 ^ k) = None"
proof (rule ccontr)
  assume "T (p + 2 ^ k) \<noteq> None"
  then obtain r' k' a' where "T (p + 2 ^ k) = Some (r', k', a')" by auto
  moreover have "p + 2 ^ k \<in> block p (Suc k)" by (simp add: block_def)
  ultimately have "p = p + 2 ^ k" using tiling_unique [OF assms] head_in_block by blast
  then show False by simp
qed

lemma tiling_split:
  assumes til: "tiling lo hi T" and p: "T p = Some (r, Suc k, False)"
  shows "tiling lo hi (split_tile T p r k)"
  unfolding tiling_def
proof (intro conjI allI impI)
  fix q r' j a r2 q2 j2 a2
  let ?T = "split_tile T p r k"
  assume q: "?T q = Some (r', j, a)" and q2: "?T q2 = Some (r2, j2, a2)" and ne: "q \<noteq> q2"
  have half: "block q j \<subseteq> block p (Suc k)" if "?T q = Some (r', j, a)" "q = p \<or> q = p + 2 ^ k" for q r' j a
    using that by (auto simp: split_tile_def block_Suc split: if_splits)
  have old: "T q = Some (r', j, a) \<and> q \<noteq> p" if "?T q = Some (r', j, a)" "\<not> (q = p \<or> q = p + 2 ^ k)" for q r' j a
    using that by (auto simp: split_tile_def)
  show "block q j \<inter> block q2 j2 = {}"
  proof (cases "(q = p \<or> q = p + 2 ^ k) \<and> (q2 = p \<or> q2 = p + 2 ^ k)")
    case True
    then show ?thesis using q q2 ne block_halves_disjoint [of p k]
      by (auto simp: split_tile_def split: if_splits)
  next
    case False
    then consider "q = p \<or> q = p + 2 ^ k" "T q2 = Some (r2, j2, a2)" "q2 \<noteq> p"
      | "T q = Some (r', j, a)" "q \<noteq> p" "q2 = p \<or> q2 = p + 2 ^ k"
      | "T q = Some (r', j, a)" "T q2 = Some (r2, j2, a2)"
      using old [OF q] old [OF q2] by blast
    then show ?thesis
      using half [OF q] half [OF q2] tilingD(7) [OF til] p ne by cases blast+
  qed
next
  fix q r' j a
  assume q: "split_tile T p r k q = Some (r', j, a)"
  note P = tilingD [OF til p]
  have d: "2 ^ k dvd p" using P(4) by (rule power_le_dvd) simp
  show "0 < q" "lo \<le> q" "q + 2 ^ j \<le> hi" "2 ^ j dvd q" "j \<le> 15" "r' < 32"
    using q tilingD(1-6) [OF til] P(1-6) d by (auto simp: split_tile_def split: if_splits)
qed

text \<open>Joining two halves; \<open>p\<close> is the lower one.\<close>

definition join_tiles :: "tiles \<Rightarrow> nat \<Rightarrow> nat \<Rightarrow> nat \<Rightarrow> tiles" where
  "join_tiles T p r k = T(p + 2 ^ k := None, p \<mapsto> (r, Suc k, False))"

lemma tiling_join:
  assumes til: "tiling lo hi T" and p: "T p = Some (r, k, False)" "T (p + 2 ^ k) = Some (r, k, False)"
    and al: "2 ^ Suc k dvd p" "k < 15"
  shows "tiling lo hi (join_tiles T p r k)"
  unfolding tiling_def
proof (intro conjI allI impI)
  fix q r' j a r2 q2 j2 a2
  let ?T = "join_tiles T p r k"
  assume q: "?T q = Some (r', j, a)" and q2: "?T q2 = Some (r2, j2, a2)" and ne: "q \<noteq> q2"
  have old: "T q = Some (r', j, a) \<and> block p (Suc k) \<inter> block q j = {}"
    if "?T q = Some (r', j, a)" "q \<noteq> p" for q r' j a
  proof
    show T: "T q = Some (r', j, a)" using that by (auto simp: join_tiles_def split: if_splits)
    have "q \<noteq> p + 2 ^ k" using that by (auto simp: join_tiles_def)
    then show "block p (Suc k) \<inter> block q j = {}"
      using tilingD(7) [OF til p(1) T] tilingD(7) [OF til p(2) T] that(2) unfolding block_Suc by blast
  qed
  have new: "r' = r \<and> j = Suc k \<and> a = False" if "?T p = Some (r', j, a)" for r' j a
    using that by (auto simp: join_tiles_def)
  show "block q j \<inter> block q2 j2 = {}"
    using old [OF q] old [OF q2] new q q2 ne tilingD(7) [OF til, of q r' j a q2 r2 j2 a2]
    by (cases "q = p"; cases "q2 = p") auto
next
  fix q r' j a
  assume q: "join_tiles T p r k q = Some (r', j, a)"
  have "p + 2 ^ Suc k \<le> hi" using tilingD(3) [OF til p(2)] by simp
  then show "0 < q" "lo \<le> q" "q + 2 ^ j \<le> hi" "2 ^ j dvd q" "j \<le> 15" "r' < 32"
    using q tilingD(1-6) [OF til] p al by (auto simp: join_tiles_def split: if_splits)
qed

section \<open>Buddies and coalescing\<close>

definition pair_pfn :: "nat \<Rightarrow> nat \<Rightarrow> nat" where
  "pair_pfn p k = (if 2 ^ Suc k dvd p then p else p - 2 ^ k)"

definition buddy_pfn :: "nat \<Rightarrow> nat \<Rightarrow> nat" where
  "buddy_pfn p k = (if 2 ^ Suc k dvd p then p + 2 ^ k else p - 2 ^ k)"

lemma buddy_pfn_cases:
  assumes "2 ^ k dvd (p::nat)"
  obtains "2 ^ Suc k dvd p" "pair_pfn p k = p" "buddy_pfn p k = p + 2 ^ k"
  | "2 ^ Suc k dvd p - 2 ^ k" "\<not> 2 ^ Suc k dvd p" "2 ^ k \<le> p" "pair_pfn p k = p - 2 ^ k" "buddy_pfn p k = p - 2 ^ k"
proof -
  obtain c where c: "p = 2 ^ k * c" using assms by (auto elim: dvdE)
  show ?thesis
  proof (cases "even c")
    case True
    then have "2 ^ Suc k dvd p" using c by (auto simp: mult.assoc)
    then show ?thesis using that(1) by (simp add: pair_pfn_def buddy_pfn_def)
  next
    case False
    then obtain d where d: "c = 2 * d + 1" by (auto elim: oddE)
    have "\<not> 2 ^ Suc k dvd p" using False c by (auto simp: mult.commute [of 2])
    moreover have "p - 2 ^ k = 2 ^ Suc k * d" using c d by (simp add: algebra_simps)
    ultimately show ?thesis using that(2) c d by (simp add: pair_pfn_def buddy_pfn_def)
  qed
qed

lemma buddy_pfn_aligned: "2 ^ k dvd p \<Longrightarrow> 2 ^ k dvd buddy_pfn p k"
  and pair_pfn_aligned: "2 ^ k dvd p \<Longrightarrow> 2 ^ Suc k dvd pair_pfn p k"
  and pair_pfn_set: "2 ^ k dvd p \<Longrightarrow> {p, buddy_pfn p k} = {pair_pfn p k, pair_pfn p k + 2 ^ k}"
  by (erule buddy_pfn_cases; auto)+

lemma buddy_pfn_neq: "2 ^ k dvd p \<Longrightarrow> buddy_pfn p k \<noteq> p"
  by (erule buddy_pfn_cases; auto)

lemma buddies_in_pair:
  "2 ^ k dvd p \<Longrightarrow> p \<in> block (pair_pfn p k) (Suc k)"
  "2 ^ k dvd p \<Longrightarrow> buddy_pfn p k \<in> block (pair_pfn p k) (Suc k)"
  by (erule buddy_pfn_cases; auto simp: block_def less_imp_diff_less trans_less_add2)+

lemma block_aligned_head:
  assumes "2 ^ k dvd p" "2 ^ k dvd q" "q \<in> block p k" shows "p = q"
  using assms by (metis in_block_iff dvd_div_mult_self)

text \<open>The tile that contains the buddy of a tile starts there, unless it contains the tile itself.\<close>

lemma buddy_tile:
  assumes til: "tiling lo hi T" and p: "T p = Some (r, k, a)" and q: "T q = Some (r', j, b)"
    and "buddy_pfn p k \<in> block q j"
  shows "q = buddy_pfn p k \<and> j \<le> k"
proof -
  note P = tilingD [OF til p] and Q = tilingD [OF til q]
  have ne: "q \<noteq> p"
    using block_aligned_head [OF P(4) buddy_pfn_aligned [OF P(4)]] buddy_pfn_neq [OF P(4)] assms(4) p q by auto
  show ?thesis
  proof (cases "j \<le> k")
    case True
    then have "2 ^ j dvd buddy_pfn p k" using buddy_pfn_aligned [OF P(4)] power_le_dvd by blast
    then show ?thesis using block_aligned_head [of j q "buddy_pfn p k"] Q(4) assms(4) True by simp
  next
    case False
    then have "block (pair_pfn p k) (Suc k) \<subseteq> block q j"
      using block_nested [of "Suc k" "pair_pfn p k" j q "buddy_pfn p k"] pair_pfn_aligned [OF P(4)]
        buddies_in_pair [OF P(4)] Q(4) assms(4) by simp
    then have "p \<in> block q j" using buddies_in_pair(1) [OF P(4)] by blast
    then have "p = q" by (rule tiling_unique [OF til p q head_in_block])
    then show ?thesis using ne by simp
  qed
qed

text \<open>
  The allocator joins buddies eagerly: no two free buddies of the same region and order, except
  around the block \<open>h\<close> that is being worked on.
\<close>

definition free_pair :: "tiles \<Rightarrow> nat \<Rightarrow> nat \<Rightarrow> nat \<Rightarrow> bool" where
  "free_pair T p r k \<longleftrightarrow>
     k < PALLOC_MAX_ORDER \<and> 2 ^ Suc k dvd p \<and> T p = Some (r, k, False) \<and> T (p + 2 ^ k) = Some (r, k, False)"

definition coalesced_but :: "tiles \<Rightarrow> nat \<Rightarrow> bool" where
  "coalesced_but T h \<longleftrightarrow> (\<forall>p r k. free_pair T p r k \<longrightarrow> h = p \<or> h = p + 2 ^ k)"

definition coalesced :: "tiles \<Rightarrow> bool" where
  "coalesced T \<longleftrightarrow> (\<forall>p r k. \<not> free_pair T p r k)"

lemma coalesced_imp_but: "coalesced T \<Longrightarrow> coalesced_but T h"
  by (simp add: coalesced_def coalesced_but_def)

lemma coalesced_alloc:
  assumes "coalesced_but T p" shows "coalesced (T(p \<mapsto> (r, k, True)))"
  unfolding coalesced_def
proof (intro allI notI)
  fix q r' j assume fp: "free_pair (T(p \<mapsto> (r, k, True))) q r' j"
  then have "q \<noteq> p" "q + 2 ^ j \<noteq> p" by (auto simp: free_pair_def)
  moreover from this fp have "free_pair T q r' j" by (auto simp: free_pair_def)
  ultimately show False using assms by (auto simp: coalesced_but_def)
qed

lemma coalesced_free:
  assumes "coalesced T" shows "coalesced_but (T(p \<mapsto> (r, k, False))) p"
  using assms by (auto simp: coalesced_def coalesced_but_def free_pair_def split: if_splits)

lemma coalesced_but_split:
  assumes til: "tiling lo hi T" and p: "T p = Some (r, Suc k, False)" and co: "coalesced_but T p"
  shows "coalesced_but (split_tile T p r k) (p + 2 ^ k)"
  unfolding coalesced_but_def
proof (intro allI impI)
  fix q r' j assume fp: "free_pair (split_tile T p r k) q r' j"
  have al: "2 ^ Suc k dvd p" using tilingD(4) [OF til p] .
  consider "q = p" | "q = p + 2 ^ k" | "q + 2 ^ j = p" | "q + 2 ^ j = p + 2 ^ k"
    | "q \<noteq> p" "q \<noteq> p + 2 ^ k" "q + 2 ^ j \<noteq> p" "q + 2 ^ j \<noteq> p + 2 ^ k" by blast
  then show "p + 2 ^ k = q \<or> p + 2 ^ k = q + 2 ^ j"
  proof cases
    case 1
    then show ?thesis using fp by (auto simp: free_pair_def split_tile_def)
  next
    case 3
    then have "j = k" using fp by (auto simp: free_pair_def split_tile_def split: if_splits)
    then have "2 ^ Suc k dvd q" using fp by (simp add: free_pair_def)
    then have "2 ^ Suc k dvd (2::nat) ^ k" using al 3 \<open>j = k\<close> by (metis dvd_add_right_iff)
    then have "(2::nat) ^ Suc k \<le> 2 ^ k" by (rule dvd_imp_le) simp
    then show ?thesis by simp
  next
    case 5
    then have "free_pair T q r' j" using fp by (auto simp: free_pair_def split_tile_def)
    then show ?thesis using co 5 by (auto simp: coalesced_but_def)
  qed simp_all
qed

lemma coalesced_but_join:
  assumes p: "h = p \<or> h = p + 2 ^ k" and co: "coalesced_but T h"
  shows "coalesced_but (join_tiles T p r k) p"
  unfolding coalesced_but_def
proof (intro allI impI, rule ccontr)
  fix q r' j assume fp: "free_pair (join_tiles T p r k) q r' j" and "\<not> (p = q \<or> p = q + 2 ^ j)"
  then have ne: "q \<noteq> p" "q + 2 ^ j \<noteq> p" by auto
  then have "q \<noteq> p + 2 ^ k" "q + 2 ^ j \<noteq> p + 2 ^ k" "free_pair T q r' j"
    using fp by (auto simp: free_pair_def join_tiles_def split: if_splits)
  then show False using co p ne unfolding coalesced_but_def by metis
qed

lemma coalesced_if_no_buddy:
  assumes til: "tiling lo hi T" and p: "T p = Some (r, k, False)" and co: "coalesced_but T p"
    and no: "k = 15 \<or> T (buddy_pfn p k) \<noteq> Some (r, k, False)"
  shows "coalesced T"
  unfolding coalesced_def
proof (intro allI notI)
  fix q r' j assume fp: "free_pair T q r' j"
  then have "p = q \<or> p = q + 2 ^ j" using co by (auto simp: coalesced_but_def)
  then have rk: "r' = r" "j = k" using fp p by (auto simp: free_pair_def)
  have al: "2 ^ Suc k dvd q" using fp rk by (simp add: free_pair_def)
  have "(2::nat) ^ k < 2 ^ Suc k" by simp
  then have "\<not> 2 ^ Suc k dvd (2::nat) ^ k" using dvd_imp_le [of "2 ^ Suc k" "(2::nat) ^ k"] by simp
  then have odd: "\<not> 2 ^ Suc k dvd q + 2 ^ k" using dvd_add_right_iff [OF al] by blast
  from \<open>p = q \<or> p = q + 2 ^ j\<close> have "buddy_pfn p k = q + 2 ^ k \<or> buddy_pfn p k = q"
    using al odd rk unfolding buddy_pfn_def by fastforce
  then show False using fp rk no by (auto simp: free_pair_def)
qed


text \<open>The frames of the free tiles of a region.\<close>

definition free_cover :: "tiles \<Rightarrow> nat \<Rightarrow> nat set" where
  "free_cover T r = {x. \<exists>p k. T p = Some (r, k, False) \<and> x \<in> block p k}"

text \<open>
  Splitting and joining reshape the free tiles only: the same frames stay free in each region and the
  allocated tiles are untouched.
\<close>

definition same_blocks :: "tiles \<Rightarrow> tiles \<Rightarrow> bool" where
  "same_blocks T T' \<longleftrightarrow>
     (\<forall>p r k. T' p = Some (r, k, True) \<longleftrightarrow> T p = Some (r, k, True)) \<and> (\<forall>r. free_cover T' r = free_cover T r)"

lemma same_blocks_refl [simp]: "same_blocks T T"
  by (simp add: same_blocks_def)

lemma same_blocks_trans: "same_blocks T T' \<Longrightarrow> same_blocks T' T'' \<Longrightarrow> same_blocks T T''"
  by (simp add: same_blocks_def)

lemma same_blocks_split:
  assumes til: "tiling lo hi T" and p: "T p = Some (r, Suc k, False)"
  shows "same_blocks T (split_tile T p r k)"
proof -
  have fr: "T (p + 2 ^ k) = None" using split_tile_fresh [OF assms] .
  have "free_cover (split_tile T p r k) r' = free_cover T r'" for r'
  proof (intro set_eqI iffI)
    fix x assume "x \<in> free_cover (split_tile T p r k) r'"
    then show "x \<in> free_cover T r'"
      using p by (fastforce simp: free_cover_def split_tile_def block_Suc split: if_splits)
  next
    fix x assume "x \<in> free_cover T r'"
    then obtain q j where q: "T q = Some (r', j, False)" "x \<in> block q j" by (auto simp: free_cover_def)
    show "x \<in> free_cover (split_tile T p r k) r'"
    proof (cases "q = p")
      case True
      then have "r' = r" "x \<in> block p k \<or> x \<in> block (p + 2 ^ k) k" using q p by (auto simp: block_Suc)
      moreover have "split_tile T p r k p = Some (r, k, False)" "split_tile T p r k (p + 2 ^ k) = Some (r, k, False)"
        by (auto simp: split_tile_def)
      ultimately show ?thesis unfolding free_cover_def by blast
    next
      case False
      then have "split_tile T p r k q = Some (r', j, False)" using q(1) fr by (auto simp: split_tile_def)
      then show ?thesis using q(2) by (auto simp: free_cover_def)
    qed
  qed
  then show ?thesis using p fr by (auto simp: same_blocks_def split_tile_def)
qed

lemma split_join: "T p = Some (r, k, False) \<Longrightarrow> T (p + 2 ^ k) = Some (r, k, False) \<Longrightarrow>
    split_tile (join_tiles T p r k) p r k = T"
  by (auto simp: split_tile_def join_tiles_def fun_eq_iff)

lemma same_blocks_sym: "same_blocks T T' \<Longrightarrow> same_blocks T' T"
  by (simp add: same_blocks_def)

lemma same_blocks_join:
  assumes til: "tiling lo hi T" and p: "T p = Some (r, k, False)" "T (p + 2 ^ k) = Some (r, k, False)"
    and al: "2 ^ Suc k dvd p" "k < 15"
  shows "same_blocks T (join_tiles T p r k)"
proof -
  have "same_blocks (join_tiles T p r k) (split_tile (join_tiles T p r k) p r k)"
    by (rule same_blocks_split [OF tiling_join [OF assms]]) (simp add: join_tiles_def)
  then show ?thesis using split_join [OF p] same_blocks_sym by simp
qed

text \<open>
  In a coalesced tiling fragmentation cannot hide a block: if all frames of an aligned block are
  free, there is a free tile at least as large.
\<close>

lemma coalesced_complete:
  assumes til: "tiling lo hi T" and co: "coalesced T"
    and b: "2 ^ k dvd b" "k \<le> 15" "block b k \<subseteq> free_cover T r"
  shows "\<exists>p j. T p = Some (r, j, False) \<and> k \<le> j"
proof (rule ccontr)
  assume no: "\<not> ?thesis"
  define S where "S = {j. \<exists>p. T p = Some (r, j, False) \<and> p \<in> block b k}"
  have S: "\<exists>j'\<le>j. j' \<in> S" if x: "x \<in> block b k" "x \<in> block p j" "T p = Some (r, j, False)" for x p j
  proof -
    have "block p j \<subseteq> block b k"
      using block_nested [of j p k b x] tilingD(4) [OF til x(3)] b(1) x no by force
    then show ?thesis using x(3) head_in_block unfolding S_def by blast
  qed
  have "b \<in> free_cover T r" using b(3) head_in_block by blast
  then have "S \<noteq> {}" using S [of b] by (auto simp: free_cover_def)
  define j0 where "j0 = (LEAST j. j \<in> S)"
  have "j0 \<in> S" unfolding j0_def using \<open>S \<noteq> {}\<close> by (auto intro: LeastI)
  then obtain p where p: "T p = Some (r, j0, False)" "p \<in> block b k" by (auto simp: S_def)
  have j0: "j0 < k" using no p by force
  note P = tilingD [OF til p(1)]
  have "block (pair_pfn p j0) (Suc j0) \<subseteq> block b k"
    using block_nested [of "Suc j0" _ k b p] pair_pfn_aligned [OF P(4)] buddies_in_pair(1) [OF P(4)] b(1) j0 p(2)
    by simp
  then have "buddy_pfn p j0 \<in> block b k" using buddies_in_pair(2) [OF P(4)] by blast
  moreover from this obtain q j where q: "T q = Some (r, j, False)" "buddy_pfn p j0 \<in> block q j"
    using b(3) by (auto simp: free_cover_def)
  ultimately obtain j' where "j' \<le> j" "j' \<in> S" using S by blast
  then have "j0 \<le> j" unfolding j0_def by (meson Least_le le_trans)
  then have "T (buddy_pfn p j0) = Some (r, j0, False)" using buddy_tile [OF til p(1) q] q(1) by auto
  moreover have "pair_pfn p j0 \<in> {p, buddy_pfn p j0}" "pair_pfn p j0 + 2 ^ j0 \<in> {p, buddy_pfn p j0}"
    using pair_pfn_set [OF P(4)] by auto
  ultimately have "free_pair T (pair_pfn p j0) r j0"
    using p(1) pair_pfn_aligned [OF P(4)] j0 b(2) by (auto simp: free_pair_def)
  then show False using co by (simp add: coalesced_def)
qed

section \<open>Well-formed states\<close>

text \<open>
  The nodes agree with the tiles: the first node of a tile describes it; a node marked available
  lies in a tile of its region; a node marked allocated is the first of an allocated tile. Nodes
  inside a tile may be stale in every other way.
\<close>

definition nodes_ok :: "palloc_state \<Rightarrow> tiles \<Rightarrow> bool" where
  "nodes_ok s T \<longleftrightarrow>
     (\<forall>p r k a. T p = Some (r, k, a) \<longrightarrow> cores s p = (k, r, a, True)) \<and>
     (\<forall>q k r a. is_pfn_valid s q \<longrightarrow> cores s q = (k, r, a, True) \<longrightarrow> (\<exists>p j b. T p = Some (r, j, b) \<and> q \<in> block p j)) \<and>
     (\<forall>q k r v. is_pfn_valid s q \<longrightarrow> cores s q = (k, r, True, v) \<longrightarrow> (\<exists>r j. T q = Some (r, j, True)))"

lemma nodes_okD:
  assumes "nodes_ok s T"
  shows "T p = Some (r, k, a) \<Longrightarrow> cores s p = (k, r, a, True)"
    and "is_pfn_valid s q \<Longrightarrow> cores s q = (k, r, a, True) \<Longrightarrow> \<exists>p j b. T p = Some (r, j, b) \<and> q \<in> block p j"
    and "is_pfn_valid s q \<Longrightarrow> cores s q = (k, r, True, v) \<Longrightarrow> \<exists>r j. T q = Some (r, j, True)"
  using assms unfolding nodes_ok_def by blast+

definition palloc_wf :: "palloc_state \<Rightarrow> tiles \<Rightarrow> free_map \<Rightarrow> bool" where
  "palloc_wf s T L \<longleftrightarrow>
     tiling (pfn_start s) (pfn_limit s) T \<and> nodes_ok s T \<and> free_lists s L \<and>
     (\<forall>r k. set (L r k) = {p. T p = Some (r, k, False)})"

lemma palloc_wfD:
  assumes "palloc_wf s T L"
  shows "tiling (pfn_start s) (pfn_limit s) T" "nodes_ok s T" "free_lists s L"
    "p \<in> set (L r k) \<longleftrightarrow> T p = Some (r, k, False)"
    "on_list L p \<longleftrightarrow> (\<exists>r k. T p = Some (r, k, False))"
  using assms by (auto simp: palloc_wf_def on_list_def)

lemma tile_node:
  assumes "palloc_wf s T L" "T p = Some (r, k, a)"
  shows "pn_order (nodes s p) = k" "pn_region (nodes s p) = r" "pn_alloc (nodes s p) = a" "pn_avail (nodes s p)"
    "is_pfn_valid s p"
proof -
  have "cores s p = (k, r, a, True)" using palloc_wfD(2) [OF assms(1)] assms(2) by (simp add: nodes_ok_def)
  then show "pn_order (nodes s p) = k" "pn_region (nodes s p) = r" "pn_alloc (nodes s p) = a" "pn_avail (nodes s p)"
    by (simp_all add: cores_def core_def)
  have "pfn_start s \<le> p" "p + 2 ^ k \<le> pfn_limit s"
    using tilingD(2,3) [OF palloc_wfD(1) [OF assms(1)] assms(2)] by auto
  moreover have "(0::nat) < 2 ^ k" by simp
  ultimately show "is_pfn_valid s p" unfolding is_pfn_valid_iff by linarith
qed

lemma palloc_wf_env:
  assumes "palloc_wf s T L" "cores s' = cores s" "pfn_start s' = pfn_start s" "pfn_limit s' = pfn_limit s"
    "free_lists s' L"
  shows "palloc_wf s' T L"
  using assms by (simp add: palloc_wf_def nodes_ok_def is_pfn_valid_iff)

definition free_pages :: "free_map \<Rightarrow> nat \<Rightarrow> nat" where
  "free_pages L r = (\<Sum>k\<le>PALLOC_MAX_ORDER. length (L r k) * 2 ^ k)"

lemma free_pages_lupd:
  assumes "k \<le> 15"
  shows "free_pages (lupd L r k ps) r + length (L r k) * 2 ^ k = free_pages L r + length ps * 2 ^ k"
proof -
  have *: "free_pages M r = length (M r k) * 2 ^ k + (\<Sum>j\<in>{..15} - {k}. length (M r j) * 2 ^ j)" for M
    unfolding free_pages_def using assms by (intro sum.remove) auto
  have "(\<Sum>j\<in>{..15} - {k}. length (lupd L r k ps r j) * 2 ^ j) = (\<Sum>j\<in>{..15} - {k}. length (L r j) * 2 ^ j)"
    by (intro sum.cong) auto
  then show ?thesis using * [of "lupd L r k ps"] * [of L] by simp
qed

lemma free_pages_lupd_other [simp]: "r' \<noteq> r \<Longrightarrow> free_pages (lupd L r k ps) r' = free_pages L r'"
  by (simp add: free_pages_def)

lemma lupd_lupd [simp]: "lupd (lupd L r k ps) r k qs = lupd L r k qs"
  by (simp add: lupd_def)

section \<open>Splitting\<close>

lemma nodes_ok_split:
  assumes til: "tiling lo hi T" and ok: "nodes_ok s T" and p: "T p = Some (r, Suc k, False)"
    and cs: "cores s' = (cores s)(p := (k, r, False, True), p + 2 ^ k := (k, r, False, True))"
    and val: "is_pfn_valid s' = is_pfn_valid s"
  shows "nodes_ok s' (split_tile T p r k)"
  unfolding nodes_ok_def
proof (intro conjI allI impI)
  fix q r' j a assume "split_tile T p r k q = Some (r', j, a)"
  then show "cores s' q = (j, r', a, True)"
    using ok by (auto simp: split_tile_def cs nodes_ok_def split: if_splits)
next
  fix q j r' a assume q: "is_pfn_valid s' q" "cores s' q = (j, r', a, True)"
  have new: "split_tile T p r k p = Some (r, k, False)" "split_tile T p r k (p + 2 ^ k) = Some (r, k, False)"
    by (auto simp: split_tile_def)
  show "\<exists>t j b. split_tile T p r k t = Some (r', j, b) \<and> q \<in> block t j"
  proof (cases "q = p \<or> q = p + 2 ^ k")
    case True
    then have "r' = r" using q(2) by (auto simp: cs split: if_splits)
    with True new head_in_block show ?thesis by blast
  next
    case False
    then obtain t j' b where t: "T t = Some (r', j', b)" "q \<in> block t j'"
      using nodes_okD(2) [OF ok, of q] q val by (auto simp: cs)
    show ?thesis
    proof (cases "t = p")
      case True
      then have "r' = r" "q \<in> block p k \<or> q \<in> block (p + 2 ^ k) k" using t p by (auto simp: block_Suc)
      with new show ?thesis by blast
    next
      case ne: False
      then have "t \<noteq> p + 2 ^ k" using split_tile_fresh [OF til p] t(1) by auto
      with ne t show ?thesis by (auto simp: split_tile_def)
    qed
  qed
next
  fix q j r' v assume q: "is_pfn_valid s' q" "cores s' q = (j, r', True, v)"
  then have "q \<noteq> p" "q \<noteq> p + 2 ^ k" "cores s q = (j, r', True, v)" by (auto simp: cs split: if_splits)
  then show "\<exists>r' j. split_tile T p r k q = Some (r', j, True)"
    using ok q(1) val by (auto simp: nodes_ok_def split_tile_def)
qed

lemma core_setup_free_node [simp]: "core (setup_free_node r k n) = (k, r, False, True)"
  by (simp add: core_def setup_free_node_def)

lemma lists_split:
  assumes wf: "palloc_wf s T L" and hd: "L r (Suc k) = p # ps"
  shows "set (lupd (lupd L r (Suc k) ps) r k ((p + 2 ^ k) # p # L r k) r' j) =
     {q. split_tile T p r k q = Some (r', j, False)}"
proof -
  note L = palloc_wfD(4) [OF wf]
  have p: "T p = Some (r, Suc k, False)" using L [of p r "Suc k"] hd by simp
  have p2: "T (p + 2 ^ k) = None" using split_tile_fresh [OF palloc_wfD(1) [OF wf] p] .
  have np: "p \<notin> set ps" using free_listsD(3) [OF palloc_wfD(3) [OF wf], of r "Suc k"] hd by simp
  consider "r' = r" "j = k" | "r' = r" "j = Suc k" | "r' \<noteq> r \<or> j \<noteq> k \<and> j \<noteq> Suc k" by blast
  then show ?thesis
  proof cases
    case 1
    then show ?thesis using p p2 L by (auto simp: split_tile_def)
  next
    case 2
    have "p + 2 ^ k \<notin> set ps" using p2 L [of "p + 2 ^ k" r "Suc k"] hd by auto
    then show ?thesis using 2 p p2 np L [of _ r "Suc k"] hd by (auto simp: split_tile_def)
  next
    case 3
    then show ?thesis using p p2 L by (auto simp: split_tile_def)
  qed
qed

lemma buddy_split_head_wf:
  assumes wf: "palloc_wf s T L" and hd: "L r (Suc k) = p # ps"
  shows "\<exists>s'. buddy_split_head (Suc k) r s = Inr (s', 0) \<and> env s' = env s \<and>
     palloc_wf s' (split_tile T p r k) (lupd (lupd L r (Suc k) ps) r k ((p + 2 ^ k) # p # L r k))"
proof -
  note til = palloc_wfD(1) [OF wf] and ok = palloc_wfD(2) [OF wf] and fl = palloc_wfD(3) [OF wf]
  have p: "T p = Some (r, Suc k, False)" using palloc_wfD(4) [OF wf, of p r "Suc k"] hd by simp
  have rk: "r < 32" "Suc k \<le> 15" "k \<le> 15" using tilingD(5,6) [OF til p] by auto
  define p2 where "p2 = p + 2 ^ k"
  have T2: "T p2 = None" using split_tile_fresh [OF til p] by (simp add: p2_def)
  have v2: "is_pfn_valid s p2"
    using tilingD(2,3) [OF til p] zero_less_power [of "2::nat" k]
    unfolding is_pfn_valid_iff p2_def power_Suc by linarith
  define L1 where "L1 = lupd L r (Suc k) ps"
  note P = pop_list_lists [OF fl hd, folded L1_def]
  define s1 where "s1 = pop_list r (Suc k) p s"
  define s3 where "s3 = upd_node p2 (setup_free_node r k) (upd_node p (setup_free_node r k) s1)"
  have "set (L1 r' j) \<subseteq> set (L r' j)" for r' j using hd by (auto simp: L1_def)
  then have off2: "\<not> on_list L1 p2"
    using palloc_wfD(5) [OF wf, of p2] T2 unfolding on_list_def by fastforce
  have "free_lists s3 L1" unfolding s3_def s1_def
    by (intro free_lists_upd_node disjI1 P(1,7) off2)
  moreover have "is_pfn_valid s3 p" using P(6) by (simp add: s3_def s1_def envD(11) [OF P(2)])
  ultimately obtain s4 where s4: "insert_node p r k s3 = Inr s4" "free_lists s4 (lupd L1 r k (p # L1 r k))"
      "env s4 = env s3" "cores s4 = cores s3"
    using insert_node_lists [OF _ _ P(7) rk(1,3)] by blast
  have L1k: "L1 r k = L r k" by (simp add: L1_def)
  have "\<not> on_list (lupd L1 r k (p # L1 r k)) p2"
    using off2 by (auto simp: on_list_def p2_def split: if_splits)
  moreover have "is_pfn_valid s4 p2" using v2 by (simp add: envD(11) [OF s4(3)] s3_def s1_def envD(11) [OF P(2)])
  ultimately obtain s5 where s5: "insert_node p2 r k s4 = Inr s5"
      "free_lists s5 (lupd (lupd L1 r k (p # L1 r k)) r k (p2 # p # L1 r k))" "env s5 = env s4" "cores s5 = cores s4"
    using insert_node_lists [OF s4(2) _ _ rk(1,3), of p2] by auto
  have env5: "env s5 = env s" using s5(3) s4(3) P(2) by (simp add: s3_def s1_def)
  have "buddy_split_head (Suc k) r s = Inr (s5, 0)"
    using P(5,6) s4(1) s5(1) v2 P(2)
    by (simp add: buddy_split_head_def Let_def s3_def s1_def pop_list_def p2_def)
  moreover have "nodes_ok s5 (split_tile T p r k)"
    using s5(4) s4(4) P(3,4)
    by (intro nodes_ok_split [OF til ok p]) (auto simp: s3_def s1_def p2_def envD(11) [OF env5])
  moreover have "set (lupd L1 r k (p2 # p # L r k) r' j) = {q. split_tile T p r k q = Some (r', j, False)}" for r' j
    using lists_split [OF wf hd, of r' j] by (simp add: L1_def p2_def)
  ultimately show ?thesis
    using tiling_split [OF til p] s5(2) env5
    by (auto simp: palloc_wf_def L1_def p2_def envD(1,2) [OF env5])
qed


lemma split_step:
  assumes wf: "palloc_wf s T L" and hd: "L r (Suc k) = h # hs" and co: "coalesced_but T h"
  shows "\<exists>s' T' L' h' hs'. buddy_split_head (Suc k) r s = Inr (s', 0) \<and> palloc_wf s' T' L' \<and> env s' = env s \<and>
     same_blocks T T' \<and> free_pages L' = free_pages L \<and> L' r k = h' # hs' \<and> coalesced_but T' h'"
proof -
  note til = palloc_wfD(1) [OF wf]
  have h: "T h = Some (r, Suc k, False)" using palloc_wfD(4) [OF wf, of h r "Suc k"] hd by simp
  have k: "Suc k \<le> 15" "k \<le> 15" using tilingD(5) [OF til h] by auto
  define L' where "L' = lupd (lupd L r (Suc k) hs) r k ((h + 2 ^ k) # h # L r k)"
  have "free_pages L' r = free_pages L r"
    using free_pages_lupd [OF k(2), of "lupd L r (Suc k) hs" r "(h + 2 ^ k) # h # L r k"]
      free_pages_lupd [OF k(1), of L r hs] hd by (simp add: L'_def)
  moreover have "free_pages L' r' = free_pages L r'" if "r' \<noteq> r" for r' using that by (simp add: L'_def)
  ultimately have "free_pages L' = free_pages L" by (metis ext)
  moreover have "L' r k = (h + 2 ^ k) # h # L r k" by (simp add: L'_def)
  ultimately show ?thesis
    using buddy_split_head_wf [OF wf hd, folded L'_def] same_blocks_split [OF til h] coalesced_but_split [OF til h co]
    by blast
qed

lemma no_list_above:
  assumes "palloc_wf s T L" "15 < j" shows "L r j = []"
proof (rule ccontr)
  assume "L r j \<noteq> []"
  then obtain p where "p \<in> set (L r j)" by (meson hd_in_set)
  then show False using free_listsD(7) [OF palloc_wfD(3) [OF assms(1)]] assms(2) by fastforce
qed

lemma buddy_split_wf:
  assumes wf: "palloc_wf s T L" and co: "coalesced T" and r: "r < 32" and k: "Suc k \<le> 15"
  shows "(\<forall>j\<ge>Suc k. L r j = []) \<and> buddy_split (Suc k) r s = Inr (s, - 1) \<or>
     (\<exists>j\<ge>Suc k. L r j \<noteq> []) \<and>
     (\<exists>s' T' L' h hs. buddy_split (Suc k) r s = Inr (s', 0) \<and> palloc_wf s' T' L' \<and> env s' = env s \<and>
       same_blocks T T' \<and> free_pages L' = free_pages L \<and> L' r k = h # hs \<and> coalesced_but T' h)"
  using k
proof (induction "15 - k" arbitrary: k rule: less_induct)
  case less
  have hn: "pn_has_next (buddy s r (Suc k)) \<longleftrightarrow> L r (Suc k) \<noteq> []"
    using flist_has_next [OF free_listsD(1) [OF palloc_wfD(3) [OF wf] r less.prems]] .
  show ?case
  proof (cases "L r (Suc k)")
    case (Cons h hs)
    then have "buddy_split (Suc k) r s = buddy_split_head (Suc k) r s"
      using hn less.prems by (simp add: buddy_split.simps)
    moreover have "\<exists>j\<ge>Suc k. L r j \<noteq> []" using Cons by (intro exI [of _ "Suc k"]) simp
    ultimately show ?thesis
      using split_step [OF wf Cons coalesced_imp_but [OF co]] by auto
  next
    case Nil
    show ?thesis
    proof (cases "Suc k = 15")
      case True
      have "L r j = []" if "Suc k \<le> j" for j using that True Nil no_list_above [OF wf] by (cases "j = Suc k") auto
      moreover have "buddy_split (Suc k) r s = Inr (s, - 1)" using True Nil hn by (simp add: buddy_split.simps)
      ultimately show ?thesis by blast
    next
      case False
      then have k': "15 - Suc k < 15 - k" "Suc (Suc k) \<le> 15" using less.prems by auto
      have step: "buddy_split (Suc k) r s = ebind (buddy_split (Suc (Suc k)) r s) (\<lambda>(s, rc).
          if rc = - 1 then Inr (s, - 1) else buddy_split_head (Suc k) r s)"
        using hn Nil False less.prems by (subst buddy_split.simps) simp
      from less.hyps [OF k'] show ?thesis
      proof (elim disjE conjE exE)
        assume e: "\<forall>j\<ge>Suc (Suc k). L r j = []" "buddy_split (Suc (Suc k)) r s = Inr (s, - 1)"
        then have "\<forall>j\<ge>Suc k. L r j = []" using Nil by (metis Suc_leI le_neq_implies_less)
        then show ?thesis using e(2) step by simp
      next
        fix j s1 T1 L1 h hs
        assume j: "Suc (Suc k) \<le> j" "L r j \<noteq> []" and
          s1: "buddy_split (Suc (Suc k)) r s = Inr (s1, 0)" "palloc_wf s1 T1 L1" "env s1 = env s" "same_blocks T T1"
            "free_pages L1 = free_pages L" "L1 r (Suc k) = h # hs" "coalesced_but T1 h"
        have "\<exists>j\<ge>Suc k. L r j \<noteq> []" using j by (intro exI [of _ j]) simp
        then show ?thesis
          using split_step [OF s1(2,6,7)] step s1(1,3-5) same_blocks_trans [OF s1(4)] by fastforce
      qed
    qed
  qed
qed

section \<open>Order of a page count\<close>

lemma popcount32_eq_1_iff: "popcount32 v = 1 \<longleftrightarrow> (\<exists>k<32. v = 2 ^ k)"
proof -
  have "popcount32 v = 1 \<longleftrightarrow> (\<exists>k. {i. i < LENGTH(32) \<and> bit v i} = {k})"
    by (simp add: popcount32_card card_1_singleton_iff)
  also have "\<dots> \<longleftrightarrow> (\<exists>k<32. v = 2 ^ k)"
    unfolding word_eq_2_power_iff [symmetric] by auto
  finally show ?thesis .
qed

lemma popcount32_eq_0_iff: "popcount32 v = 0 \<longleftrightarrow> v = 0"
proof -
  have "v = 0 \<longleftrightarrow> (\<forall>i<32. \<not> bit v i)" by (auto intro!: bit_word_eqI)
  then show ?thesis by (auto simp: popcount32_card)
qed

lemma calc_palloc_order_correct:
  assumes "0 \<le> count" "count \<le> 2 ^ 15"
  shows "\<exists>k. calc_palloc_order count = Inr k \<and> k \<le> 15 \<and> count \<le> 2 ^ k \<and> (k = 0 \<or> 2 ^ (k - 1) < count)"
proof (cases "count = 0")
  case True
  then show ?thesis by (simp add: calc_palloc_order_def clz32_0 popcount32_eq_0_iff Let_def)
next
  case False
  define c where "c = (word_of_int count :: u32)"
  have n: "unat c = nat count" using assms by (simp add: c_def unsigned_of_int take_bit_int_eq_self)
  have c0: "c \<noteq> 0" using n False assms(1) by auto
  define m where "m = 31 - clz32 c"
  have z: "clz32 c < 32" "2 ^ m \<le> unat c" "unat c < 2 ^ Suc m"
    using clz32_bounds [OF c0] by (auto simp: m_def Suc_diff_Suc Suc_diff_le [symmetric] numeral_eq_Suc)
  have ord: "31 - int (clz32 c) = int m" using z(1) by (simp add: m_def)
  have pop: "1 < popcount32 c \<longleftrightarrow> unat c \<noteq> 2 ^ m"
  proof
    assume "1 < popcount32 c"
    show "unat c \<noteq> 2 ^ m"
    proof
      assume "unat c = 2 ^ m"
      then have "c = 2 ^ m" using unat_2_power [of m, where 'a = 32] by (simp add: m_def word_unat_eq_iff)
      then have "popcount32 c = 1" unfolding popcount32_eq_1_iff by (intro exI [of _ m]) (simp add: m_def)
      then show False using \<open>1 < popcount32 c\<close> by simp
    qed
  next
    assume ne: "unat c \<noteq> 2 ^ m"
    have "popcount32 c \<noteq> 1"
    proof
      assume "popcount32 c = 1"
      then obtain j where j: "j < 32" "c = 2 ^ j" using popcount32_eq_1_iff by blast
      then have "unat c = 2 ^ j" by (simp add: unat_2_power)
      then have "m \<le> j" "j < Suc m"
        using z(2,3) power_increasing_iff [of "2::nat" m j] power_strict_increasing_iff [of "2::nat" j "Suc m"] by simp_all
      then show False using ne \<open>unat c = 2 ^ j\<close> by simp
    qed
    moreover have "popcount32 c \<noteq> 0" using c0 by (simp add: popcount32_eq_0_iff)
    ultimately show "1 < popcount32 c" by simp
  qed
  define k where "k = (if unat c = 2 ^ m then m else Suc m)"
  have cnt: "count = int (unat c)" using n assms(1) by simp
  have u: "unat c \<le> 2 ^ 15" using n assms by simp
  have "(2::nat) ^ m \<le> 2 ^ 15" using z(2) u by (rule le_trans)
  then have m15: "m \<le> 15" by (rule power_le_imp_le_exp [rotated]) simp
  have k15: "k \<le> 15"
  proof (cases "unat c = 2 ^ m")
    case False
    then have "(2::nat) ^ m < 2 ^ 15" using z(2) u by linarith
    then have "m < 15" by (rule power_less_imp_less_exp [rotated]) simp
    then show ?thesis by (simp add: k_def)
  qed (use m15 in \<open>simp add: k_def\<close>)
  have "calc_palloc_order count = Inr k"
    using k15 pop ord by (auto simp: calc_palloc_order_def Let_def k_def c_def [symmetric])
  moreover have "unat c \<le> 2 ^ k" using z(3) by (simp add: k_def)
  then have "count \<le> 2 ^ k" using cnt by (metis of_nat_le_iff of_nat_numeral of_nat_power)
  moreover have "k = 0 \<or> 2 ^ (k - 1) < unat c"
  proof (cases "unat c = 2 ^ m")
    case True
    then show ?thesis by (cases m) (simp_all add: k_def)
  next
    case False
    then show ?thesis using z(2) by (simp add: k_def)
  qed
  then have "k = 0 \<or> 2 ^ (k - 1) < count" using cnt by (metis of_nat_less_iff of_nat_numeral of_nat_power)
  ultimately show ?thesis using k15 by blast
qed

section \<open>The invariant of the allocator\<close>

definition alloc_pages :: "tiles \<Rightarrow> nat" where
  "alloc_pages T = (\<Sum>p | \<exists>r k. T p = Some (r, k, True). 2 ^ fst (snd (the (T p))))"

definition palloc_inv :: "palloc_state \<Rightarrow> tiles \<Rightarrow> free_map \<Rightarrow> bool" where
  "palloc_inv s T L \<longleftrightarrow>
     palloc_wf s T L \<and> coalesced T \<and>
     (\<forall>r<MAX_PALLOC_REGION_COUNT. pr_avail_pages (regions s r) = of_nat (free_pages L r)) \<and>
     num_pages_alloc s = of_nat (alloc_pages T) \<and>
     (\<forall>r. \<not> pr_locked (regions s r)) \<and> region_count s \<le> MAX_PALLOC_REGION_COUNT \<and> pfn_limit s \<le> 2 ^ 52"

definition palloc_ok :: "palloc_state \<Rightarrow> bool" where
  "palloc_ok s \<longleftrightarrow> (\<exists>T L. palloc_inv s T L)"

lemma palloc_invD:
  assumes "palloc_inv s T L"
  shows "palloc_wf s T L" "coalesced T" "r < 32 \<Longrightarrow> pr_avail_pages (regions s r) = of_nat (free_pages L r)"
    "num_pages_alloc s = of_nat (alloc_pages T)" "\<not> pr_locked (regions s r)" "region_count s \<le> 32" "pfn_limit s \<le> 2 ^ 52"
  using assms unfolding palloc_inv_def by blast+

text \<open>
  What a client sees of a state: the allocated blocks with their orders, read off the nodes, and the
  free frames of each region, read off the free lists.
\<close>

definition allocated :: "palloc_state \<Rightarrow> nat \<rightharpoonup> nat" where
  "allocated s p = (if is_pfn_valid s p \<and> pn_alloc (nodes s p) then Some (pn_order (nodes s p)) else None)"

fun walk_list :: "nat \<Rightarrow> palloc_state \<Rightarrow> palloc_node \<Rightarrow> nat list" where
  "walk_list 0 s b = []"
| "walk_list (Suc n) s b = (if pn_has_next b then pn_next b # walk_list n s (nodes s (pn_next b)) else [])"

definition free_frames :: "palloc_state \<Rightarrow> nat \<Rightarrow> nat set" where
  "free_frames s r = (\<Union>k\<le>PALLOC_MAX_ORDER. \<Union>p\<in>set (walk_list (pfn_limit s - pfn_start s) s (buddy s r k)). block p k)"

lemma walk_list_flist: "flist (nodes s) b ps \<Longrightarrow> length ps \<le> n \<Longrightarrow> walk_list n s b = ps"
proof (induction ps arbitrary: n b)
  case Nil
  then show ?case by (cases n) auto
next
  case (Cons p ps)
  then show ?case by (cases n) auto
qed

lemma free_frames_eq:
  assumes "palloc_wf s T L" "r < 32" shows "free_frames s r = free_cover T r"
proof -
  have w: "walk_list (pfn_limit s - pfn_start s) s (buddy s r k) = L r k" if "k \<le> 15" for k
    using walk_list_flist free_listsD(1) [OF palloc_wfD(3) [OF assms(1)] assms(2) that]
      valid_list_length [OF palloc_wfD(3) [OF assms(1)]] by blast
  have "x \<in> free_frames s r \<longleftrightarrow> (\<exists>k\<le>15. \<exists>p. T p = Some (r, k, False) \<and> x \<in> block p k)" for x
    unfolding free_frames_def using palloc_wfD(4) [OF assms(1)] by (simp add: w cong: conj_cong) blast
  also have "\<dots> x \<longleftrightarrow> x \<in> free_cover T r" for x
    unfolding free_cover_def using tilingD(5) [OF palloc_wfD(1) [OF assms(1)]] by blast
  finally show ?thesis by blast
qed

lemma allocated_eq:
  assumes "palloc_wf s T L" shows "allocated s p = Some k \<longleftrightarrow> (\<exists>r. T p = Some (r, k, True))"
proof
  assume a: "allocated s p = Some k"
  then have "is_pfn_valid s p" "pn_alloc (nodes s p)" "pn_order (nodes s p) = k"
    by (auto simp: allocated_def split: if_splits)
  moreover from this obtain r j where "T p = Some (r, j, True)"
    using nodes_okD(3) [OF palloc_wfD(2) [OF assms], of p] by (fastforce simp: cores_def core_def)
  ultimately show "\<exists>r. T p = Some (r, k, True)" using tile_node(1) [OF assms] by auto
next
  assume "\<exists>r. T p = Some (r, k, True)"
  then show "allocated s p = Some k" using tile_node [OF assms] by (auto simp: allocated_def)
qed

lemma free_pages_card:
  assumes wf: "palloc_wf s T L" shows "free_pages L r = card (free_cover T r)"
proof -
  note til = palloc_wfD(1) [OF wf] and L = palloc_wfD(4) [OF wf]
  have cover: "free_cover T r = (\<Union>k\<in>{..15}. \<Union>p\<in>set (L r k). block p k)"
  proof (intro set_eqI iffI)
    fix x assume "x \<in> free_cover T r"
    then obtain p k where "T p = Some (r, k, False)" "x \<in> block p k" by (auto simp: free_cover_def)
    then have "k \<in> {..15}" "p \<in> set (L r k)" "x \<in> block p k" using tilingD(5) [OF til] L by auto
    then show "x \<in> (\<Union>k\<in>{..15}. \<Union>p\<in>set (L r k). block p k)" by blast
  next
    fix x assume "x \<in> (\<Union>k\<in>{..15}. \<Union>p\<in>set (L r k). block p k)"
    then obtain k p where "p \<in> set (L r k)" "x \<in> block p k" by blast
    then show "x \<in> free_cover T r" unfolding free_cover_def using L by blast
  qed
  have inner: "card (\<Union>p\<in>set (L r k). block p k) = length (L r k) * 2 ^ k" for k
  proof -
    have "card (\<Union>p\<in>set (L r k). block p k) = (\<Sum>p\<in>set (L r k). card (block p k))"
      using tilingD(7) [OF til] L by (intro card_UN_disjoint) auto
    then show ?thesis using free_listsD(3) [OF palloc_wfD(3) [OF wf], of r k] by (simp add: distinct_card)
  qed
  have "card (free_cover T r) = (\<Sum>k\<le>15. card (\<Union>p\<in>set (L r k). block p k))"
    unfolding cover
  proof (intro card_UN_disjoint ballI impI)
    fix k j :: nat assume "k \<noteq> j"
    show "(\<Union>p\<in>set (L r k). block p k) \<inter> (\<Union>p\<in>set (L r j). block p j) = {}"
    proof (intro equals0I, elim IntE UN_E)
      fix x p q assume "p \<in> set (L r k)" "x \<in> block p k" "q \<in> set (L r j)" "x \<in> block q j"
      then show False using tiling_unique [OF til, of p r k False q r j False x] L \<open>k \<noteq> j\<close> by auto
    qed
  qed auto
  then show ?thesis by (simp add: free_pages_def inner)
qed

lemma free_pages_bound:
  assumes wf: "palloc_wf s T L" shows "free_pages L r \<le> pfn_limit s"
proof -
  have "free_cover T r \<subseteq> {..<pfn_limit s}"
    using tilingD(3) [OF palloc_wfD(1) [OF wf]] by (fastforce simp: free_cover_def block_def)
  then have "card (free_cover T r) \<le> pfn_limit s" using card_mono [of "{..<pfn_limit s}"] by fastforce
  then show ?thesis by (simp add: free_pages_card [OF wf])
qed

lemma alloc_pages_cong:
  assumes "\<And>p r k. T' p = Some (r, k, True) \<longleftrightarrow> T p = Some (r, k, True)"
  shows "alloc_pages T' = alloc_pages T"
  unfolding alloc_pages_def
proof (intro sum.cong)
  show "{p. \<exists>r k. T' p = Some (r, k, True)} = {p. \<exists>r k. T p = Some (r, k, True)}" using assms by blast
  show "2 ^ fst (snd (the (T' p))) = (2::nat) ^ fst (snd (the (T p)))" if "p \<in> {p. \<exists>r k. T p = Some (r, k, True)}" for p
  proof -
    obtain r k where "T p = Some (r, k, True)" using \<open>p \<in> _\<close> by blast
    moreover from this have "T' p = Some (r, k, True)" using assms by blast
    ultimately show ?thesis by simp
  qed
qed

lemma alloc_pages_alloc:
  assumes til: "tiling lo hi T" and p: "T p = Some (r, k, False)"
  shows "alloc_pages (T(p \<mapsto> (r, k, True))) = alloc_pages T + 2 ^ k"
proof -
  let ?A = "{q. \<exists>r k. T q = Some (r, k, True)}"
  have A: "{q. \<exists>r' k'. (T(p \<mapsto> (r, k, True))) q = Some (r', k', True)} = insert p ?A" by auto
  have fin: "finite ?A" by (rule finite_subset [OF _ tiling_finite [OF til]]) auto
  have "p \<notin> ?A" using p by simp
  then have "alloc_pages (T(p \<mapsto> (r, k, True))) =
      2 ^ k + (\<Sum>q\<in>?A. 2 ^ fst (snd (the ((T(p \<mapsto> (r, k, True))) q))))"
    unfolding alloc_pages_def A using fin by (subst sum.insert) auto
  also have "(\<Sum>q\<in>?A. 2 ^ fst (snd (the ((T(p \<mapsto> (r, k, True))) q)))) = alloc_pages T"
    unfolding alloc_pages_def using \<open>p \<notin> ?A\<close> by (intro sum.cong) auto
  finally show ?thesis by (simp only: add.commute)
qed

section \<open>Allocation\<close>

lemma nodes_ok_set_alloc:
  assumes ok: "nodes_ok s T" and p: "T p = Some (r, k, a)"
    and cs: "cores s' = (cores s)(p := (k, r, b, True))" and val: "is_pfn_valid s' = is_pfn_valid s"
  shows "nodes_ok s' (T(p \<mapsto> (r, k, b)))"
  unfolding nodes_ok_def
proof (intro conjI allI impI)
  fix q r' j a' assume "(T(p \<mapsto> (r, k, b))) q = Some (r', j, a')"
  then show "cores s' q = (j, r', a', True)" using nodes_okD(1) [OF ok] by (auto simp: cs split: if_splits)
next
  fix q j r' a' assume q: "is_pfn_valid s' q" "cores s' q = (j, r', a', True)"
  have "\<exists>t j b. T t = Some (r', j, b) \<and> q \<in> block t j"
  proof (cases "q = p")
    case True
    then have "r' = r" using q(2) by (simp add: cs)
    with True p head_in_block show ?thesis by blast
  next
    case False
    then show ?thesis using nodes_okD(2) [OF ok, of q j r' a'] q val by (simp add: cs)
  qed
  then show "\<exists>t j ba. (T(p \<mapsto> (r, k, b))) t = Some (r', j, ba) \<and> q \<in> block t j"
    using p by (metis fun_upd_apply option.inject prod.inject)
next
  fix q j r' v assume q: "is_pfn_valid s' q" "cores s' q = (j, r', True, v)"
  show "\<exists>r' j. (T(p \<mapsto> (r, k, b))) q = Some (r', j, True)"
    using nodes_okD(3) [OF ok, of q j r' v] q val by (cases "q = p") (auto simp: cs)
qed

lemma alloc_step:
  assumes wf: "palloc_wf s T L" and hd: "L r k = h # hs"
    and s': "s' = upd_node h (\<lambda>n. n\<lparr>pn_alloc := True, pn_has_next := False, pn_next := 0\<rparr>) (pop_list r k h s)"
  shows "palloc_wf s' (T(h \<mapsto> (r, k, True))) (lupd L r k hs)" "env s' = env s" "T h = Some (r, k, False)"
proof -
  note P = pop_list_lists [OF palloc_wfD(3) [OF wf] hd]
  show h: "T h = Some (r, k, False)" using palloc_wfD(4) [OF wf, of h r k] hd by simp
  show env: "env s' = env s" using P(2) by (simp add: s')
  have cs: "cores s' = (cores s)(h := (k, r, True, True))"
    using P(3,4) tile_node [OF wf h] by (simp add: s' core_def)
  have fl: "free_lists s' (lupd L r k hs)" unfolding s' by (intro free_lists_upd_node disjI1 P(1,7))
  have lists: "set (lupd L r k hs r' j) = {q. (T(h \<mapsto> (r, k, True))) q = Some (r', j, False)}" for r' j
  proof (cases "r' = r \<and> j = k")
    case True
    have "h \<notin> set hs" using free_listsD(3) [OF palloc_wfD(3) [OF wf], of r k] hd by simp
    then show ?thesis using True palloc_wfD(4) [OF wf, of _ r k] hd by auto
  next
    case False
    then show ?thesis using palloc_wfD(4) [OF wf, of _ r' j] h by auto
  qed
  have "nodes_ok s' (T(h \<mapsto> (r, k, True)))"
    using envD(11) [OF env] by (intro nodes_ok_set_alloc [OF palloc_wfD(2) [OF wf] h cs]) auto
  then show "palloc_wf s' (T(h \<mapsto> (r, k, True))) (lupd L r k hs)"
    using tiling_set_alloc [OF palloc_wfD(1) [OF wf] h] fl lists
    unfolding palloc_wf_def envD(1,2) [OF env] by blast
qed

lemma free_pages_ge:
  assumes wf: "palloc_wf s T L" and "L r j \<noteq> []" shows "2 ^ j \<le> free_pages L r"
proof -
  have "j \<le> 15" using no_list_above [OF wf] assms(2) by (meson not_le)
  then have "length (L r j) * 2 ^ j \<le> free_pages L r" unfolding free_pages_def by (intro member_le_sum) auto
  moreover have "1 * 2 ^ j \<le> length (L r j) * 2 ^ j" using assms(2) by (intro mult_right_mono) (auto simp: Suc_leI)
  ultimately show ?thesis by linarith
qed

lemma of_nat_less_2_power: "n < 2 ^ 64 \<Longrightarrow> k < 64 \<Longrightarrow> of_nat n < (2 ^ k :: ulong) \<longleftrightarrow> n < 2 ^ k"
  by (simp add: word_less_nat_alt unat_of_nat unat_2_power)

lemma palloc_wf_upd_region:
  assumes "palloc_wf s T L" "\<And>rg. pr_buddies (g rg) = pr_buddies rg"
  shows "palloc_wf (upd_region r g s) T L"
proof (rule palloc_wf_env [OF assms(1)])
  show "free_lists (upd_region r g s) L" by (rule free_lists_upd_region [OF palloc_wfD(3) [OF assms(1)] assms(2)])
qed (auto simp: upd_region_def cores_def)

lemma palloc_wf_stats [simp]: "palloc_wf (s\<lparr>num_pages_alloc := x\<rparr>) T L = palloc_wf s T L"
  by (simp add: palloc_wf_def nodes_ok_def free_lists_def cores_def is_pfn_valid_def)

lemma relock: "\<not> pr_locked (regions s r) \<Longrightarrow>
    unlock_region r (upd_region r (\<lambda>rg. rg\<lparr>pr_locked := True\<rparr>) s) = s"
  by (cases s; cases "regions s r") (simp add: unlock_region_def upd_region_def fun_upd_idem)

text \<open>The block that is handed out, and what the call leaves of the state.\<close>

lemma palloc_region_take:
  assumes wf: "palloc_wf s T L" and hd: "L r k = h # hs" and k: "k \<le> 15"
    and s': "s' = (unlock_region r (upd_region r (\<lambda>rg. rg\<lparr>pr_avail_pages := pr_avail_pages rg - 2 ^ k\<rparr>)
       (upd_node h (\<lambda>n. n\<lparr>pn_alloc := True, pn_has_next := False, pn_next := 0\<rparr>) (pop_list r k h s))))
       \<lparr>num_pages_alloc := num_pages_alloc s + 2 ^ k\<rparr>"
    and co: "coalesced_but T h" and avail: "\<forall>r<32. pr_avail_pages (regions s r) = of_nat (free_pages L r)"
    and alloc: "num_pages_alloc s = of_nat (alloc_pages T)"
    and lk: "\<forall>r'. r' \<noteq> r \<longrightarrow> \<not> pr_locked (regions s r')"
    and bnd: "region_count s \<le> 32" "pfn_limit s \<le> 2 ^ 52"
  shows "palloc_inv s' (T(h \<mapsto> (r, k, True))) (lupd L r k hs)" "T h = Some (r, k, False)"
proof -
  define s1 where
    "s1 = upd_node h (\<lambda>n. n\<lparr>pn_alloc := True, pn_has_next := False, pn_next := 0\<rparr>) (pop_list r k h s)"
  note A = alloc_step [OF wf hd s1_def]
  show h: "T h = Some (r, k, False)" by (rule A(3))
  have r: "r < 32" using tilingD(6) [OF palloc_wfD(1) [OF wf] h] .
  have s'': "s' = (unlock_region r (upd_region r (\<lambda>rg. rg\<lparr>pr_avail_pages := pr_avail_pages rg - 2 ^ k\<rparr>) s1))
       \<lparr>num_pages_alloc := num_pages_alloc s + 2 ^ k\<rparr>" by (simp add: s' s1_def)
  have "palloc_wf (unlock_region r (upd_region r (\<lambda>rg. rg\<lparr>pr_avail_pages := pr_avail_pages rg - 2 ^ k\<rparr>) s1))
      (T(h \<mapsto> (r, k, True))) (lupd L r k hs)"
    unfolding unlock_region_def by (intro palloc_wf_upd_region A(1)) simp_all
  then have wf': "palloc_wf s' (T(h \<mapsto> (r, k, True))) (lupd L r k hs)"
    by (simp add: s'')
  have e: "pr_avail_pages (regions s1 r') = pr_avail_pages (regions s r')" "pr_locked (regions s1 r') = pr_locked (regions s r')"
    for r' using envD(9,10) [OF A(2)] by auto
  have fp: "free_pages L r = free_pages (lupd L r k hs) r + 2 ^ k"
    using free_pages_lupd [OF k, of L r hs] hd by simp
  have "pr_avail_pages (regions s' r') = of_nat (free_pages (lupd L r k hs) r')" if "r' < 32" for r'
    using avail that r fp e by (cases "r' = r") (auto simp: s'' unlock_region_def)
  moreover have "\<not> pr_locked (regions s' r')" for r'
    using lk e by (cases "r' = r") (auto simp: s'' unlock_region_def)
  moreover have "num_pages_alloc s' = of_nat (alloc_pages (T(h \<mapsto> (r, k, True))))"
    using alloc alloc_pages_alloc [OF palloc_wfD(1) [OF wf] h] by (simp add: s'')
  moreover have "region_count s' \<le> 32" "pfn_limit s' \<le> 2 ^ 52"
    using bnd envD(2,4) [OF A(2)] by (auto simp: s'' unlock_region_def upd_region_def)
  ultimately show "palloc_inv s' (T(h \<mapsto> (r, k, True))) (lupd L r k hs)"
    using wf' coalesced_alloc [OF co] by (simp add: palloc_inv_def)
qed

text \<open>What every call keeps: the frame range and the identity of the regions.\<close>

definition region_env :: "palloc_state \<Rightarrow> nat \<times> nat \<times> nat \<times> (nat \<Rightarrow> u32 \<times> ulong)" where
  "region_env s = (pfn_start s, pfn_limit s, region_count s,
     (\<lambda>r. (pr_tags (regions s r), pr_total_pages (regions s r))))"

lemma env_region_env: "env s' = env s \<Longrightarrow> region_env s' = region_env s"
  by (auto simp: env_def region_env_def fun_eq_iff)

lemma lock_region_free [simp]:
  "\<not> pr_locked (regions s r) \<Longrightarrow> lock_region r s = Inr (upd_region r (\<lambda>rg. rg\<lparr>pr_locked := True\<rparr>) s)"
  by (simp add: lock_region_def)

lemma has_next_iff:
  assumes "palloc_wf s T L" "r < 32" "k \<le> 15" shows "pn_has_next (buddy s r k) \<longleftrightarrow> L r k \<noteq> []"
  using flist_has_next [OF free_listsD(1) [OF palloc_wfD(3) [OF assms(1)] assms(2,3)]] .

lemma split_or_head:
  assumes wf: "palloc_wf s T L" and co: "coalesced T" and r: "r < 32" and k: "k < 15"
  shows "(\<forall>j\<ge>k. L r j = []) \<and> (if pn_has_next (buddy s r k) then Inr (s, 0) else buddy_split (k + 1) r s) = Inr (s, - 1) \<or>
    (\<exists>j\<ge>k. L r j \<noteq> []) \<and>
    (\<exists>s1 T1 L1 h hs. (if pn_has_next (buddy s r k) then Inr (s, 0) else buddy_split (k + 1) r s) = Inr (s1, 0) \<and>
       palloc_wf s1 T1 L1 \<and> env s1 = env s \<and> same_blocks T T1 \<and> free_pages L1 = free_pages L \<and>
       L1 r k = h # hs \<and> coalesced_but T1 h)"
proof (cases "L r k")
  case Nil
  then have hn: "\<not> pn_has_next (buddy s r k)" using has_next_iff [OF wf r, of k] k by simp
  have all: "(\<forall>j\<ge>k. L r j = []) \<longleftrightarrow> (\<forall>j\<ge>Suc k. L r j = [])"
    using Nil by (metis Suc_leD le_neq_implies_less Suc_leI)
  then have ex: "(\<exists>j\<ge>k. L r j \<noteq> []) \<longleftrightarrow> (\<exists>j\<ge>Suc k. L r j \<noteq> [])" by blast
  show ?thesis using buddy_split_wf [OF wf co r, of k] k hn unfolding all ex by simp
next
  case (Cons h hs)
  then have "pn_has_next (buddy s r k)" using has_next_iff [OF wf r, of k] k by simp
  moreover have "\<exists>j\<ge>k. L r j \<noteq> []" using Cons by (intro exI [of _ k]) simp
  ultimately show ?thesis
    using wf Cons coalesced_imp_but [OF co, of h] by (auto intro!: exI [of _ T] exI [of _ L])
qed

lemma palloc_region_inv:
  assumes inv: "palloc_inv s T L" and r: "r < 32" and ord: "calc_palloc_order count = Inr k" "k \<le> 15"
  shows "(k = 15 \<or> (\<forall>j\<ge>k. L r j = [])) \<and> palloc_region count r s = Inr (s, 0) \<or>
     k < 15 \<and> (\<exists>j\<ge>k. L r j \<noteq> []) \<and>
     (\<exists>s' T1 L1 h hs. palloc_region count r s = Inr (s', h) \<and>
        tiling (pfn_start s) (pfn_limit s) T1 \<and>
        same_blocks T T1 \<and> T1 h = Some (r, k, False) \<and>
        palloc_inv s' (T1(h \<mapsto> (r, k, True))) (lupd L1 r k hs) \<and> region_env s' = region_env s)"
proof -
  note I = palloc_invD [OF inv] and wf = palloc_invD(1) [OF inv]
  let ?s = "upd_region r (\<lambda>rg. rg\<lparr>pr_locked := True\<rparr>) s"
  have wf1: "palloc_wf ?s T L" by (rule palloc_wf_upd_region [OF wf]) simp
  have "free_pages L r < 2 ^ 64"
    using le_trans [OF free_pages_bound [OF wf, of r] I(7)] by (simp add: le_less_trans)
  then have av: "pr_avail_pages (regions s r) < 2 ^ k \<longleftrightarrow> free_pages L r < 2 ^ k"
    using I(3) [OF r] of_nat_less_2_power [of "free_pages L r" k] ord(2) by simp
  consider "k = 15 \<or> free_pages L r < 2 ^ k" | "k < 15" "\<not> free_pages L r < 2 ^ k" using ord(2) by linarith
  then show ?thesis
  proof cases
    case 1
    have "L r j = []" if "free_pages L r < 2 ^ k" "k \<le> j" for j
    proof (rule ccontr)
      assume "L r j \<noteq> []"
      then have "2 ^ j \<le> free_pages L r" by (rule free_pages_ge [OF wf])
      moreover have "(2::nat) ^ k \<le> 2 ^ j" using that(2) by simp
      ultimately show False using that(1) by linarith
    qed
    moreover have "palloc_region count r s = Inr (s, 0)" using 1 av ord by (auto simp: palloc_region_def Let_def)
    ultimately show ?thesis using 1 by blast
  next
    case 2
    define split where "split = (if pn_has_next (buddy ?s r k) then Inr (?s, 0) else buddy_split (k + 1) r ?s)"
    have step: "palloc_region count r s = ebind split (\<lambda>(s, rc).
       if rc = - 1 then Inr (unlock_region r s, 0)
       else ebind (get_node_by_pfn s (pn_next (buddy s r k))) (\<lambda>node.
         Inr ((unlock_region r (upd_region r (\<lambda>rg. rg\<lparr>pr_avail_pages := pr_avail_pages rg - 2 ^ k\<rparr>)
           (upd_node (pn_next (buddy s r k)) (\<lambda>n. n\<lparr>pn_alloc := True, pn_has_next := False, pn_next := 0\<rparr>)
             (upd_buddy r k (\<lambda>b. b\<lparr>pn_next := pn_next node, pn_has_next := pn_has_next node\<rparr>) s))))
             \<lparr>num_pages_alloc := num_pages_alloc s + 2 ^ k\<rparr>, pn_next (buddy s r k))))"
      using 2 av ord I(5) unfolding palloc_region_def split_def
      by (simp add: Let_def palloc_region_def unlock_region_def upd_region_def upd_node_def upd_buddy_def cong: if_cong)
    have "(\<forall>j\<ge>k. L r j = []) \<and> split = Inr (?s, - 1) \<or> (\<exists>j\<ge>k. L r j \<noteq> []) \<and>
      (\<exists>s1 T1 L1 h hs. split = Inr (s1, 0) \<and> palloc_wf s1 T1 L1 \<and> env s1 = env ?s \<and> same_blocks T T1 \<and>
         free_pages L1 = free_pages L \<and> L1 r k = h # hs \<and> coalesced_but T1 h)"
      unfolding split_def by (rule split_or_head [OF wf1 I(2) r 2(1)])
    then show ?thesis
    proof (elim disjE conjE exE)
      assume none: "\<forall>j\<ge>k. L r j = []" "split = Inr (?s, - 1)"
      then have "palloc_region count r s = Inr (s, 0)" using step relock [OF I(5)] by simp
      then show ?thesis using none(1) by blast
    next
      fix j s1 T1 L1 h hs
      assume j: "k \<le> j" "L r j \<noteq> []" and s1: "split = Inr (s1, 0)" "palloc_wf s1 T1 L1" "env s1 = env ?s"
        "same_blocks T T1" "free_pages L1 = free_pages L" "L1 r k = h # hs" "coalesced_but T1 h"
      note P = pop_list_lists [OF palloc_wfD(3) [OF s1(2)] s1(6)] and E = envD [OF s1(3)]
      define s' where "s' = (unlock_region r (upd_region r (\<lambda>rg. rg\<lparr>pr_avail_pages := pr_avail_pages rg - 2 ^ k\<rparr>)
         (upd_node h (\<lambda>n. n\<lparr>pn_alloc := True, pn_has_next := False, pn_next := 0\<rparr>) (pop_list r k h s1))))
         \<lparr>num_pages_alloc := num_pages_alloc s1 + 2 ^ k\<rparr>"
      have res: "palloc_region count r s = Inr (s', h)"
        using step s1(1) P(5,6) by (simp add: s'_def pop_list_def)
      have env: "region_env s' = region_env s"
        using env_region_env [OF s1(3)] P(2) unfolding s'_def
        by (simp add: region_env_def env_def unlock_region_def upd_region_def upd_node_def fun_eq_iff)
      have inv': "palloc_inv s' (T1(h \<mapsto> (r, k, True))) (lupd L1 r k hs)" and h: "T1 h = Some (r, k, False)"
      proof -
        have "alloc_pages T1 = alloc_pages T" using s1(4) by (intro alloc_pages_cong) (simp add: same_blocks_def)
        then have "num_pages_alloc s1 = of_nat (alloc_pages T1)" using E(6) I(4) by (simp add: upd_region_def)
        moreover have "\<forall>r<32. pr_avail_pages (regions s1 r) = of_nat (free_pages L1 r)"
          using E(9) I(3) s1(5) by simp
        moreover have "\<forall>r'. r' \<noteq> r \<longrightarrow> \<not> pr_locked (regions s1 r')" using E(10) I(5) by simp
        moreover have "region_count s1 \<le> 32" "pfn_limit s1 \<le> 2 ^ 52" using E(2,4) I(6,7) by (simp_all add: upd_region_def)
        ultimately show "palloc_inv s' (T1(h \<mapsto> (r, k, True))) (lupd L1 r k hs)" "T1 h = Some (r, k, False)"
          using palloc_region_take [OF s1(2,6) ord(2) s'_def s1(7)] by blast+
      qed
      have "tiling (pfn_start s) (pfn_limit s) T1" using palloc_wfD(1) [OF s1(2)] E(1,2) by (simp add: upd_region_def)
      then show ?thesis using 2(1) j res env inv' h s1(4) by blast
    qed
  qed
qed

section \<open>Combining\<close>

lemma pfn_mod_order_page_count_eq_0: "pfn_mod_order_page_count p (2 ^ k) = 0 \<longleftrightarrow> 2 ^ k dvd p"
proof -
  have "pfn_mod_order_page_count p (2 ^ k) = take_bit k p"
    by (simp add: pfn_mod_order_page_count_def take_bit_eq_mask mask_eq_exp_minus_1)
  then show ?thesis by (simp add: take_bit_eq_0_iff)
qed

lemma nodes_ok_join:
  assumes ok: "nodes_ok s T" and p: "T p = Some (r, k, False)" "T (p + 2 ^ k) = Some (r, k, False)"
    and cs: "cores s' = (cores s)(p := (Suc k, r, False, True), p + 2 ^ k := (Suc k, r, False, True))"
    and val: "is_pfn_valid s' = is_pfn_valid s"
  shows "nodes_ok s' (join_tiles T p r k)"
  unfolding nodes_ok_def
proof (intro conjI allI impI)
  fix q r' j a assume "join_tiles T p r k q = Some (r', j, a)"
  then show "cores s' q = (j, r', a, True)"
    using nodes_okD(1) [OF ok] by (auto simp: join_tiles_def cs split: if_splits)
next
  fix q j r' a assume q: "is_pfn_valid s' q" "cores s' q = (j, r', a, True)"
  have new: "join_tiles T p r k p = Some (r, Suc k, False)" by (simp add: join_tiles_def)
  have halves: "block p k \<subseteq> block p (Suc k)" "block (p + 2 ^ k) k \<subseteq> block p (Suc k)" by (auto simp: block_Suc)
  show "\<exists>t j b. join_tiles T p r k t = Some (r', j, b) \<and> q \<in> block t j"
  proof (cases "q = p \<or> q = p + 2 ^ k")
    case True
    then have "r' = r" "q \<in> block p (Suc k)" using q(2) halves head_in_block by (auto simp: cs split: if_splits)
    with new show ?thesis by blast
  next
    case False
    then obtain t j' b where t: "T t = Some (r', j', b)" "q \<in> block t j'"
      using nodes_okD(2) [OF ok, of q] q val by (auto simp: cs)
    show ?thesis
    proof (cases "t = p \<or> t = p + 2 ^ k")
      case True
      then have "r' = r" "q \<in> block p (Suc k)" using t p halves by auto
      with new show ?thesis by blast
    next
      case False
      with t show ?thesis by (auto simp: join_tiles_def)
    qed
  qed
next
  fix q j r' v assume q: "is_pfn_valid s' q" "cores s' q = (j, r', True, v)"
  then have "q \<noteq> p" "q \<noteq> p + 2 ^ k" "cores s q = (j, r', True, v)" by (auto simp: cs split: if_splits)
  then show "\<exists>r' j. join_tiles T p r k q = Some (r', j, True)"
    using nodes_okD(3) [OF ok, of q] q(1) val by (auto simp: join_tiles_def)
qed

lemma buddy_check:
  assumes wf: "palloc_wf s T L" and p: "T p = Some (r, k, a)" and val: "is_pfn_valid s (buddy_pfn p k)"
  shows "pn_avail (nodes s (buddy_pfn p k)) \<and> pn_region (nodes s (buddy_pfn p k)) = r \<and>
      \<not> pn_alloc (nodes s (buddy_pfn p k)) \<and> k = pn_order (nodes s (buddy_pfn p k)) \<longleftrightarrow>
    T (buddy_pfn p k) = Some (r, k, False)"
proof
  assume l: "pn_avail (nodes s (buddy_pfn p k)) \<and> pn_region (nodes s (buddy_pfn p k)) = r \<and>
      \<not> pn_alloc (nodes s (buddy_pfn p k)) \<and> k = pn_order (nodes s (buddy_pfn p k))"
  then have c: "cores s (buddy_pfn p k) = (k, r, False, True)" by (simp add: cores_def core_def)
  then obtain q j b where q: "T q = Some (r, j, b)" "buddy_pfn p k \<in> block q j"
    using nodes_okD(2) [OF palloc_wfD(2) [OF wf] val] by blast
  then have "q = buddy_pfn p k" using buddy_tile [OF palloc_wfD(1) [OF wf] p] by blast
  then show "T (buddy_pfn p k) = Some (r, k, False)"
    using q(1) c nodes_okD(1) [OF palloc_wfD(2) [OF wf], of "buddy_pfn p k"] by auto
next
  assume "T (buddy_pfn p k) = Some (r, k, False)"
  from tile_node [OF wf this] show "pn_avail (nodes s (buddy_pfn p k)) \<and> pn_region (nodes s (buddy_pfn p k)) = r \<and>
      \<not> pn_alloc (nodes s (buddy_pfn p k)) \<and> k = pn_order (nodes s (buddy_pfn p k))" by simp
qed

lemma lists_join:
  assumes wf: "palloc_wf s T L" and p: "T p = Some (r, k, False)" "T (p + 2 ^ k) = Some (r, k, False)"
    and ps: "set ps = set (L r k) - {p, p + 2 ^ k}"
  shows "set (lupd (lupd L r k ps) r (Suc k) (p # L r (Suc k)) r' j) =
     {q. join_tiles T p r k q = Some (r', j, False)}"
proof -
  note L = palloc_wfD(4) [OF wf]
  consider "r' = r" "j = k" | "r' = r" "j = Suc k" | "r' \<noteq> r \<or> j \<noteq> k \<and> j \<noteq> Suc k" by blast
  then show ?thesis
  proof cases
    case 1
    then show ?thesis using ps L by (auto simp: join_tiles_def)
  next
    case 2
    then show ?thesis using p L by (auto simp: join_tiles_def)
  next
    case 3
    then show ?thesis using p L by (auto simp: join_tiles_def)
  qed
qed

abbreviation combine_setup :: "nat \<Rightarrow> nat \<Rightarrow> palloc_node \<Rightarrow> palloc_node" where
  "combine_setup r k \<equiv>
     \<lambda>n. n\<lparr>pn_has_next := False, pn_next := 0, pn_order := k, pn_region := r, pn_avail := True\<rparr>"

lemma length_remove1_Suc: "x \<in> set xs \<Longrightarrow> length xs = Suc (length (remove1 x xs))"
  using length_pos_if_in_set [of x xs] by (simp add: length_remove1)

lemma join_step:
  assumes wf: "palloc_wf s T L" and pq: "{p, q} = {h, h + 2 ^ k}" "p \<noteq> q"
    and h: "T h = Some (r, k, False)" "T (h + 2 ^ k) = Some (r, k, False)" and al: "2 ^ Suc k dvd h" "k < 15"
  shows "\<exists>s1 s2 s' L'. remove_node p r k s = Inr s1 \<and> remove_node q r k s1 = Inr s2 \<and>
     insert_node h r (Suc k) (upd_node q (combine_setup r (Suc k)) (upd_node p (combine_setup r (Suc k)) s2)) = Inr s' \<and>
     palloc_wf s' (join_tiles T h r k) L' \<and> env s' = env s \<and> free_pages L' = free_pages L"
proof -
  note til = palloc_wfD(1) [OF wf] and ok = palloc_wfD(2) [OF wf] and fl = palloc_wfD(3) [OF wf]
  have T: "T p = Some (r, k, False)" "T q = Some (r, k, False)" using pq h by (auto simp: doubleton_eq_iff)
  have in_L: "p \<in> set (L r k)" "q \<in> set (L r k)" using palloc_wfD(4) [OF wf] T by auto
  have dist: "distinct (L r k)" using free_listsD(3) [OF fl] .
  have rk: "r < 32" "k \<le> 15" "Suc k \<le> 15" using tilingD(6) [OF til h(1)] al(2) by auto
  obtain s1 where s1: "remove_node p r k s = Inr s1" "free_lists s1 (lupd L r k (remove1 p (L r k)))"
      "env s1 = env s" "cores s1 = cores s" using remove_node_lists [OF fl in_L(1)] by blast
  define ps where "ps = remove1 q (remove1 p (L r k))"
  have "q \<in> set (lupd L r k (remove1 p (L r k)) r k)" using in_L(2) pq(2) by simp
  then obtain s2 where s2: "remove_node q r k s1 = Inr s2" "free_lists s2 (lupd L r k ps)"
      "env s2 = env s1" "cores s2 = cores s1" using remove_node_lists [OF s1(2), of q r k] by (auto simp: ps_def)
  have ps: "set ps = set (L r k) - {h, h + 2 ^ k}" using dist pq by (simp add: ps_def) blast
  define s3 where "s3 = upd_node q (combine_setup r (Suc k)) (upd_node p (combine_setup r (Suc k)) s2)"
  have off: "\<not> on_list (lupd L r k ps) x" if "x = h \<or> x = h + 2 ^ k" for x
    using that ps palloc_wfD(4) [OF wf, of x] h by (auto simp: on_list_def split: if_splits)
  have offpq: "\<not> on_list (lupd L r k ps) p" "\<not> on_list (lupd L r k ps) q"
    using off [of p] off [of q] pq(1) by (auto simp: doubleton_eq_iff)
  have fl3: "free_lists s3 (lupd L r k ps)"
    unfolding s3_def by (intro free_lists_upd_node disjI1 s2(2) offpq)
  have env3: "env s3 = env s" using s1(3) s2(3) by (simp add: s3_def)
  have "is_pfn_valid s3 h" using tile_node(5) [OF wf h(1)] envD(11) [OF env3] by simp
  then obtain s' where s': "insert_node h r (Suc k) s3 = Inr s'"
      "free_lists s' (lupd (lupd L r k ps) r (Suc k) (h # L r (Suc k)))" "env s' = env s3" "cores s' = cores s3"
    using insert_node_lists [OF fl3 _ off [of h] rk(1,3)] by auto
  define L' where "L' = lupd (lupd L r k ps) r (Suc k) (h # L r (Suc k))"
  have env': "env s' = env s" using s'(3) env3 by simp
  have al2: "\<not> pn_alloc (nodes s2 p)" "\<not> pn_alloc (nodes s2 q)"
    using s1(4) s2(4) tile_node(3) [OF wf T(1)] tile_node(3) [OF wf T(2)]
    by (metis (no_types) cores_def core_def prod.inject)+
  have "cores s3 = (cores s)(h := (Suc k, r, False, True), h + 2 ^ k := (Suc k, r, False, True))"
    using s1(4) s2(4) al2 pq by (auto simp: s3_def core_def doubleton_eq_iff fun_eq_iff)
  then have "nodes_ok s' (join_tiles T h r k)"
    using s'(4) envD(11) [OF env'] by (intro nodes_ok_join [OF ok h]) auto
  then have wf': "palloc_wf s' (join_tiles T h r k) L'"
    using tiling_join [OF til h al] s'(2) lists_join [OF wf h ps] unfolding palloc_wf_def L'_def envD(1,2) [OF env'] by blast
  have len: "length (L r k) = length ps + 2"
    using length_remove1_Suc [OF in_L(1)] length_remove1_Suc [of q "remove1 p (L r k)"] in_L(2) pq(2)
    by (simp add: ps_def)
  have "free_pages L' r = free_pages L r"
    using free_pages_lupd [OF rk(3), of "lupd L r k ps" r "h # L r (Suc k)"] free_pages_lupd [OF rk(2), of L r ps] len
    by (simp add: L'_def algebra_simps)
  moreover have "free_pages L' r' = free_pages L r'" if "r' \<noteq> r" for r' using that by (simp add: L'_def)
  ultimately have "free_pages L' = free_pages L" by (metis ext)
  then show ?thesis using s1(1) s2(1) s'(1) wf' env' unfolding s3_def by blast
qed


lemma buddy_combine_step:
  assumes wf: "palloc_wf s T L" and p: "T p = Some (r, k, False)" and k: "k < 15"
  shows "buddy_combine_loop (Suc fuel) p s =
     (if T (buddy_pfn p k) \<noteq> Some (r, k, False) then Inr s
      else ebind (remove_node p r k s) (\<lambda>s. ebind (remove_node (buddy_pfn p k) r k s) (\<lambda>s.
        ebind (insert_node (pair_pfn p k) r (Suc k)
          (upd_node (buddy_pfn p k) (combine_setup r (Suc k)) (upd_node p (combine_setup r (Suc k)) s)))
          (buddy_combine_loop fuel (pair_pfn p k)))))"
proof -
  note N = tile_node [OF wf p]
  define h q where "h = pair_pfn p k" and "q = buddy_pfn p k"
  have "pfn_mod_order_page_count p (2 * 2 ^ k) = 0 \<longleftrightarrow> 2 ^ Suc k dvd p"
    using pfn_mod_order_page_count_eq_0 [of p "Suc k"] by simp
  then have pair: "(if pfn_mod_order_page_count p (2 ^ (k + 1)) = 0 then (p, p + 2 ^ k) else (p - 2 ^ k, p - 2 ^ k)) = (h, q)"
    by (simp add: pair_pfn_def buddy_pfn_def h_def q_def)
  have step: "buddy_combine_loop (Suc fuel) p s =
     (if \<not> is_pfn_valid s q then Inr s
      else if \<not> pn_avail (nodes s q) \<or> pn_region (nodes s q) \<noteq> r \<or> pn_alloc (nodes s q) \<or> k \<noteq> pn_order (nodes s q)
      then Inr s
      else ebind (remove_node p r k s) (\<lambda>s. ebind (remove_node q r k s) (\<lambda>s.
        ebind (insert_node h r (Suc k) (upd_node q (combine_setup r (Suc k)) (upd_node p (combine_setup r (Suc k)) s)))
          (buddy_combine_loop fuel h))))"
    unfolding buddy_combine_loop.simps(2) get_node_valid [OF N(5)] ebind_Inr Let_def N(1,2) pair prod.case
    using k by simp
  show ?thesis
    using buddy_check [OF wf p] tile_node(5) [OF wf, of q] unfolding step h_def [symmetric] q_def [symmetric]
    by (cases "is_pfn_valid s q") auto
qed

lemma buddy_combine_top:
  assumes wf: "palloc_wf s T L" and p: "T p = Some (r, 15, False)"
  shows "buddy_combine_loop (Suc fuel) p s = Inr s"
  using tile_node [OF wf p] by simp

declare buddy_combine_loop.simps(2) [simp del]

lemma buddy_combine_wf:
  assumes "palloc_wf s T L" "T p = Some (r, k, False)" "coalesced_but T p" "15 < fuel + k"
  shows "\<exists>s' T' L'. buddy_combine_loop fuel p s = Inr s' \<and> palloc_wf s' T' L' \<and> coalesced T' \<and> same_blocks T T' \<and>
     env s' = env s \<and> free_pages L' = free_pages L"
  using assms
proof (induction fuel arbitrary: s T L p k)
  case 0
  then show ?case using tilingD(5) [OF palloc_wfD(1) [OF 0(1)] 0(2)] by simp
next
  case (Suc fuel)
  note wf = Suc.prems(1) and p = Suc.prems(2) and co = Suc.prems(3)
  note til = palloc_wfD(1) [OF wf]
  have k: "k \<le> 15" and al: "2 ^ k dvd p" using tilingD(4,5) [OF til p] by auto
  show ?case
  proof (cases "k = 15 \<or> T (buddy_pfn p k) \<noteq> Some (r, k, False)")
    case True
    have "buddy_combine_loop (Suc fuel) p s = Inr s"
      using True buddy_combine_step [OF wf p] buddy_combine_top [OF wf] p k by (cases "k = 15") auto
    moreover have "coalesced T" by (rule coalesced_if_no_buddy [OF til p co True])
    ultimately show ?thesis using wf same_blocks_refl by blast
  next
    case False
    then have k15: "k < 15" and b: "T (buddy_pfn p k) = Some (r, k, False)" using k by auto
    define h where "h = pair_pfn p k"
    note pq = pair_pfn_set [OF al, folded h_def]
    have h: "T h = Some (r, k, False)" "T (h + 2 ^ k) = Some (r, k, False)" and ph: "p = h \<or> p = h + 2 ^ k"
      using pq p b by (auto simp: doubleton_eq_iff)
    have alh: "2 ^ Suc k dvd h" using pair_pfn_aligned [OF al] by (simp add: h_def)
    obtain s1 s2 s3 L3 where s: "remove_node p r k s = Inr s1" "remove_node (buddy_pfn p k) r k s1 = Inr s2"
        "insert_node h r (Suc k) (upd_node (buddy_pfn p k) (combine_setup r (Suc k))
           (upd_node p (combine_setup r (Suc k)) s2)) = Inr s3"
        "palloc_wf s3 (join_tiles T h r k) L3" "env s3 = env s" "free_pages L3 = free_pages L"
      using join_step [OF wf pq buddy_pfn_neq [OF al, symmetric] h alh k15] by blast
    have "buddy_combine_loop (Suc fuel) p s = buddy_combine_loop fuel h s3"
      using buddy_combine_step [OF wf p k15] b s(1-3) by (simp add: h_def)
    moreover obtain s' T' L' where "buddy_combine_loop fuel h s3 = Inr s'" "palloc_wf s' T' L'" "coalesced T'"
        "same_blocks (join_tiles T h r k) T'" "env s' = env s3" "free_pages L' = free_pages L3"
    proof -
      have "join_tiles T h r k h = Some (r, Suc k, False)" by (simp add: join_tiles_def)
      moreover have "15 < fuel + Suc k" using Suc.prems(4) by simp
      ultimately show thesis using Suc.IH [OF s(4) _ coalesced_but_join [OF ph co]] that by blast
    qed
    ultimately show ?thesis
      using s(5,6) same_blocks_trans [OF same_blocks_join [OF til h alh k15]] by metis
  qed
qed

section \<open>Release\<close>

lemma free_step:
  assumes wf: "palloc_wf s T L" and p: "T p = Some (r, k, True)"
  shows "\<exists>s'. insert_node p r k (upd_node p (\<lambda>n. n\<lparr>pn_alloc := False\<rparr>) s) = Inr s' \<and>
     palloc_wf s' (T(p \<mapsto> (r, k, False))) (lupd L r k (p # L r k)) \<and> env s' = env s"
proof -
  note til = palloc_wfD(1) [OF wf] and fl = palloc_wfD(3) [OF wf]
  define s1 where "s1 = upd_node p (\<lambda>n. n\<lparr>pn_alloc := False\<rparr>) s"
  have off: "\<not> on_list L p" using p palloc_wfD(5) [OF wf, of p] by simp
  have "free_lists s1 L" unfolding s1_def by (intro free_lists_upd_node disjI1 fl off)
  moreover have "is_pfn_valid s1 p" using tile_node(5) [OF wf p] by (simp add: s1_def)
  ultimately obtain s' where s': "insert_node p r k s1 = Inr s'" "free_lists s' (lupd L r k (p # L r k))"
      "env s' = env s1" "cores s' = cores s1"
    using insert_node_lists [OF _ _ off tilingD(6,5) [OF til p]] by blast
  have env: "env s' = env s" using s'(3) by (simp add: s1_def)
  have "cores s' = (cores s)(p := (k, r, False, True))"
    using s'(4) tile_node [OF wf p] by (simp add: s1_def core_def)
  then have "nodes_ok s' (T(p \<mapsto> (r, k, False)))"
    using envD(11) [OF env] by (intro nodes_ok_set_alloc [OF palloc_wfD(2) [OF wf] p]) auto
  moreover have "set (lupd L r k (p # L r k) r' j) = {q. (T(p \<mapsto> (r, k, False))) q = Some (r', j, False)}" for r' j
    using palloc_wfD(4) [OF wf, of _ r' j] p by auto
  ultimately have "palloc_wf s' (T(p \<mapsto> (r, k, False))) (lupd L r k (p # L r k))"
    using tiling_set_alloc [OF til p] s'(2) unfolding palloc_wf_def envD(1,2) [OF env] by blast
  then show ?thesis using s'(1) env by (auto simp: s1_def)
qed

text \<open>
  \<^verbatim>\<open>pfree\<close> links the block in by hand and looks at the whole word of the list head to find out whether
  the list is empty; on well-formed lists this is \<open>insert_node\<close>.
\<close>

lemma pfree_link:
  assumes fl: "free_lists s L" and rk: "r < 32" "k \<le> 15" and p: "is_pfn_valid s p"
  shows "insert_node p r k s = Inr (upd_buddy r k (\<lambda>b. b\<lparr>pn_has_next := True, pn_next := p\<rparr>)
     (if node_value_set (buddy s r k)
      then upd_node p (\<lambda>n. n\<lparr>pn_next := pn_next (buddy s r k), pn_has_next := True\<rparr>) s
      else upd_node p (\<lambda>n. n\<lparr>pn_next := 0, pn_has_next := False\<rparr>) s))"
proof (cases "L r k")
  case Nil
  then have "pn_next (buddy s r k) = 0" "\<not> pn_has_next (buddy s r k)" using free_listsD(1) [OF fl rk] by auto
  then show ?thesis using node_value_set_iff [OF fl rk] Nil p by (simp add: insert_node_def)
next
  case (Cons h hs)
  then have "pn_has_next (buddy s r k)" using free_listsD(1) [OF fl rk] by auto
  then show ?thesis using node_value_set_iff [OF fl rk] Cons p by (simp add: insert_node_def)
qed

lemma alloc_pages_free:
  assumes til: "tiling lo hi T" and p: "T p = Some (r, k, True)"
  shows "alloc_pages T = alloc_pages (T(p \<mapsto> (r, k, False))) + 2 ^ k"
proof -
  have "alloc_pages ((T(p \<mapsto> (r, k, False)))(p \<mapsto> (r, k, True))) = alloc_pages (T(p \<mapsto> (r, k, False))) + 2 ^ k"
    by (rule alloc_pages_alloc [OF tiling_set_alloc [OF til p]]) simp
  moreover have "(T(p \<mapsto> (r, k, False)))(p \<mapsto> (r, k, True)) = T" using p by (simp add: fun_upd_idem)
  ultimately show ?thesis by simp
qed

lemma pfree_inv:
  assumes inv: "palloc_inv s T L" and p: "T p = Some (r, k, True)"
  shows "\<exists>s' T' L'. pfree p s = Inr (s', 2 ^ k) \<and> palloc_inv s' T' L' \<and>
     same_blocks (T(p \<mapsto> (r, k, False))) T' \<and> region_env s' = region_env s"
proof -
  note I = palloc_invD [OF inv] and wf = palloc_invD(1) [OF inv]
  note N = tile_node [OF wf p] and rk = tilingD(6,5) [OF palloc_wfD(1) [OF wf] p]
  define s0 where "s0 = upd_region r (\<lambda>rg. rg\<lparr>pr_locked := True\<rparr>) s"
  define s1 where "s1 = upd_node p (\<lambda>n. n\<lparr>pn_alloc := False\<rparr>) s0"
  have wf0: "palloc_wf s0 T L" unfolding s0_def by (rule palloc_wf_upd_region [OF wf]) simp
  obtain s2 where s2: "insert_node p r k s1 = Inr s2" "palloc_wf s2 (T(p \<mapsto> (r, k, False))) (lupd L r k (p # L r k))"
      "env s2 = env s0" using free_step [OF wf0 p] by (auto simp: s1_def)
  define s3 where "s3 = upd_region r (\<lambda>rg. rg\<lparr>pr_avail_pages := pr_avail_pages rg + of_nat (2 ^ k)\<rparr>) s2"
  have wf3: "palloc_wf s3 (T(p \<mapsto> (r, k, False))) (lupd L r k (p # L r k))"
    unfolding s3_def by (rule palloc_wf_upd_region [OF s2(2)]) simp
  obtain s4 T' L' where s4: "buddy_combine p s3 = Inr s4" "palloc_wf s4 T' L'" "coalesced T'"
      "same_blocks (T(p \<mapsto> (r, k, False))) T'" "env s4 = env s3" "free_pages L' = free_pages (lupd L r k (p # L r k))"
    using buddy_combine_wf [OF wf3 _ coalesced_free [OF I(2)], of r k "Suc 15"] by (auto simp: buddy_combine_def)
  define s' where "s' = (unlock_region r s4)\<lparr>num_pages_alloc := num_pages_alloc s4 - of_nat (2 ^ k)\<rparr>"
  note E2 = envD [OF s2(3)] and E4 = envD [OF s4(5)]
  have "free_lists s1 L"
    unfolding s1_def using palloc_wfD(5) [OF wf0, of p] p by (intro free_lists_upd_node disjI1 palloc_wfD(3) [OF wf0]) simp
  then have s2_eq: "s2 = upd_buddy r k (\<lambda>b. b\<lparr>pn_has_next := True, pn_next := p\<rparr>)
     (if node_value_set (buddy s1 r k)
      then upd_node p (\<lambda>n. n\<lparr>pn_next := pn_next (buddy s1 r k), pn_has_next := True\<rparr>) s1
      else upd_node p (\<lambda>n. n\<lparr>pn_next := 0, pn_has_next := False\<rparr>) s1)"
    using pfree_link [OF _ rk, of s1 L p] s2(1) tile_node(5) [OF wf0 p] by (simp add: s1_def)
  have res: "pfree p s = Inr (s', 2 ^ k)"
    unfolding pfree_def get_node_valid [OF N(5)] ebind_Inr Let_def N(1,2) lock_region_free [OF I(5)]
      s0_def [symmetric] s1_def [symmetric] s2_eq [symmetric] s3_def [symmetric] s4(1)
    by (simp add: s'_def unlock_region_def upd_region_def)
  have wf': "palloc_wf s' T' L'"
    unfolding s'_def palloc_wf_stats unlock_region_def by (rule palloc_wf_upd_region [OF s4(2)]) simp
  have "pr_avail_pages (regions s' r') = of_nat (free_pages L' r')" if "r' < 32" for r'
    using I(3) [OF that] E2(9) E4(9) s4(6) free_pages_lupd [OF rk(2), of L r "p # L r k"]
    by (cases "r' = r") (auto simp: s'_def unlock_region_def s3_def s0_def)
  moreover have "num_pages_alloc s' = of_nat (alloc_pages T')"
  proof -
    have "num_pages_alloc s4 = num_pages_alloc s" using E2(6) E4(6) by (simp add: s3_def s0_def upd_region_def)
    moreover have "alloc_pages T' = alloc_pages (T(p \<mapsto> (r, k, False)))"
      using s4(4) by (intro alloc_pages_cong) (simp add: same_blocks_def)
    ultimately show ?thesis
      using I(4) alloc_pages_free [OF palloc_wfD(1) [OF wf] p] by (simp add: s'_def)
  qed
  moreover have "\<not> pr_locked (regions s' r')" for r'
    using I(5) E2(10) E4(10) by (cases "r' = r") (auto simp: s'_def unlock_region_def s3_def s0_def)
  moreover have "region_count s' \<le> 32" "pfn_limit s' \<le> 2 ^ 52" "region_env s' = region_env s"
    using I(6,7) E2(1,2,4,7,8) E4(1,2,4,7,8)
    by (auto simp: s'_def unlock_region_def s3_def s0_def upd_region_def region_env_def fun_eq_iff)
  ultimately show ?thesis using wf' s4(3,4) res by (auto simp: palloc_inv_def)
qed

section \<open>Client view\<close>

lemma option_eqI: "(\<And>y. a = Some y \<longleftrightarrow> b = Some y) \<Longrightarrow> a = b"
  by (cases a; cases b) auto

lemma palloc_okE:
  assumes "palloc_ok s" obtains T L where "palloc_inv s T L" "palloc_wf s T L"
  using assms palloc_invD(1) by (auto simp: palloc_ok_def)

definition can_alloc :: "palloc_state \<Rightarrow> nat \<Rightarrow> nat \<Rightarrow> bool" where
  "can_alloc s r k \<longleftrightarrow> k < PALLOC_MAX_ORDER \<and> (\<exists>b. 2 ^ k dvd b \<and> block b k \<subseteq> free_frames s r)"

text \<open>The block of order \<open>k\<close> at \<open>p\<close> moves from the free frames of region \<open>r\<close> to the allocated blocks.\<close>

definition block_taken :: "palloc_state \<Rightarrow> palloc_state \<Rightarrow> nat \<Rightarrow> nat \<Rightarrow> nat \<Rightarrow> bool" where
  "block_taken s s' r k p \<longleftrightarrow>
     0 < p \<and> 2 ^ k dvd p \<and> block p k \<subseteq> free_frames s r \<and>
     (\<forall>r'<MAX_PALLOC_REGION_COUNT. free_frames s' r' = (if r' = r then free_frames s r - block p k else free_frames s r')) \<and>
     allocated s p = None \<and> allocated s' = (allocated s)(p \<mapsto> k) \<and> pn_region (nodes s' p) = r"

lemma free_cover_alloc:
  assumes til: "tiling lo hi T" and p: "T p = Some (r, k, False)"
  shows "free_cover (T(p \<mapsto> (r, k, True))) r' = (if r' = r then free_cover T r - block p k else free_cover T r')"
proof (intro set_eqI iffI)
  fix x assume "x \<in> free_cover (T(p \<mapsto> (r, k, True))) r'"
  then obtain q j where q: "T q = Some (r', j, False)" "q \<noteq> p" "x \<in> block q j"
    by (auto simp: free_cover_def split: if_splits)
  then have "x \<notin> block p k" using tiling_unique [OF til p q(1)] by blast
  with q show "x \<in> (if r' = r then free_cover T r - block p k else free_cover T r')"
    by (auto simp: free_cover_def)
next
  fix x assume x: "x \<in> (if r' = r then free_cover T r - block p k else free_cover T r')"
  then obtain q j where q: "T q = Some (r', j, False)" "x \<in> block q j" by (auto simp: free_cover_def split: if_splits)
  then have "q \<noteq> p" using x p by (auto split: if_splits)
  with q show "x \<in> free_cover (T(p \<mapsto> (r, k, True))) r'" by (auto simp: free_cover_def)
qed

lemma can_alloc_iff:
  assumes inv: "palloc_inv s T L" and r: "r < 32"
  shows "can_alloc s r k \<longleftrightarrow> k < 15 \<and> (\<exists>j\<ge>k. L r j \<noteq> [])"
proof -
  note wf = palloc_invD(1) [OF inv] and til = palloc_wfD(1) [OF palloc_invD(1) [OF inv]]
  have "(\<exists>b. 2 ^ k dvd b \<and> block b k \<subseteq> free_cover T r) \<longleftrightarrow> (\<exists>j\<ge>k. L r j \<noteq> [])" if k15: "k < 15"
  proof
    assume "\<exists>b. 2 ^ k dvd b \<and> block b k \<subseteq> free_cover T r"
    then obtain b where b: "2 ^ k dvd b" "block b k \<subseteq> free_cover T r" by blast
    obtain p j where "T p = Some (r, j, False)" "k \<le> j"
      using coalesced_complete [OF til palloc_invD(2) [OF inv] b(1) less_imp_le [OF k15] b(2)] by blast
    then show "\<exists>j\<ge>k. L r j \<noteq> []" using palloc_wfD(4) [OF wf, of p r j] by (intro exI [of _ j]) auto
  next
    assume "\<exists>j\<ge>k. L r j \<noteq> []"
    then obtain j p where j: "k \<le> j" "p \<in> set (L r j)" by (meson hd_in_set)
    then have p: "T p = Some (r, j, False)" using palloc_wfD(4) [OF wf] by blast
    have "2 ^ k dvd p" using tilingD(4) [OF til p] j(1) by (rule power_le_dvd)
    moreover have "(2::nat) ^ k \<le> 2 ^ j" using j(1) by simp
    then have "block p k \<subseteq> block p j" by (auto simp: block_def)
    then have "block p k \<subseteq> free_cover T r" using p by (auto simp: free_cover_def)
    ultimately show "\<exists>b. 2 ^ k dvd b \<and> block b k \<subseteq> free_cover T r" by blast
  qed
  then show ?thesis by (auto simp: can_alloc_def free_frames_eq [OF wf r])
qed

lemma palloc_region_spec:
  assumes ok: "palloc_ok s" and r: "r < 32" and ord: "calc_palloc_order count = Inr k" "k \<le> 15"
  shows "\<exists>s' p. palloc_region count r s = Inr (s', p) \<and> palloc_ok s' \<and> region_env s' = region_env s \<and>
     (if can_alloc s r k then block_taken s s' r k p else p = 0 \<and> s' = s)"
proof -
  obtain T L where inv: "palloc_inv s T L" and wf: "palloc_wf s T L" using palloc_okE [OF ok] .
  from palloc_region_inv [OF inv r ord] show ?thesis
  proof (elim disjE conjE exE)
    fix j s' T1 L1 h hs
    assume k: "k < 15" "k \<le> j" "L r j \<noteq> []" and res: "palloc_region count r s = Inr (s', h)"
      and til: "tiling (pfn_start s) (pfn_limit s) T1" and sb: "same_blocks T T1" and h: "T1 h = Some (r, k, False)"
      and inv': "palloc_inv s' (T1(h \<mapsto> (r, k, True))) (lupd L1 r k hs)" and env: "region_env s' = region_env s"
    note wf' = palloc_invD(1) [OF inv']
    have fc: "free_cover T1 = free_cover T" using sb by (auto simp: same_blocks_def)
    have "block h k \<subseteq> free_cover T1 r" using h by (auto simp: free_cover_def)
    moreover have "free_frames s' r' = (if r' = r then free_frames s r - block h k else free_frames s r')" if "r' < 32" for r'
      using free_frames_eq [OF wf' that] free_frames_eq [OF wf that] free_frames_eq [OF wf r]
      by (simp add: free_cover_alloc [OF til h] fc)
    moreover have al: "allocated s p = Some j \<longleftrightarrow> (\<exists>r. T1 p = Some (r, j, True))" for p j
      using allocated_eq [OF wf] sb by (simp add: same_blocks_def)
    then have "allocated s h = None" using h by (metis not_Some_eq option.inject prod.inject)
    moreover have "allocated s' = (allocated s)(h \<mapsto> k)"
    proof
      fix p show "allocated s' p = ((allocated s)(h \<mapsto> k)) p"
        using allocated_eq [OF wf', of p] al [of p] by (intro option_eqI) (cases "p = h"; auto)
    qed
    ultimately have "block_taken s s' r k h"
      using tilingD(1,4) [OF til h] free_frames_eq [OF wf r] fc tile_node(2) [OF wf', of h r k True]
      by (simp add: block_taken_def)
    moreover have "can_alloc s r k" using can_alloc_iff [OF inv r] k by blast
    ultimately show ?thesis using res env inv' by (auto simp: palloc_ok_def)
  next
    assume "k = 15" "palloc_region count r s = Inr (s, 0)"
    then show ?thesis using ok can_alloc_iff [OF inv r, of k] by auto
  next
    assume "\<forall>j\<ge>k. L r j = []" "palloc_region count r s = Inr (s, 0)"
    then show ?thesis using ok can_alloc_iff [OF inv r, of k] by auto
  qed
qed

lemma free_cover_free:
  assumes til: "tiling lo hi T" and p: "T p = Some (r, k, True)"
  shows "free_cover (T(p \<mapsto> (r, k, False))) r' = (if r' = r then free_cover T r \<union> block p k else free_cover T r')"
proof -
  have "free_cover ((T(p \<mapsto> (r, k, False)))(p \<mapsto> (r, k, True))) r' = free_cover T r'"
    using p by (simp add: fun_upd_idem)
  moreover have "block p k \<subseteq> free_cover (T(p \<mapsto> (r, k, False))) r" by (auto simp: free_cover_def)
  ultimately show ?thesis
    using free_cover_alloc [OF tiling_set_alloc [OF til p, of False], of p r k r'] by (auto split: if_splits)
qed

lemma pfree_spec:
  assumes ok: "palloc_ok s" and p: "allocated s p = Some k"
  shows "\<exists>s'. pfree p s = Inr (s', 2 ^ k) \<and> palloc_ok s' \<and> region_env s' = region_env s \<and>
     allocated s' = (allocated s)(p := None) \<and>
     (\<forall>r<32. free_frames s' r =
        (if r = pn_region (nodes s p) then free_frames s r \<union> block p k else free_frames s r))"
proof -
  obtain T L where inv: "palloc_inv s T L" and wf: "palloc_wf s T L" using palloc_okE [OF ok] .
  obtain r where T: "T p = Some (r, k, True)" using p allocated_eq [OF wf] by blast
  obtain s' T' L' where s': "pfree p s = Inr (s', 2 ^ k)" "palloc_inv s' T' L'"
      "same_blocks (T(p \<mapsto> (r, k, False))) T'" "region_env s' = region_env s" using pfree_inv [OF inv T] by blast
  note wf' = palloc_invD(1) [OF s'(2)] and til = palloc_wfD(1) [OF wf]
  have "allocated s' = (allocated s)(p := None)"
  proof
    fix q show "allocated s' q = ((allocated s)(p := None)) q"
      using allocated_eq [OF wf', of q] allocated_eq [OF wf, of q] s'(3) unfolding same_blocks_def
      by (intro option_eqI) (cases "q = p"; auto)
  qed
  moreover have "free_frames s' r' = (if r' = r then free_frames s r' \<union> block p k else free_frames s r')" if "r' < 32" for r'
    using free_frames_eq [OF wf' that] free_frames_eq [OF wf that] free_cover_free [OF til T, of r'] s'(3)
    by (auto simp: same_blocks_def)
  ultimately show ?thesis using s' tile_node(2) [OF wf T] by (auto simp: palloc_ok_def)
qed

lemma palloc_ok_disjoint:
  assumes ok: "palloc_ok s" and p: "allocated s p = Some k"
  shows "allocated s q = Some j \<Longrightarrow> p \<noteq> q \<Longrightarrow> block p k \<inter> block q j = {}"
    and "r < 32 \<Longrightarrow> block p k \<inter> free_frames s r = {}"
    and "0 < p" "2 ^ k dvd p" "pfn_start s \<le> p" "p + 2 ^ k \<le> pfn_limit s"
proof -
  obtain T L where wf: "palloc_wf s T L" using palloc_okE [OF ok] .
  obtain r' where T: "T p = Some (r', k, True)" using p allocated_eq [OF wf] by blast
  note til = palloc_wfD(1) [OF wf]
  show "0 < p" "2 ^ k dvd p" "pfn_start s \<le> p" "p + 2 ^ k \<le> pfn_limit s" using tilingD(1-4) [OF til T] by auto
  show "block p k \<inter> block q j = {}" if "allocated s q = Some j" "p \<noteq> q"
    using that allocated_eq [OF wf, of q] tilingD(7) [OF til T] by blast
  show "block p k \<inter> free_frames s r = {}" if "r < 32"
  proof -
    have "x \<notin> free_cover T r" if "x \<in> block p k" for x
    proof
      assume "x \<in> free_cover T r"
      then obtain q j where "T q = Some (r, j, False)" "x \<in> block q j" by (auto simp: free_cover_def)
      then show False using tiling_unique [OF til T, of q r j False x] \<open>x \<in> block p k\<close> T by auto
    qed
    then show ?thesis using free_frames_eq [OF wf \<open>r < 32\<close>] by blast
  qed
qed

section \<open>Allocation by tags\<close>

lemma region_envD:
  assumes "region_env s' = region_env s"
  shows "pfn_start s' = pfn_start s" "pfn_limit s' = pfn_limit s" "region_count s' = region_count s"
    "pr_tags (regions s' r) = pr_tags (regions s r)" "pr_total_pages (regions s' r) = pr_total_pages (regions s r)"
  using assms by (auto simp: region_env_def fun_eq_iff)

lemma palloc_ok_region_count: "palloc_ok s \<Longrightarrow> region_count s \<le> 32"
  by (auto simp: palloc_ok_def dest: palloc_invD(6))

text \<open>
  What a search over several regions gives: a block of the first region that is among the candidates
  and has one, or 0 with the state unchanged when there is none.
\<close>

definition alloc_outcome :: "(nat \<Rightarrow> bool) \<Rightarrow> nat \<Rightarrow> palloc_state \<Rightarrow> (palloc_state \<times> nat) res \<Rightarrow> bool" where
  "alloc_outcome cand k s res \<longleftrightarrow>
     (\<exists>s' p. res = Inr (s', p) \<and> palloc_ok s' \<and> region_env s' = region_env s \<and>
        (p = 0 \<and> s' = s \<and> (\<forall>r<region_count s. cand r \<longrightarrow> \<not> can_alloc s r k) \<or>
         (\<exists>r<region_count s. cand r \<and> can_alloc s r k \<and> block_taken s s' r k p)))"

lemma palloc_tag_loop_outcome:
  assumes ok: "palloc_ok s" and ord: "calc_palloc_order count = Inr k" "k \<le> 15" and rs: "\<forall>r\<in>set rs. r < region_count s"
  shows "\<exists>s' p. palloc_tag_loop rs count msk m s = Inr (s', p) \<and> palloc_ok s' \<and> region_env s' = region_env s \<and>
     (p = 0 \<and> s' = s \<and> (\<forall>r\<in>set rs. region_matched (pr_tags (regions s r)) msk m \<longrightarrow> \<not> can_alloc s r k) \<or>
      (\<exists>r\<in>set rs. region_matched (pr_tags (regions s r)) msk m \<and> can_alloc s r k \<and> block_taken s s' r k p))"
  using rs
proof (induction rs)
  case Nil
  then show ?case using ok by simp
next
  case (Cons r rs)
  have r: "r < 32" using Cons.prems palloc_ok_region_count [OF ok] by simp
  show ?case
  proof (cases "region_matched (pr_tags (regions s r)) msk m")
    case True
    obtain s' p where *: "palloc_region count r s = Inr (s', p)" "palloc_ok s'" "region_env s' = region_env s"
        "if can_alloc s r k then block_taken s s' r k p else p = 0 \<and> s' = s"
      using palloc_region_spec [OF ok r ord] by blast
    show ?thesis
    proof (cases "can_alloc s r k")
      case ca: True
      then have "p \<noteq> 0" using *(4) by (auto simp: block_taken_def)
      then show ?thesis using * True ca by auto
    next
      case False
      then show ?thesis using * True Cons by auto
    qed
  next
    case False
    then show ?thesis using Cons by auto
  qed
qed

lemma palloc_tag_outcome:
  assumes "palloc_ok s" "calc_palloc_order count = Inr k" "k \<le> 15"
  shows "alloc_outcome (\<lambda>r. region_matched (pr_tags (regions s r)) msk m) k s (palloc_tag count msk m s)"
  using palloc_tag_loop_outcome [OF assms, of "[0..<region_count s]" msk m]
  by (fastforce simp: alloc_outcome_def palloc_tag_def)

definition tags_match :: "(memmap_match \<times> u32) list \<Rightarrow> u32 \<Rightarrow> bool" where
  "tags_match ts tags = list_ex (\<lambda>(m, msk). region_matched tags msk m) ts"

lemma alloc_outcome_or:
  assumes "alloc_outcome cand k s res" "\<forall>r<region_count s. cand' r \<longrightarrow> \<not> can_alloc s r k"
  shows "alloc_outcome (\<lambda>r. cand' r \<or> cand r) k s res"
  using assms unfolding alloc_outcome_def by blast

lemma palloc_by_tags_outcome:
  assumes ok: "palloc_ok s" and ord: "calc_palloc_order count = Inr k" "k \<le> 15"
  shows "alloc_outcome (\<lambda>r. tags_match ts (pr_tags (regions s r))) k s (palloc_by_tags ts count s)"
proof (induction ts)
  case Nil
  then show ?case using ok by (simp add: alloc_outcome_def tags_match_def)
next
  case (Cons t ts)
  obtain m msk where t: "t = (m, msk)" by force
  obtain s' p where *: "palloc_tag count msk m s = Inr (s', p)" "palloc_ok s'" "region_env s' = region_env s"
      "p = 0 \<and> s' = s \<and> (\<forall>r<region_count s. region_matched (pr_tags (regions s r)) msk m \<longrightarrow> \<not> can_alloc s r k) \<or>
       (\<exists>r<region_count s. region_matched (pr_tags (regions s r)) msk m \<and> can_alloc s r k \<and> block_taken s s' r k p)"
    using palloc_tag_outcome [OF assms, of msk m] unfolding alloc_outcome_def by blast
  from *(4) show ?case
  proof
    assume "p = 0 \<and> s' = s \<and> (\<forall>r<region_count s. region_matched (pr_tags (regions s r)) msk m \<longrightarrow> \<not> can_alloc s r k)"
    then show ?thesis using *(1) alloc_outcome_or [OF Cons.IH] by (simp add: t tags_match_def)
  next
    assume "\<exists>r<region_count s. region_matched (pr_tags (regions s r)) msk m \<and> can_alloc s r k \<and> block_taken s s' r k p"
    moreover from this have "p \<noteq> 0" by (auto simp: block_taken_def)
    ultimately show ?thesis using *(1-3) by (auto simp: t alloc_outcome_def tags_match_def)
  qed
qed

lemma palloc_outcome:
  assumes "palloc_ok s" "calc_palloc_order count = Inr k" "k \<le> 15"
  shows "alloc_outcome (\<lambda>r. True) k s (palloc count s)"
proof -
  have "tags_match palloc_tags tags" for tags
    by (simp add: palloc_tags_def tags_match_def region_matched_def)
  then show ?thesis using palloc_by_tags_outcome [OF assms, of palloc_tags] by (simp add: palloc_def)
qed

end
