(* ===== verification/Palloc_Init.thy ===== *)
theory Palloc_Init
  imports Palloc_Buddy
begin

text \<open>
  Initialisation of the page frame allocator: \<^verbatim>\<open>init_region\<close> cuts a range of frames into the largest
  aligned blocks that fit and puts them on the free lists, and establishes the invariant of
  \<open>Palloc_Buddy\<close>.
\<close>

section \<open>Adding a tile\<close>

lemma tiling_add:
  assumes til: "tiling lo hi T" and fresh: "\<And>q r' j a. T q = Some (r', j, a) \<Longrightarrow> block q j \<inter> block p k = {}"
    and p: "0 < p" "lo \<le> p" "p + 2 ^ k \<le> hi" "2 ^ k dvd p" "k \<le> 15" "r < 32"
  shows "tiling lo hi (T(p \<mapsto> (r, k, False)))"
  unfolding tiling_def
proof (intro conjI allI impI)
  fix q r1 k1 a1 q2 r2 k2 a2
  assume "(T(p \<mapsto> (r, k, False))) q = Some (r1, k1, a1)" "(T(p \<mapsto> (r, k, False))) q2 = Some (r2, k2, a2)" "q \<noteq> q2"
  then show "block q k1 \<inter> block q2 k2 = {}"
    using fresh [of q r1 k1 a1] fresh [of q2 r2 k2 a2] tilingD(7) [OF til, of q r1 k1 a1 q2 r2 k2 a2]
    by (auto simp: Int_commute split: if_splits)
qed (use tilingD(1-6) [OF til] p in \<open>auto split: if_splits\<close>)

lemma nodes_ok_add:
  assumes ok: "nodes_ok s T" and p: "T p = None"
    and cs: "cores s' = (cores s)(p := (k, r, False, True))" and val: "is_pfn_valid s' = is_pfn_valid s"
  shows "nodes_ok s' (T(p \<mapsto> (r, k, False)))"
  unfolding nodes_ok_def
proof (intro conjI allI impI)
  fix q r' j a assume "(T(p \<mapsto> (r, k, False))) q = Some (r', j, a)"
  then show "cores s' q = (j, r', a, True)" using nodes_okD(1) [OF ok] by (auto simp: cs split: if_splits)
next
  fix q j r' a assume q: "is_pfn_valid s' q" "cores s' q = (j, r', a, True)"
  show "\<exists>t j b. (T(p \<mapsto> (r, k, False))) t = Some (r', j, b) \<and> q \<in> block t j"
  proof (cases "q = p")
    case True
    then have "(T(p \<mapsto> (r, k, False))) p = Some (r', k, False)" using q(2) by (simp add: cs)
    then show ?thesis using True head_in_block by blast
  next
    case False
    then obtain t i b where t: "T t = Some (r', i, b)" "q \<in> block t i"
      using nodes_okD(2) [OF ok, of q j r' a] q val by (auto simp: cs)
    then have "(T(p \<mapsto> (r, k, False))) t = Some (r', i, b)" using p by auto
    with t(2) show ?thesis by blast
  qed
next
  fix q j r' v assume q: "is_pfn_valid s' q" "cores s' q = (j, r', True, v)"
  then show "\<exists>r' j. (T(p \<mapsto> (r, k, False))) q = Some (r', j, True)"
    using nodes_okD(3) [OF ok, of q j r' v] q val by (cases "q = p") (auto simp: cs)
qed

lemma add_tile_step:
  assumes wf: "palloc_wf s T L" and fresh: "\<And>q r' j a. T q = Some (r', j, a) \<Longrightarrow> block q j \<inter> block p k = {}"
    and p: "0 < p" "pfn_start s \<le> p" "p + 2 ^ k \<le> pfn_limit s" "2 ^ k dvd p" "k \<le> 15" "r < 32"
  shows "\<exists>s'. insert_node p r k (upd_node p (setup_free_node r k) s) = Inr s' \<and>
     palloc_wf s' (T(p \<mapsto> (r, k, False))) (lupd L r k (p # L r k)) \<and> env s' = env s"
proof -
  have Tp: "T p = None"
  proof (rule ccontr)
    assume "T p \<noteq> None"
    then obtain r' j a where "T p = Some (r', j, a)" by auto
    then show False using fresh head_in_block by blast
  qed
  have off: "\<not> on_list L p" using Tp palloc_wfD(5) [OF wf, of p] by simp
  have "free_lists (upd_node p (setup_free_node r k) s) L"
    by (intro free_lists_upd_node disjI1 palloc_wfD(3) [OF wf] off)
  moreover have "is_pfn_valid (upd_node p (setup_free_node r k) s) p"
    using p(2,3) zero_less_power [of "2::nat" k] unfolding is_pfn_valid_upd is_pfn_valid_iff by linarith
  ultimately obtain s' where s': "insert_node p r k (upd_node p (setup_free_node r k) s) = Inr s'"
      "free_lists s' (lupd L r k (p # L r k))" "env s' = env (upd_node p (setup_free_node r k) s)"
      "cores s' = cores (upd_node p (setup_free_node r k) s)"
    using insert_node_lists [OF _ _ off p(6,5)] by blast
  have env: "env s' = env s" using s'(3) by simp
  have "cores s' = (cores s)(p := (k, r, False, True))" using s'(4) by simp
  then have "nodes_ok s' (T(p \<mapsto> (r, k, False)))"
    using envD(11) [OF env] by (intro nodes_ok_add [OF palloc_wfD(2) [OF wf] Tp]) auto
  moreover have "set (lupd L r k (p # L r k) r' j) = {q. (T(p \<mapsto> (r, k, False))) q = Some (r', j, False)}" for r' j
    using palloc_wfD(4) [OF wf, of _ r' j] Tp by auto
  moreover have "tiling (pfn_start s) (pfn_limit s) (T(p \<mapsto> (r, k, False)))"
    by (rule tiling_add [OF palloc_wfD(1) [OF wf]]) (use fresh p in auto)
  ultimately have "palloc_wf s' (T(p \<mapsto> (r, k, False))) (lupd L r k (p # L r k))"
    using s'(2) unfolding palloc_wf_def envD(1,2) [OF env] by blast
  then show ?thesis using s'(1) env by blast
qed

section \<open>The block chosen at a frame\<close>

lemma init_region_order_Some:
  assumes "cur < limit"
  shows "\<exists>j\<le>k. init_region_order k cur limit = Some j \<and> 2 ^ j dvd cur \<and> cur + 2 ^ j \<le> limit \<and>
     (\<forall>i\<le>k. j < i \<longrightarrow> \<not> (2 ^ i dvd cur \<and> cur + 2 ^ i \<le> limit))"
proof (induction k)
  case 0
  then show ?case using assms by (simp add: init_region_order.simps pfn_mod_order_page_count_def)
next
  case (Suc k)
  show ?case
  proof (cases "2 ^ Suc k dvd cur \<and> cur + 2 ^ Suc k \<le> limit")
    case True
    then show ?thesis
      using pfn_mod_order_page_count_eq_0 [of cur "Suc k"] by (subst init_region_order.simps) auto
  next
    case False
    then have "init_region_order (Suc k) cur limit = init_region_order k cur limit"
      using pfn_mod_order_page_count_eq_0 [of cur "Suc k"] by (subst init_region_order.simps) auto
    moreover obtain j where "j \<le> k" "init_region_order k cur limit = Some j" "2 ^ j dvd cur" "cur + 2 ^ j \<le> limit"
        "\<forall>i\<le>k. j < i \<longrightarrow> \<not> (2 ^ i dvd cur \<and> cur + 2 ^ i \<le> limit)" using Suc.IH by blast
    ultimately show ?thesis using False by (intro exI [of _ j]) (auto simp: le_Suc_eq)
  qed
qed


section \<open>Cutting up a range\<close>

text \<open>
  The largest block is taken at every frame, so the last block cannot be the lower half of a larger
  block that would still fit.
\<close>

definition greedy_end :: "tiles \<Rightarrow> nat \<Rightarrow> nat \<Rightarrow> nat \<Rightarrow> bool" where
  "greedy_end T r cur limit \<longleftrightarrow>
     (\<forall>p j. T p = Some (r, j, False) \<longrightarrow> p + 2 ^ j = cur \<longrightarrow> 2 ^ Suc j dvd p \<longrightarrow> j < PALLOC_MAX_ORDER \<longrightarrow> limit < p + 2 ^ Suc j)"

lemma coalesced_add:
  assumes co: "coalesced T" and below: "\<And>q j a. T q = Some (r, j, a) \<Longrightarrow> q + 2 ^ j \<le> p"
    and greedy: "greedy_end T r p limit" and fits: "p + 2 ^ k \<le> limit"
  shows "coalesced (T(p \<mapsto> (r, k, False)))"
  unfolding coalesced_def
proof (intro allI notI)
  fix q r' j assume fp: "free_pair (T(p \<mapsto> (r, k, False))) q r' j"
  show False
  proof (cases "q = p \<or> q + 2 ^ j = p")
    case True
    then have rk: "r' = r" "j = k" using fp by (auto simp: free_pair_def split: if_splits)
    show False
    proof (cases "q = p")
      case True
      then have "T (p + 2 ^ k) = Some (r, k, False)" using fp rk by (auto simp: free_pair_def split: if_splits)
      from below [OF this] show False by simp
    next
      case False
      then have q: "T q = Some (r, k, False)" "q + 2 ^ k = p" "2 ^ Suc k dvd q" "k < 15"
        using fp rk True by (auto simp: free_pair_def)
      then have "limit < q + 2 ^ Suc k" using greedy by (auto simp: greedy_end_def)
      then show False using q(2) fits by simp
    qed
  next
    case False
    then have "free_pair T q r' j" using fp by (auto simp: free_pair_def)
    then show False using co by (simp add: coalesced_def)
  qed
qed

text \<open>The effect of the loop: every frame of the range becomes free in region \<open>r\<close>, nothing else moves.\<close>

definition range_added :: "tiles \<Rightarrow> tiles \<Rightarrow> nat \<Rightarrow> nat \<Rightarrow> nat \<Rightarrow> bool" where
  "range_added T T' r lo hi \<longleftrightarrow>
     (\<forall>p t. T p = Some t \<longrightarrow> T' p = Some t) \<and>
     (\<forall>p r' j a. T' p = Some (r', j, a) \<longrightarrow> T p = Some (r', j, a) \<or> r' = r \<and> \<not> a \<and> block p j \<subseteq> {lo..<hi}) \<and>
     {lo..<hi} \<subseteq> free_cover T' r"

lemma range_added_step:
  assumes new: "T p = None" and rest: "range_added (T(p \<mapsto> (r, k, False))) T' r (p + 2 ^ k) hi" and "p + 2 ^ k \<le> hi"
  shows "range_added T T' r p hi"
proof -
  have old: "(T(p \<mapsto> (r, k, False))) q = Some t \<Longrightarrow> T' q = Some t" for q t
    using rest unfolding range_added_def by blast
  have src: "T' q = Some (r', j, a) \<Longrightarrow>
      (T(p \<mapsto> (r, k, False))) q = Some (r', j, a) \<or> r' = r \<and> \<not> a \<and> block q j \<subseteq> {p + 2 ^ k..<hi}" for q r' j a
    using rest by (simp add: range_added_def del: fun_upd_apply)
  have T': "T' p = Some (r, k, False)" using old [of p] by simp
  have "T' q = Some t" if "T q = Some t" for q t
    using old [of q t] that new by (cases "q = p") auto
  moreover have "T q = Some (r', j, a) \<or> r' = r \<and> \<not> a \<and> block q j \<subseteq> {p..<hi}" if "T' q = Some (r', j, a)" for q r' j a
  proof (cases "q = p")
    case True
    then show ?thesis using that T' assms(3) by (auto simp: block_def)
  next
    case False
    then have "T q = Some (r', j, a) \<or> r' = r \<and> \<not> a \<and> block q j \<subseteq> {p + 2 ^ k..<hi}"
      using src [OF that] by simp
    then show ?thesis by fastforce
  qed
  moreover have "{p..<hi} \<subseteq> free_cover T' r"
  proof
    fix x assume x: "x \<in> {p..<hi}"
    show "x \<in> free_cover T' r"
    proof (cases "x < p + 2 ^ k")
      case True
      then have "x \<in> block p k" using x by (simp add: block_def)
      then show ?thesis using T' by (auto simp: free_cover_def)
    next
      case False
      then show ?thesis using x rest by (auto simp: range_added_def)
    qed
  qed
  ultimately show ?thesis by (simp add: range_added_def)
qed


lemma init_region_loop_wf:
  assumes "palloc_wf s T L" "coalesced T" "r < 32" "pfn_start s \<le> cur" "0 < cur" "cur \<le> limit" "limit \<le> pfn_limit s"
    and "\<And>q j a. T q = Some (r, j, a) \<Longrightarrow> q + 2 ^ j \<le> cur"
    and "\<And>q r' j a. T q = Some (r', j, a) \<Longrightarrow> block q j \<inter> {cur..<limit} = {}"
    and "greedy_end T r cur limit"
  shows "\<exists>s' T' L'. init_region_loop cur limit r s = Inr s' \<and> palloc_wf s' T' L' \<and> coalesced T' \<and> env s' = env s \<and>
     range_added T T' r cur limit \<and> free_pages L' r = free_pages L r + (limit - cur) \<and>
     (\<forall>r'. r' \<noteq> r \<longrightarrow> free_pages L' r' = free_pages L r')"
  using assms
proof (induction "limit - cur" arbitrary: cur s T L rule: less_induct)
  case less
  note wf = less.prems(1)
  show ?case
  proof (cases "cur = limit")
    case True
    then have "init_region_loop cur limit r s = Inr s" by (simp add: init_region_loop.simps)
    moreover have "range_added T T r cur limit" using True by (simp add: range_added_def)
    ultimately show ?thesis using wf less.prems(2) True by auto
  next
    case False
    then have lt: "cur < limit" using less.prems(6) by simp
    obtain k where k: "k \<le> 15" "init_region_order 15 cur limit = Some k" "2 ^ k dvd cur" "cur + 2 ^ k \<le> limit"
        "\<forall>i\<le>15. k < i \<longrightarrow> \<not> (2 ^ i dvd cur \<and> cur + 2 ^ i \<le> limit)" using init_region_order_Some [OF lt, of 15] by blast
    have sub: "block cur k \<subseteq> {cur..<limit}" using k(4) by (auto simp: block_def)
    have fresh: "block q j \<inter> block cur k = {}" if "T q = Some (r', j, a)" for q r' j a
      using less.prems(9) [OF that] sub by blast
    have new: "T cur = None"
    proof (rule ccontr)
      assume "T cur \<noteq> None"
      then obtain r' j a where "T cur = Some (r', j, a)" by auto
      then show False using fresh head_in_block by blast
    qed
    let ?T = "T(cur \<mapsto> (r, k, False))" and ?L = "lupd L r k (cur # L r k)"
    have "\<exists>s1. insert_node cur r k (upd_node cur (setup_free_node r k) s) = Inr s1 \<and> palloc_wf s1 ?T ?L \<and> env s1 = env s"
      by (rule add_tile_step [OF wf]) (use fresh less.prems(3-7) k(1,3,4) in auto)
    then obtain s1 where s1: "insert_node cur r k (upd_node cur (setup_free_node r k) s) = Inr s1"
        "palloc_wf s1 ?T ?L" "env s1 = env s" by blast
    have val: "is_pfn_valid s cur" using less.prems(4,7) lt by (simp add: is_pfn_valid_iff)
    have step: "init_region_loop cur limit r s = init_region_loop (cur + 2 ^ k) limit r s1"
      using lt k(2) val s1(1) by (subst init_region_loop.simps) (simp add: Let_def)
    have "\<exists>s' T' L'. init_region_loop (cur + 2 ^ k) limit r s1 = Inr s' \<and> palloc_wf s' T' L' \<and> coalesced T' \<and>
       env s' = env s1 \<and> range_added ?T T' r (cur + 2 ^ k) limit \<and>
       free_pages L' r = free_pages ?L r + (limit - (cur + 2 ^ k)) \<and> (\<forall>r'. r' \<noteq> r \<longrightarrow> free_pages L' r' = free_pages ?L r')"
    proof (rule less.hyps [OF _ s1(2)])
      show "limit - (cur + 2 ^ k) < limit - cur" using lt by (intro diff_less_mono2) auto
      show "coalesced ?T" by (rule coalesced_add [OF less.prems(2,8,10) k(4)])
      show "q + 2 ^ j \<le> cur + 2 ^ k" if "?T q = Some (r, j, a)" for q j a
        using that less.prems(8) [of q j a] by (cases "q = cur") auto
      show "block q j \<inter> {cur + 2 ^ k..<limit} = {}" if "?T q = Some (r', j, a)" for q r' j a
        using that less.prems(9) [of q r' j a] by (cases "q = cur") (auto simp: block_def)
      show "greedy_end ?T r (cur + 2 ^ k) limit"
        unfolding greedy_end_def
      proof (intro allI impI)
        fix p j assume p: "?T p = Some (r, j, False)" "p + 2 ^ j = cur + 2 ^ k" "2 ^ Suc j dvd p" "j < (15::nat)"
        have "p = cur"
        proof (rule ccontr)
          assume "p \<noteq> cur"
          then have "p + 2 ^ j \<le> cur" using p(1) less.prems(8) by simp
          then show False using p(2) by simp
        qed
        moreover from this have "j = k" using p(1) by simp
        ultimately show "limit < p + 2 ^ Suc j"
          using spec [OF k(5), of "Suc k"] p(3,4) by (simp del: power_Suc)
      qed
    qed (use less.prems(3-7) envD(1,2) [OF s1(3)] k(4) in auto)
    then obtain s' T' L' where s': "init_region_loop (cur + 2 ^ k) limit r s1 = Inr s'" "palloc_wf s' T' L'" "coalesced T'"
       "env s' = env s1" "range_added ?T T' r (cur + 2 ^ k) limit"
       "free_pages L' r = free_pages ?L r + (limit - (cur + 2 ^ k))" "\<forall>r'. r' \<noteq> r \<longrightarrow> free_pages L' r' = free_pages ?L r'"
      by blast
    have "free_pages L' r = free_pages L r + (limit - cur)"
      using s'(6) free_pages_lupd [OF k(1), of L r "cur # L r k"] k(4) by simp
    then show ?thesis
      using s' step s1(3) range_added_step [OF new s'(5) k(4)] by auto
  qed
qed

lemma palloc_wf_total [simp]: "palloc_wf (s\<lparr>num_pages_total := x\<rparr>) T L = palloc_wf s T L"
  by (simp add: palloc_wf_def nodes_ok_def free_lists_def cores_def is_pfn_valid_def)

lemma init_region_inv:
  assumes inv: "palloc_inv s T L" and r: "r < 32" "\<And>q j a. T q \<noteq> Some (r, j, a)"
    and rng: "pfn_start s \<le> start" "0 < start" "start + count \<le> pfn_limit s"
    and fresh: "\<And>q r' j a. T q = Some (r', j, a) \<Longrightarrow> block q j \<inter> {start..<start + count} = {}"
  shows "\<exists>s' T' L'. init_region start count r tags s = Inr s' \<and> palloc_inv s' T' L' \<and>
     range_added T T' r start (start + count) \<and> region_count s' = region_count s \<and>
     pfn_start s' = pfn_start s \<and> pfn_limit s' = pfn_limit s \<and> pfn_entry_count s' = pfn_entry_count s \<and>
     (\<forall>r'. pr_tags (regions s' r') = (if r' = r then tags else pr_tags (regions s r')))"
proof -
  note I = palloc_invD [OF inv]
  define s1 where "s1 = upd_region r (\<lambda>rg. rg\<lparr>pr_tags := tags, pr_total_pages := pr_total_pages rg + of_nat count,
      pr_avail_pages := pr_avail_pages rg + of_nat count\<rparr>) (s\<lparr>num_pages_total := num_pages_total s + of_nat count\<rparr>)"
  have wf0: "palloc_wf (s\<lparr>num_pages_total := num_pages_total s + of_nat count\<rparr>) T L" using I(1) by simp
  have wf1: "palloc_wf s1 T L" unfolding s1_def by (rule palloc_wf_upd_region [OF wf0]) simp
  have e1: "pfn_start s1 = pfn_start s" "pfn_limit s1 = pfn_limit s" "region_count s1 = region_count s"
      "pfn_entry_count s1 = pfn_entry_count s" "num_pages_alloc s1 = num_pages_alloc s"
    by (simp_all add: s1_def upd_region_def)
  have "\<exists>s' T' L'. init_region_loop start (start + count) r s1 = Inr s' \<and> palloc_wf s' T' L' \<and> coalesced T' \<and>
      env s' = env s1 \<and> range_added T T' r start (start + count) \<and>
      free_pages L' r = free_pages L r + (start + count - start) \<and>
      (\<forall>r'. r' \<noteq> r \<longrightarrow> free_pages L' r' = free_pages L r')"
    by (rule init_region_loop_wf [OF wf1 I(2) r(1)]) (use r(2) rng fresh e1 in \<open>auto simp: greedy_end_def\<close>)
  then obtain s' T' L' where s': "init_region_loop start (start + count) r s1 = Inr s'" "palloc_wf s' T' L'" "coalesced T'"
      "env s' = env s1" "range_added T T' r start (start + count)" "free_pages L' r = free_pages L r + count"
      "\<forall>r'. r' \<noteq> r \<longrightarrow> free_pages L' r' = free_pages L r'" by auto
  note E = envD [OF s'(4)]
  have "alloc_pages T' = alloc_pages T"
    using s'(5) unfolding range_added_def by (intro alloc_pages_cong) blast
  then have "num_pages_alloc s' = of_nat (alloc_pages T')" using E(6) e1 I(4) by simp
  moreover have "pr_avail_pages (regions s' r') = of_nat (free_pages L' r')" if "r' < 32" for r'
    using E(9) [of r'] I(3) [OF that] s'(6,7) by (auto simp: s1_def)
  moreover have "\<not> pr_locked (regions s' r')" for r' using E(10) [of r'] I(5) by (auto simp: s1_def)
  ultimately have "palloc_inv s' T' L'"
    using s'(2,3) E(2,4) e1 I(6,7) by (simp add: palloc_inv_def)
  moreover have "init_region start count r tags s = Inr s'"
    using s'(1) r(1) by (simp add: init_region_def s1_def Let_def)
  ultimately show ?thesis using s'(5) E(1-4,7) e1 by (intro exI [of _ s'] exI [of _ T'] exI [of _ L']) (auto simp: s1_def)
qed

definition zero_region :: palloc_region_t where
  "zero_region = \<lparr>pr_tags = 0, pr_total_pages = 0, pr_avail_pages = 0, pr_buddies = (\<lambda>_. zero_node), pr_locked = False\<rparr>"

text \<open>The static data before \<^verbatim>\<open>init_palloc\<close> fills the regions, with all nodes zeroed.\<close>

definition palloc_reset :: "nat \<Rightarrow> nat \<Rightarrow> palloc_state" where
  "palloc_reset start limit =
     \<lparr>num_pages_total = 0, num_pages_alloc = 0, pfn_entry_count = limit - start, pfn_start = start, pfn_limit = limit,
      region_count = 0, regions = (\<lambda>_. zero_region), nodes = (\<lambda>_. zero_node)\<rparr>"

lemma palloc_reset_inv:
  assumes "limit \<le> 2 ^ 52" shows "palloc_inv (palloc_reset start limit) Map.empty (\<lambda>_ _. [])"
  using assms
  by (auto simp: palloc_inv_def palloc_wf_def tiling_def nodes_ok_def free_lists_def coalesced_def free_pair_def
      free_pages_def alloc_pages_def palloc_reset_def zero_region_def zero_node_def cores_def core_def head_ok_def)

end
