(* ===== verification/Palloc_Client.thy ===== *)
theory Palloc_Client
  imports Palloc_Init
begin

text \<open>
  The page frame allocator seen from its clients. The locale \<open>frame_allocator\<close> is the contract the
  slab allocator, the page tables and the virtual memory code rely on; the buddy allocator is an
  instance of it. The theory closes with the properties of the allocator and its self test.
\<close>

section \<open>The contract of a frame allocator\<close>

fun alloc_each :: "(int \<Rightarrow> 's \<Rightarrow> ('s \<times> nat) res) \<Rightarrow> int list \<Rightarrow> 's \<Rightarrow> ('s \<times> nat list) res" where
  "alloc_each alloc [] s = Inr (s, [])"
| "alloc_each alloc (n # ns) s =
     ebind (alloc n s) (\<lambda>(s, p). ebind (alloc_each alloc ns s) (\<lambda>(s, ps). Inr (s, p # ps)))"

fun release_each :: "(nat \<Rightarrow> 's \<Rightarrow> ('s \<times> nat) res) \<Rightarrow> nat list \<Rightarrow> 's \<Rightarrow> 's res" where
  "release_each release [] s = Inr s"
| "release_each release (p # ps) s =
     (if p \<noteq> 0 then ebind (release p s) (\<lambda>(s, _). release_each release ps s) else release_each release ps s)"

locale frame_allocator =
  fixes ok :: "'s \<Rightarrow> bool"
    and owned :: "'s \<Rightarrow> nat \<rightharpoonup> nat"
    and alloc :: "int \<Rightarrow> 's \<Rightarrow> ('s \<times> nat) res"
    and release :: "nat \<Rightarrow> 's \<Rightarrow> ('s \<times> nat) res"
  assumes alloc_law: "ok s \<Longrightarrow> 0 \<le> n \<Longrightarrow> n \<le> 2 ^ 15 \<Longrightarrow>
      \<exists>s' p. alloc n s = Inr (s', p) \<and> ok s' \<and>
        (p = 0 \<and> s' = s \<or> p \<noteq> 0 \<and> owned s p = None \<and> (\<exists>k. n \<le> 2 ^ k \<and> owned s' = (owned s)(p \<mapsto> k)))"
    and release_law: "ok s \<Longrightarrow> owned s p = Some k \<Longrightarrow>
      \<exists>s'. release p s = Inr (s', 2 ^ k) \<and> ok s' \<and> owned s' = (owned s)(p := None)"
    and disjoint_law: "ok s \<Longrightarrow> owned s p = Some k \<Longrightarrow> owned s q = Some j \<Longrightarrow> p \<noteq> q \<Longrightarrow>
      block p k \<inter> block q j = {}"
begin

lemma alloc_each_law:
  assumes "ok s" "\<forall>n\<in>set ns. 0 \<le> n \<and> n \<le> 2 ^ 15"
  shows "\<exists>s' ps. alloc_each alloc ns s = Inr (s', ps) \<and> ok s' \<and> length ps = length ns \<and>
     distinct (filter (\<lambda>p. p \<noteq> 0) ps) \<and> (\<forall>p\<in>set ps. p \<noteq> 0 \<longrightarrow> owned s p = None) \<and>
     (\<forall>q. owned s' q \<noteq> None \<longleftrightarrow> owned s q \<noteq> None \<or> q \<noteq> 0 \<and> q \<in> set ps) \<and>
     (\<forall>q. owned s q \<noteq> None \<longrightarrow> owned s' q = owned s q) \<and>
     list_all2 (\<lambda>n p. p = 0 \<or> (\<exists>k. owned s' p = Some k \<and> n \<le> 2 ^ k)) ns ps"
  using assms
proof (induction ns arbitrary: s)
  case Nil
  then show ?case by auto
next
  case (Cons n ns)
  obtain s1 p where s1: "alloc n s = Inr (s1, p)" "ok s1"
      "p = 0 \<and> s1 = s \<or> p \<noteq> 0 \<and> owned s p = None \<and> (\<exists>k. n \<le> 2 ^ k \<and> owned s1 = (owned s)(p \<mapsto> k))"
    using alloc_law [OF Cons.prems(1), of n] Cons.prems(2) by auto
  obtain s' ps where s': "alloc_each alloc ns s1 = Inr (s', ps)" "ok s'" "length ps = length ns"
      "distinct (filter (\<lambda>p. p \<noteq> 0) ps)" "\<forall>p\<in>set ps. p \<noteq> 0 \<longrightarrow> owned s1 p = None"
      "\<forall>q. owned s' q \<noteq> None \<longleftrightarrow> owned s1 q \<noteq> None \<or> q \<noteq> 0 \<and> q \<in> set ps"
      "\<forall>q. owned s1 q \<noteq> None \<longrightarrow> owned s' q = owned s1 q"
      "list_all2 (\<lambda>n p. p = 0 \<or> (\<exists>k. owned s' p = Some k \<and> n \<le> 2 ^ k)) ns ps"
    using Cons.IH [OF s1(2)] Cons.prems(2) by auto
  from s1(3) show ?case
  proof
    assume "p = 0 \<and> s1 = s"
    then show ?thesis using s1(1) s' by auto
  next
    assume p: "p \<noteq> 0 \<and> owned s p = None \<and> (\<exists>k. n \<le> 2 ^ k \<and> owned s1 = (owned s)(p \<mapsto> k))"
    then obtain k where k: "n \<le> 2 ^ k" "owned s1 = (owned s)(p \<mapsto> k)" by blast
    then have "p \<notin> set ps" using s'(5) p by auto
    moreover have "owned s' p = Some k" using s'(7) k(2) by simp
    moreover have "owned s' q \<noteq> None \<longleftrightarrow> owned s q \<noteq> None \<or> q \<noteq> 0 \<and> q \<in> set (p # ps)" for q
      using s'(6) k(2) p by auto
    moreover have "owned s' q = owned s q" if "owned s q \<noteq> None" for q
      using s'(7) k(2) p that by (metis fun_upd_other)
    moreover have "owned s q = None" if "q \<in> set (p # ps)" "q \<noteq> 0" for q
      using that s'(5) k(2) p by (auto split: if_splits)
    ultimately show ?thesis using s1(1) s'(1-4,8) p k(1) by (intro exI [of _ s'] exI [of _ "p # ps"]) auto
  qed
qed

lemma release_each_law:
  assumes "ok s" "distinct (filter (\<lambda>p. p \<noteq> 0) ps)" "\<forall>p\<in>set ps. p \<noteq> 0 \<longrightarrow> owned s p \<noteq> None"
  shows "\<exists>s'. release_each release ps s = Inr s' \<and> ok s' \<and>
     owned s' = (\<lambda>q. if q \<noteq> 0 \<and> q \<in> set ps then None else owned s q)"
  using assms
proof (induction ps arbitrary: s)
  case Nil
  then show ?case by simp
next
  case (Cons p ps)
  show ?case
  proof (cases "p = 0")
    case True
    then have "release_each release (p # ps) s = release_each release ps s"
      and "(\<lambda>q. if q \<noteq> 0 \<and> q \<in> set (p # ps) then None else owned s q) = (\<lambda>q. if q \<noteq> 0 \<and> q \<in> set ps then None else owned s q)"
      by auto
    then show ?thesis using Cons.IH [OF Cons.prems(1)] Cons.prems(2,3) True by auto
  next
    case False
    then obtain k where "owned s p = Some k" using Cons.prems(3) by auto
    then obtain s1 where s1: "release p s = Inr (s1, 2 ^ k)" "ok s1" "owned s1 = (owned s)(p := None)"
      using release_law [OF Cons.prems(1)] by blast
    have "p \<notin> set ps" using Cons.prems(2) False by auto
    then have "\<forall>q\<in>set ps. q \<noteq> 0 \<longrightarrow> owned s1 q \<noteq> None" using Cons.prems(3) s1(3) by auto
    then have "\<exists>s'. release_each release ps s1 = Inr s' \<and> ok s' \<and>
        owned s' = (\<lambda>q. if q \<noteq> 0 \<and> q \<in> set ps then None else owned s1 q)"
      using Cons.IH [OF s1(2)] Cons.prems(2) False by simp
    then show ?thesis using s1(1,3) False by (auto simp: fun_eq_iff)
  qed
qed

text \<open>A client that gives back everything it was given leaves the allocator as it found it.\<close>

lemma alloc_release_law:
  assumes "ok s" "\<forall>n\<in>set ns. 0 \<le> n \<and> n \<le> 2 ^ 15"
  shows "\<exists>s1 ps s2. alloc_each alloc ns s = Inr (s1, ps) \<and> release_each release ps s1 = Inr s2 \<and> ok s2 \<and>
     owned s2 = owned s \<and> length ps = length ns \<and>
     list_all2 (\<lambda>n p. p = 0 \<or> (\<exists>k. owned s1 p = Some k \<and> n \<le> 2 ^ k)) ns ps \<and>
     distinct (filter (\<lambda>p. p \<noteq> 0) ps) \<and>
     (\<forall>p\<in>set ps. \<forall>q\<in>set ps. p \<noteq> 0 \<longrightarrow> q \<noteq> 0 \<longrightarrow> p \<noteq> q \<longrightarrow>
        block p (the (owned s1 p)) \<inter> block q (the (owned s1 q)) = {})"
proof -
  obtain s1 ps where s1: "alloc_each alloc ns s = Inr (s1, ps)" "ok s1" "length ps = length ns"
      "distinct (filter (\<lambda>p. p \<noteq> 0) ps)" "\<forall>p\<in>set ps. p \<noteq> 0 \<longrightarrow> owned s p = None"
      "\<forall>q. owned s1 q \<noteq> None \<longleftrightarrow> owned s q \<noteq> None \<or> q \<noteq> 0 \<and> q \<in> set ps"
      "\<forall>q. owned s q \<noteq> None \<longrightarrow> owned s1 q = owned s q"
      "list_all2 (\<lambda>n p. p = 0 \<or> (\<exists>k. owned s1 p = Some k \<and> n \<le> 2 ^ k)) ns ps"
    using alloc_each_law [OF assms] by blast
  have own: "\<forall>p\<in>set ps. p \<noteq> 0 \<longrightarrow> owned s1 p \<noteq> None" using s1(6) by blast
  obtain s2 where s2: "release_each release ps s1 = Inr s2" "ok s2"
      "owned s2 = (\<lambda>q. if q \<noteq> 0 \<and> q \<in> set ps then None else owned s1 q)"
    using release_each_law [OF s1(2,4) own] by blast
  have "owned s2 q = owned s q" for q
  proof (cases "q \<noteq> 0 \<and> q \<in> set ps")
    case True
    then show ?thesis using s2(3) s1(5) by simp
  next
    case False
    then have "owned s2 q = owned s1 q" using s2(3) by auto
    moreover have "owned s1 q = owned s q" using spec [OF s1(6), of q] spec [OF s1(7), of q] False by auto
    ultimately show ?thesis by simp
  qed
  moreover have "block p (the (owned s1 p)) \<inter> block q (the (owned s1 q)) = {}"
    if pq: "p \<in> set ps" "q \<in> set ps" "p \<noteq> 0" "q \<noteq> 0" "p \<noteq> q" for p q
  proof -
    obtain k j where "owned s1 p = Some k" "owned s1 q = Some j" using own pq(1-4) by blast
    then show ?thesis using disjoint_law [OF s1(2)] pq(5) by simp
  qed
  ultimately show ?thesis using s1(1,3,4,8) s2(1,2) by (intro exI [of _ s1] exI [of _ ps] exI [of _ s2]) auto
qed

end


interpretation frames: frame_allocator palloc_ok allocated palloc pfree
proof (unfold_locales, goal_cases)
  case (1 s n)
  obtain k where k: "calc_palloc_order n = Inr k" "k \<le> 15" "n \<le> 2 ^ k" using calc_palloc_order_correct [OF 1(2,3)] by blast
  from palloc_outcome [OF 1(1) k(1,2)] k(3) show ?case
    unfolding alloc_outcome_def block_taken_def by fastforce
next
  case (2 s p k)
  then show ?case using pfree_spec [OF 2] by blast
next
  case (3 s p k q j)
  then show ?case using palloc_ok_disjoint(1) [OF 3(1,2)] by blast
qed

section \<open>Self test\<close>

text \<open>
  \<^verbatim>\<open>test_palloc\<close>: in every round ten blocks of each order below 8 are requested, then those that
  were granted are released in the same order.
\<close>

definition test_palloc_counts :: "int list" where
  "test_palloc_counts = concat (map (\<lambda>i. replicate 10 (2 ^ i)) [0..<8])"

fun test_palloc_loop :: "nat \<Rightarrow> palloc_state \<Rightarrow> palloc_state res" where
  "test_palloc_loop 0 s = Inr s"
| "test_palloc_loop (Suc k) s =
     ebind (alloc_each palloc test_palloc_counts s) (\<lambda>(s, results).
     ebind (release_each pfree results s) (\<lambda>s. test_palloc_loop k s))"

definition test_palloc :: "palloc_state \<Rightarrow> palloc_state res" where
  "test_palloc s = test_palloc_loop 5 s"

lemma test_palloc_counts_range: "\<forall>n\<in>set test_palloc_counts. 0 \<le> n \<and> n \<le> 2 ^ 15"
proof -
  have "(2::int) ^ i \<le> 2 ^ 15" if "i < 8" for i :: nat using that by (intro power_increasing) auto
  then show ?thesis by (auto simp: test_palloc_counts_def)
qed

lemma test_palloc_loop_ok:
  assumes "palloc_ok s" shows "\<exists>s'. test_palloc_loop k s = Inr s' \<and> palloc_ok s' \<and> allocated s' = allocated s"
  using assms
proof (induction k arbitrary: s)
  case (Suc k)
  obtain s1 ps s2 where "alloc_each palloc test_palloc_counts s = Inr (s1, ps)" "release_each pfree ps s1 = Inr s2"
      "palloc_ok s2" "allocated s2 = allocated s"
    using frames.alloc_release_law [OF Suc.prems test_palloc_counts_range] by blast
  then show ?case using Suc.IH [of s2] by auto
qed simp

section \<open>A small machine\<close>

text \<open>Eight frames, of which frame 0 is not managed, in one region with all tags.\<close>

definition demo_palloc :: palloc_state where
  "demo_palloc =
     (case init_region 1 7 0 7 (palloc_reset 0 8) of Inl _ \<Rightarrow> palloc_reset 0 8 | Inr s \<Rightarrow> s\<lparr>region_count := 1\<rparr>)"

lemma palloc_wf_region_count [simp]: "palloc_wf (s\<lparr>region_count := c\<rparr>) T L = palloc_wf s T L"
  by (simp add: palloc_wf_def nodes_ok_def free_lists_def cores_def is_pfn_valid_def)

lemma palloc_inv_region_count: "palloc_inv s T L \<Longrightarrow> c \<le> 32 \<Longrightarrow> palloc_inv (s\<lparr>region_count := c\<rparr>) T L"
  by (simp add: palloc_inv_def)

lemma demo_palloc_inv:
  "\<exists>T L. palloc_inv demo_palloc T L \<and> range_added Map.empty T 0 1 8"
proof -
  have "\<exists>s' T' L'. init_region 1 7 0 7 (palloc_reset 0 8) = Inr s' \<and> palloc_inv s' T' L' \<and>
     range_added Map.empty T' 0 1 (1 + 7) \<and> region_count s' = region_count (palloc_reset 0 8) \<and>
     pfn_start s' = pfn_start (palloc_reset 0 8) \<and> pfn_limit s' = pfn_limit (palloc_reset 0 8) \<and>
     pfn_entry_count s' = pfn_entry_count (palloc_reset 0 8) \<and>
     (\<forall>r'. pr_tags (regions s' r') = (if r' = 0 then 7 else pr_tags (regions (palloc_reset 0 8) r')))"
    by (rule init_region_inv [OF palloc_reset_inv]) (auto simp: palloc_reset_def)
  then obtain s' T' L' where "init_region 1 7 0 7 (palloc_reset 0 8) = Inr s'" "palloc_inv s' T' L'"
     "range_added Map.empty T' 0 1 8" by auto
  then show ?thesis using palloc_inv_region_count [of s' T' L' 1] by (auto simp: demo_palloc_def)
qed

lemma range_added_empty:
  assumes "range_added Map.empty T r lo hi"
  shows "free_cover T r = {lo..<hi}" "T p \<noteq> Some (r', j, True)"
proof -
  have T: "T p = Some (r', j, a) \<Longrightarrow> r' = r \<and> \<not> a \<and> block p j \<subseteq> {lo..<hi}" for p r' j a
    using assms unfolding range_added_def by fastforce
  then show "T p \<noteq> Some (r', j, True)" by blast
  have "free_cover T r \<subseteq> {lo..<hi}" unfolding free_cover_def using T by fast
  then show "free_cover T r = {lo..<hi}" using assms by (auto simp: range_added_def)
qed

lemma demo_palloc_ok: "palloc_ok demo_palloc"
  using demo_palloc_inv by (auto simp: palloc_ok_def)

lemma demo_palloc_free: "free_frames demo_palloc 0 = {1..<8}"
proof -
  obtain T L where inv: "palloc_inv demo_palloc T L" and T: "range_added Map.empty T 0 1 8"
    using demo_palloc_inv by blast
  show ?thesis using free_frames_eq [OF palloc_invD(1) [OF inv], of 0] range_added_empty(1) [OF T] by simp
qed

lemma demo_palloc_region_count [simp]: "region_count demo_palloc = 1"
proof -
  obtain s where "init_region 1 7 0 7 (palloc_reset 0 8) = Inr s"
    using init_region_inv [OF palloc_reset_inv, of 8 0 0 1 7 7] by (auto simp: palloc_reset_def)
  then show ?thesis by (simp add: demo_palloc_def)
qed

lemma demo_palloc_can_alloc: "can_alloc demo_palloc 0 2"
  unfolding can_alloc_def demo_palloc_free by (intro conjI exI [of _ 4]) (auto simp: block_def)

lemma demo_palloc_none: "allocated demo_palloc = Map.empty"
proof -
  obtain T L where inv: "palloc_inv demo_palloc T L" and T: "range_added Map.empty T 0 1 8"
    using demo_palloc_inv by blast
  have "allocated demo_palloc p = None" for p
    using allocated_eq [OF palloc_invD(1) [OF inv], of p] range_added_empty(2) [OF T, of p]
    by (cases "allocated demo_palloc p") blast+
  then show ?thesis by auto
qed

section \<open>Properties of the page frame allocator\<close>

text \<open>
  C2: A request for up to 32768 pages is rounded up to the least power of two \<open>2 ^ k\<close>. If any region
  has a completely free aligned range of that size (and \<open>k\<close> is below the reserved top order 15),
  \<^verbatim>\<open>palloc\<close> returns such a range, marks exactly it as allocated and takes exactly its frames from the
  free frames of one region; otherwise it returns 0 and changes nothing. The invariant is kept.
\<close>

theorem palloc_correct:
  assumes "palloc_ok s" "0 \<le> count" "count \<le> 2 ^ 15"
  shows "\<exists>s' p k. calc_palloc_order count = Inr k \<and> count \<le> 2 ^ k \<and> (k = 0 \<or> 2 ^ (k - 1) < count) \<and>
     palloc count s = Inr (s', p) \<and> palloc_ok s' \<and>
     (if \<exists>r<region_count s. can_alloc s r k then \<exists>r<region_count s. block_taken s s' r k p else p = 0 \<and> s' = s)"
proof -
  obtain k where k: "calc_palloc_order count = Inr k" "k \<le> 15" "count \<le> 2 ^ k" "k = 0 \<or> 2 ^ (k - 1) < count"
    using calc_palloc_order_correct [OF assms(2,3)] by blast
  with palloc_outcome [OF assms(1) k(1,2)] show ?thesis unfolding alloc_outcome_def by fastforce
qed

theorem palloc_correct_witness:
  "\<exists>s' p. palloc 4 demo_palloc = Inr (s', p) \<and> palloc_ok s' \<and> block_taken demo_palloc s' 0 2 p"
proof -
  have "calc_palloc_order 4 = Inr 2" by code_simp
  then show ?thesis
    using palloc_correct [OF demo_palloc_ok, of 4] demo_palloc_can_alloc by (auto split: if_splits)
qed

text \<open>
  C4: Releasing an allocated block of order \<open>k\<close> succeeds with the result \<open>2 ^ k\<close>, keeps the invariant,
  removes exactly this block from the allocated ones and returns exactly its frames to the region it
  came from, whatever other blocks are allocated at that moment.
\<close>

theorem pfree_correct:
  assumes "palloc_ok s" "allocated s p = Some k"
  shows "\<exists>s'. pfree p s = Inr (s', 2 ^ k) \<and> palloc_ok s' \<and> allocated s' = (allocated s)(p := None) \<and>
     (\<forall>r<32. free_frames s' r = (if r = pn_region (nodes s p) then free_frames s r \<union> block p k else free_frames s r))"
  using pfree_spec [OF assms] by blast

theorem pfree_correct_witness:
  "\<exists>s p s'. palloc 4 demo_palloc = Inr (s, p) \<and> pfree p s = Inr (s', 4) \<and> palloc_ok s' \<and> allocated s' = Map.empty"
proof -
  have "calc_palloc_order 4 = Inr 2" by code_simp
  with palloc_outcome [OF demo_palloc_ok, of 4 2] demo_palloc_can_alloc
  obtain s p where s: "palloc 4 demo_palloc = Inr (s, p)" "palloc_ok s" "allocated s = [p \<mapsto> 2]"
    by (fastforce simp: alloc_outcome_def block_taken_def demo_palloc_none)
  from pfree_correct [OF s(2), of p 2] s show ?thesis by fastforce
qed

text \<open>
  C5: A block that is allocated and released again leaves no trace that a client can see: the release
  reports at least the pages asked for, the allocated blocks and the free frames of every region are as
  before, and the same request succeeds again.
\<close>

theorem palloc_pfree_roundtrip:
  assumes "palloc_ok s" "palloc count s = Inr (s1, p)" "0 \<le> count" "count \<le> 2 ^ 15" "p \<noteq> 0"
  shows "\<exists>s2 n. pfree p s1 = Inr (s2, n) \<and> count \<le> int n \<and> palloc_ok s2 \<and> allocated s2 = allocated s \<and>
     (\<forall>r<32. free_frames s2 r = free_frames s r) \<and> (\<exists>s3 q. palloc count s2 = Inr (s3, q) \<and> q \<noteq> 0)"
proof -
  obtain k where k: "calc_palloc_order count = Inr k" "k \<le> 15" "count \<le> 2 ^ k"
    using calc_palloc_order_correct [OF assms(3,4)] by blast
  obtain r where r: "r < region_count s" "can_alloc s r k" "block_taken s s1 r k p" "palloc_ok s1" "region_env s1 = region_env s"
    using palloc_outcome [OF assms(1) k(1,2)] assms(2,5) by (auto simp: alloc_outcome_def)
  note B = r(3) [unfolded block_taken_def]
  have r32: "r < 32" using r(1) palloc_ok_region_count [OF assms(1)] by simp
  have a1: "allocated s1 p = Some k" using B by simp
  obtain s2 where s2: "pfree p s1 = Inr (s2, 2 ^ k)" "palloc_ok s2" "region_env s2 = region_env s1" "allocated s2 = (allocated s1)(p := None)"
      "\<forall>r<32. free_frames s2 r =
        (if r = pn_region (nodes s1 p) then free_frames s1 r \<union> block p k else free_frames s1 r)"
    using pfree_spec [OF r(4) a1] by blast
  have "allocated s2 = allocated s" using s2(4) B by (auto simp: fun_eq_iff)
  moreover have "pn_region (nodes s1 p) = r" using B by simp
  then have ff: "free_frames s2 r' = free_frames s r'" if "r' < 32" for r'
    using s2(5) B that r32 by (auto split: if_splits)
  moreover have "r < region_count s2" "can_alloc s2 r k"
    using r(1,2,5) s2(3) ff [OF r32] by (simp_all add: region_env_def can_alloc_def)
  then have "\<exists>s3 q. palloc count s2 = Inr (s3, q) \<and> q \<noteq> 0"
    using palloc_outcome [OF s2(2) k(1,2)] unfolding alloc_outcome_def block_taken_def by (metis less_irrefl)
  ultimately show ?thesis using s2(1,2) k(3) by auto
qed

theorem palloc_pfree_roundtrip_witness:
  "\<exists>s1 p s2 n s3 q. palloc 4 demo_palloc = Inr (s1, p) \<and> pfree p s1 = Inr (s2, n) \<and> 4 \<le> n \<and>
     free_frames s2 0 = {1..<8} \<and> allocated s2 = Map.empty \<and> palloc 4 s2 = Inr (s3, q) \<and> q \<noteq> 0"
proof -
  have "calc_palloc_order 4 = Inr 2" by code_simp
  with palloc_outcome [OF demo_palloc_ok, of 4 2] demo_palloc_can_alloc
  obtain s p where "palloc 4 demo_palloc = Inr (s, p)" "p \<noteq> 0"
    by (fastforce simp: alloc_outcome_def block_taken_def)
  from palloc_pfree_roundtrip [OF demo_palloc_ok this(1) _ _ this(2)] this show ?thesis
    using demo_palloc_free demo_palloc_none by fastforce
qed

text \<open>
  C6: The allocator's self test runs through on every state that satisfies the invariant, however
  little memory is free: no call panics, fails an assertion or deadlocks, and at the end exactly the
  blocks that were allocated before are allocated.
\<close>

theorem test_palloc_passes:
  assumes "palloc_ok s"
  shows "\<exists>s'. test_palloc s = Inr s' \<and> palloc_ok s' \<and> allocated s' = allocated s"
  using test_palloc_loop_ok [OF assms] by (simp add: test_palloc_def)

theorem test_palloc_passes_witness: "\<exists>s'. test_palloc demo_palloc = Inr s' \<and> allocated s' = Map.empty"
  using test_palloc_passes [OF demo_palloc_ok] demo_palloc_none by auto

text \<open>
  C9: Cutting a range of frames into blocks with \<^verbatim>\<open>init_region\<close> establishes the invariant of the
  allocator and makes exactly the frames of the range free in the region, with no block allocated.
\<close>

theorem init_region_establishes:
  assumes "0 < start" "lo \<le> start" "start + count \<le> hi" "hi \<le> 2 ^ 52" "r < 32"
  shows "\<exists>s. init_region start count r tags (palloc_reset lo hi) = Inr s \<and> palloc_ok s \<and>
     free_frames s r = {start..<start + count} \<and> allocated s = Map.empty \<and>
     pr_avail_pages (regions s r) = of_nat count"
proof -
  have "\<exists>s' T' L'. init_region start count r tags (palloc_reset lo hi) = Inr s' \<and> palloc_inv s' T' L' \<and>
     range_added Map.empty T' r start (start + count) \<and> region_count s' = region_count (palloc_reset lo hi) \<and>
     pfn_start s' = pfn_start (palloc_reset lo hi) \<and> pfn_limit s' = pfn_limit (palloc_reset lo hi) \<and>
     pfn_entry_count s' = pfn_entry_count (palloc_reset lo hi) \<and>
     (\<forall>r'. pr_tags (regions s' r') = (if r' = r then tags else pr_tags (regions (palloc_reset lo hi) r')))"
    by (rule init_region_inv [OF palloc_reset_inv]) (use assms in \<open>auto simp: palloc_reset_def\<close>)
  then obtain s T L where s: "init_region start count r tags (palloc_reset lo hi) = Inr s" "palloc_inv s T L"
      "range_added Map.empty T r start (start + count)" by blast
  note wf = palloc_invD(1) [OF s(2)]
  have ff: "free_frames s r = {start..<start + count}"
    using free_frames_eq [OF wf assms(5)] range_added_empty(1) [OF s(3)] by simp
  have "allocated s p = None" for p
    using allocated_eq [OF wf, of p] range_added_empty(2) [OF s(3), of p] by (cases "allocated s p") blast+
  moreover have "pr_avail_pages (regions s r) = of_nat count"
    using palloc_invD(3) [OF s(2) assms(5)] free_pages_card [OF wf, of r] range_added_empty(1) [OF s(3)] by simp
  ultimately show ?thesis using s(1,2) ff by (auto simp: palloc_ok_def)
qed

theorem init_region_establishes_witness:
  "\<exists>s. init_region 3 10 2 1 (palloc_reset 0 16) = Inr s \<and> palloc_ok s \<and> free_frames s 2 = {3..<13}"
  using init_region_establishes [of 3 0 10 16 2 1] by auto

end
