(* ===== verification/Memmap.thy ===== *)
theory Memmap
  imports Palloc
begin

text \<open>
  The boot memory map, \<^verbatim>\<open>libk/lib/memmap.c\<close>: a table of address ranges with a type and tags, from
  which the loader and the kernel claim memory before the page allocator runs. The table is the whole
  array of slots with the number of slots in use, so that the contents a new slot inherits from the
  array are visible. Addresses and sizes are 64-bit words.
\<close>

section \<open>The table\<close>

datatype memmap_type = MEMMAP_NONE | MEMMAP_USABLE | MEMMAP_USED | MEMMAP_USED_RECLAIM | MEMMAP_INVALID

record loader_memmap_entry =
  me_start :: u64
  me_size :: u64
  me_flags :: memmap_type
  me_tags :: u32

definition zero_entry :: loader_memmap_entry where
  "zero_entry = \<lparr>me_start = 0, me_size = 0, me_flags = MEMMAP_NONE, me_tags = 0\<rparr>"

record loader_memmap =
  mm_slots :: "loader_memmap_entry list"
  mm_num :: nat

definition entry_at :: "loader_memmap \<Rightarrow> nat \<Rightarrow> loader_memmap_entry" where
  "entry_at mm i = mm_slots mm ! i"

definition upd_entry :: "nat \<Rightarrow> (loader_memmap_entry \<Rightarrow> loader_memmap_entry) \<Rightarrow> loader_memmap \<Rightarrow> loader_memmap" where
  "upd_entry i f mm = mm\<lparr>mm_slots := (mm_slots mm)[i := f (mm_slots mm ! i)]\<rparr>"

section \<open>Inserting, removing and splitting entries\<close>

definition insert_entry :: "nat \<Rightarrow> loader_memmap \<Rightarrow> loader_memmap res" where
  "insert_entry idx mm =
     panic_if (length (mm_slots mm) \<le> mm_num mm) (
     panic_if (mm_num mm < idx) (
     Inr (mm\<lparr>mm_slots := fold (\<lambda>i s. s[i + 1 := s ! i]) (rev [idx..<mm_num mm]) (mm_slots mm),
             mm_num := mm_num mm + 1\<rparr>)))"

definition append_entry :: "loader_memmap \<Rightarrow> loader_memmap res" where
  "append_entry mm = insert_entry (mm_num mm) mm"

text \<open>With an empty table the count would become negative.\<close>

definition remove_entry :: "nat \<Rightarrow> loader_memmap \<Rightarrow> loader_memmap res" where
  "remove_entry idx mm =
     (if mm_num mm < idx then Inr mm
      else if mm_num mm = 0 then Inl Undefined
      else
        let s = fold (\<lambda>i s. s[i := s ! (i + 1)]) [idx..<mm_num mm - 1] (mm_slots mm)
        in Inr (mm\<lparr>mm_slots := s[max idx (mm_num mm - 1) := zero_entry], mm_num := mm_num mm - 1\<rparr>))"

definition split_entry :: "nat \<Rightarrow> u64 \<Rightarrow> loader_memmap \<Rightarrow> loader_memmap res" where
  "split_entry idx offset mm =
     (let entry = entry_at mm idx in
      panic_if (me_size entry \<le> offset) (
      ebind (insert_entry (idx + 1) mm) (\<lambda>mm.
      let mm = upd_entry (idx + 1) (\<lambda>_. entry_at mm idx) mm;
          mm = upd_entry idx (\<lambda>e. e\<lparr>me_size := offset\<rparr>) mm
      in Inr (upd_entry (idx + 1) (\<lambda>e. e\<lparr>me_size := me_size e - offset, me_start := me_start e + offset\<rparr>) mm))))"

definition split_entry2 :: "nat \<Rightarrow> u64 \<Rightarrow> u64 \<Rightarrow> loader_memmap \<Rightarrow> loader_memmap res" where
  "split_entry2 idx offset1 offset2 mm =
     (let entry = entry_at mm idx in
      panic_if (me_size entry \<le> offset1 \<or> me_size entry \<le> offset2 \<or> offset2 \<le> offset1) (
      ebind (insert_entry (idx + 1) mm) (\<lambda>mm.
      let mm = upd_entry (idx + 1) (\<lambda>_. entry_at mm idx) mm;
          mm = upd_entry (idx + 1) (\<lambda>e. e\<lparr>me_size := me_size e - offset2, me_start := me_start e + offset2\<rparr>) mm
      in ebind (insert_entry (idx + 1) mm) (\<lambda>mm.
         let mm = upd_entry (idx + 1) (\<lambda>_. entry_at mm idx) mm;
             mm = upd_entry (idx + 1) (\<lambda>e. e\<lparr>me_size := offset2 - offset1, me_start := me_start e + offset1\<rparr>) mm
         in Inr (upd_entry idx (\<lambda>e. e\<lparr>me_size := offset1\<rparr>) mm)))))"

section \<open>Merging neighbours\<close>

text \<open>Every round removes an entry or moves on, so the number of entries is enough fuel.\<close>

primrec merge_loop :: "nat \<Rightarrow> nat \<Rightarrow> loader_memmap \<Rightarrow> loader_memmap res" where
  "merge_loop 0 i mm = (if i + 1 < mm_num mm then Inl Out_of_fuel else Inr mm)"
| "merge_loop (Suc fuel) i mm =
     (if i + 1 < mm_num mm then
        let entry = entry_at mm i; nx = entry_at mm (i + 1) in
        if me_start entry + me_size entry = me_start nx \<and> me_flags entry = me_flags nx
        then ebind (remove_entry (i + 1) (upd_entry i (\<lambda>e. e\<lparr>me_size := me_size e + me_size nx\<rparr>) mm))
               (merge_loop fuel i)
        else merge_loop fuel (i + 1) mm
      else Inr mm)"

definition merge_consecutive_regions :: "loader_memmap \<Rightarrow> loader_memmap res" where
  "merge_consecutive_regions mm = merge_loop (mm_num mm) 0 mm"

section \<open>Claiming a region\<close>

text \<open>
  The loop of \<^verbatim>\<open>claim_memmap_region\<close>; the result also carries what is left of \<open>start\<close> and of the length \<open>len\<close>. In the
  second branch the new entry's size is computed after its start has been overwritten, as in C. The
  table can grow at most to its capacity, which bounds the number of rounds.
\<close>

primrec claim_loop :: "nat \<Rightarrow> nat \<Rightarrow> u64 \<Rightarrow> u64 \<Rightarrow> u64 \<Rightarrow> memmap_type \<Rightarrow> loader_memmap \<Rightarrow> (loader_memmap \<times> u64 \<times> u64) res" where
  "claim_loop 0 i start len end_addr type mm = Inl Out_of_fuel"
| "claim_loop (Suc fuel) i start len end_addr type mm =
     (if mm_num mm \<le> i \<or> len = 0 then Inr (mm, start, len)
      else
        let entry = entry_at mm i; entry_end = me_start entry + me_size entry in
        if end_addr \<le> me_start entry then
          ebind (insert_entry i mm) (\<lambda>mm.
          claim_loop fuel (i + 1) start 0 end_addr type
            (upd_entry i (\<lambda>e. e\<lparr>me_start := start, me_size := len, me_flags := type\<rparr>) mm))
        else if start < me_start entry then
          ebind (insert_entry i mm) (\<lambda>mm.
          let mm = upd_entry i (\<lambda>e. e\<lparr>me_start := start\<rparr>) mm;
              mm = upd_entry i (\<lambda>e. e\<lparr>me_size := me_start e - start, me_flags := type\<rparr>) mm;
              sz = me_size (entry_at mm i)
          in claim_loop fuel (i + 1) (start + sz) (len - sz) end_addr type mm)
        else if start = me_start entry then
          if me_size entry \<le> len then
            claim_loop fuel (i + 1) (start + me_size entry) (len - me_size entry) end_addr type
              (upd_entry i (\<lambda>e. e\<lparr>me_flags := type\<rparr>) mm)
          else
            ebind (split_entry i len mm) (\<lambda>mm.
            claim_loop fuel (i + 1) start 0 end_addr type (upd_entry i (\<lambda>e. e\<lparr>me_flags := type\<rparr>) mm))
        else if me_start entry < start \<and> start < entry_end then
          if entry_end \<le> end_addr then
            ebind (split_entry i (start - me_start entry) mm) (\<lambda>mm.
            let mm = upd_entry (i + 1) (\<lambda>e. e\<lparr>me_flags := type\<rparr>) mm
            in claim_loop fuel (i + 2) start (len - me_size (entry_at mm (i + 1))) end_addr type mm)
          else
            ebind (split_entry2 i (start - me_start entry) (end_addr - me_start entry) mm) (\<lambda>mm.
            claim_loop fuel (i + 3) start 0 end_addr type (upd_entry (i + 1) (\<lambda>e. e\<lparr>me_flags := type\<rparr>) mm))
        else claim_loop fuel (i + 1) start len end_addr type mm)"

definition claim_memmap_region :: "u64 \<Rightarrow> u64 \<Rightarrow> memmap_type \<Rightarrow> loader_memmap \<Rightarrow> loader_memmap res" where
  "claim_memmap_region start len type mm =
     ebind (claim_loop (Suc (2 * length (mm_slots mm))) 0 start len (start + len) type mm) (\<lambda>(mm, start, len).
     ebind (if len \<noteq> 0 then
              ebind (append_entry mm) (\<lambda>mm.
              Inr (upd_entry (mm_num mm - 1) (\<lambda>e. e\<lparr>me_start := start, me_size := len, me_flags := type\<rparr>) mm))
            else Inr mm)
       merge_consecutive_regions)"

section \<open>Tags\<close>

definition set_tags :: "bool \<Rightarrow> u32 \<Rightarrow> loader_memmap_entry \<Rightarrow> loader_memmap_entry" where
  "set_tags tag msk e = e\<lparr>me_tags := (if tag then me_tags e OR msk else me_tags e AND NOT msk)\<rparr>"

primrec tag_loop :: "nat \<Rightarrow> nat \<Rightarrow> u64 \<Rightarrow> u64 \<Rightarrow> u64 \<Rightarrow> u32 \<Rightarrow> bool \<Rightarrow> loader_memmap \<Rightarrow> loader_memmap res" where
  "tag_loop 0 i start len end_addr msk tag mm = Inl Out_of_fuel"
| "tag_loop (Suc fuel) i start len end_addr msk tag mm =
     (if mm_num mm \<le> i \<or> len = 0 then Inr mm
      else
        let entry = entry_at mm i; entry_end = me_start entry + me_size entry in
        if me_start entry < start \<and> start < entry_end \<and> entry_end < end_addr then
          ebind (split_entry i (start - me_start entry) mm) (\<lambda>mm.
          tag_loop fuel (i + 2) start len end_addr msk tag (upd_entry (i + 1) (set_tags tag msk) mm))
        else if start < me_start entry \<and> me_start entry < end_addr \<and> end_addr < entry_end then
          ebind (split_entry i (start - me_start entry) mm) (\<lambda>mm.
          tag_loop fuel (i + 1) start len end_addr msk tag (upd_entry i (set_tags tag msk) mm))
        else if me_start entry < start \<and> end_addr < entry_end then
          ebind (split_entry2 i (start - me_start entry) (end_addr - me_start entry) mm) (\<lambda>mm.
          tag_loop fuel (i + 2) start len end_addr msk tag (upd_entry (i + 1) (set_tags tag msk) mm))
        else if start \<le> me_start entry \<and> entry_end \<le> end_addr then
          tag_loop fuel (i + 1) start len end_addr msk tag (upd_entry i (set_tags tag msk) mm)
        else tag_loop fuel (i + 1) start len end_addr msk tag mm)"

definition do_tag_memmap_region :: "u64 \<Rightarrow> u64 \<Rightarrow> u32 \<Rightarrow> bool \<Rightarrow> loader_memmap \<Rightarrow> loader_memmap res" where
  "do_tag_memmap_region start len msk tag mm =
     tag_loop (Suc (2 * length (mm_slots mm))) 0 start len (start + len) msk tag mm"

definition tag_memmap_region :: "u64 \<Rightarrow> u64 \<Rightarrow> u32 \<Rightarrow> loader_memmap \<Rightarrow> loader_memmap res" where
  "tag_memmap_region start len msk mm = do_tag_memmap_region start len msk True mm"

definition untag_memmap_region :: "u64 \<Rightarrow> u64 \<Rightarrow> u32 \<Rightarrow> loader_memmap \<Rightarrow> loader_memmap res" where
  "untag_memmap_region start len msk mm = do_tag_memmap_region start len msk False mm"

section \<open>Finding free memory\<close>

definition align_up :: "u64 \<Rightarrow> u64 \<Rightarrow> u64" where
  "align_up s a = (s + (a - 1)) AND NOT (a - 1)"

definition align_down :: "u64 \<Rightarrow> u64 \<Rightarrow> u64" where
  "align_down s a = s AND NOT (a - 1)"

definition entry_fits :: "loader_memmap_entry \<Rightarrow> u64 \<Rightarrow> u64 \<Rightarrow> u32 \<Rightarrow> memmap_match \<Rightarrow> bool" where
  "entry_fits entry len align msk m \<longleftrightarrow>
     me_flags entry = MEMMAP_USABLE \<and> len \<le> me_size entry \<and>
     (let aligned_start = (if align \<noteq> 0 then align_up (me_start entry) align else me_start entry);
          entry_end = me_start entry + me_size entry
      in aligned_start < entry_end \<and> len \<le> entry_end - aligned_start) \<and>
     region_matched (me_tags entry) msk m"

fun find_free_loop :: "nat list \<Rightarrow> u64 \<Rightarrow> u64 \<Rightarrow> u32 \<Rightarrow> memmap_match \<Rightarrow> loader_memmap \<Rightarrow> (loader_memmap \<times> u64) res" where
  "find_free_loop [] len align msk m mm = Inr (mm, 0)"
| "find_free_loop (i # is) len align msk m mm =
     (if entry_fits (entry_at mm i) len align msk m then
        let entry = entry_at mm i;
            aligned_start = (if align \<noteq> 0 then align_up (me_start entry) align else me_start entry)
        in ebind (claim_memmap_region aligned_start len MEMMAP_USED mm) (\<lambda>mm. Inr (mm, aligned_start))
      else find_free_loop is len align msk m mm)"

definition find_free_memmap_region :: "u64 \<Rightarrow> u64 \<Rightarrow> u32 \<Rightarrow> memmap_match \<Rightarrow> loader_memmap \<Rightarrow> (loader_memmap \<times> u64) res" where
  "find_free_memmap_region len align msk m mm =
     panic_if (popcount64 align > 1) (find_free_loop [0..<mm_num mm] len align msk m mm)"

fun find_free_by_tags :: "(memmap_match \<times> u32) list \<Rightarrow> u64 \<Rightarrow> u64 \<Rightarrow> loader_memmap \<Rightarrow> (loader_memmap \<times> u64) res" where
  "find_free_by_tags [] len align mm = Inr (mm, 0)"
| "find_free_by_tags ((m, msk) # ts) len align mm =
     ebind (find_free_memmap_region len align msk m mm) (\<lambda>(mm, paddr).
     if paddr \<noteq> 0 then Inr (mm, paddr) else find_free_by_tags ts len align mm)"

definition find_free_memmap_region_for_palloc :: "u64 \<Rightarrow> u64 \<Rightarrow> loader_memmap \<Rightarrow> (loader_memmap \<times> u64) res" where
  "find_free_memmap_region_for_palloc len align mm =
     ebind (find_free_by_tags palloc_tags len align mm) (\<lambda>(mm, paddr). panic_if (paddr = 0) (Inr (mm, paddr)))"

definition find_free_memmap_direct_mapped_region :: "u64 \<Rightarrow> u64 \<Rightarrow> loader_memmap \<Rightarrow> (loader_memmap \<times> u64) res" where
  "find_free_memmap_direct_mapped_region len align mm =
     ebind (find_free_by_tags direct_mapped_tags len align mm) (\<lambda>(mm, paddr). panic_if (paddr = 0) (Inr (mm, paddr)))"

section \<open>Checking\<close>

definition check_memmap_region_usable :: "u64 \<Rightarrow> u64 \<Rightarrow> loader_memmap \<Rightarrow> bool" where
  "check_memmap_region_usable start len mm =
     (let end_addr = start + len in
      list_all (\<lambda>entry.
        let entry_end = me_start entry + me_size entry in
        (me_start entry \<le> start \<and> start < entry_end \<or> me_start entry < end_addr \<and> end_addr \<le> entry_end) \<longrightarrow>
        me_flags entry = MEMMAP_USABLE)
      (take (mm_num mm) (mm_slots mm)))"

definition print_memmap :: "loader_memmap \<Rightarrow> (nat \<times> loader_memmap_entry) list" where
  "print_memmap mm = enumerate 0 (take (mm_num mm) (mm_slots mm))"

end
