(* ===== verification/Memmap_Claim.thy ===== *)
theory Memmap_Claim
  imports Memmap
begin

text \<open>
  Correctness of the boot memory map. The table is abstracted to the list of its entries in use, and
  that list to the type of memory at each address. Claiming a range inside one entry is proved to
  change the type of exactly that range; so is finding free memory. The theory also shows where the
  code departs from that: ranges that start in a gap, tagging, and the check for usable memory.
\<close>

section \<open>The entries in use\<close>

definition active :: "loader_memmap \<Rightarrow> loader_memmap_entry list" where
  "active mm = take (mm_num mm) (mm_slots mm)"

definition capacity :: "loader_memmap \<Rightarrow> nat" where
  "capacity mm = length (mm_slots mm)"

lemma length_shift_up [simp]: "length (fold (\<lambda>i s. s[Suc i := s ! i]) is s) = length s"
  by (induction "is" arbitrary: s) auto

lemma length_shift_down [simp]: "length (fold (\<lambda>i s. s[i := s ! Suc i]) is s) = length s"
  by (induction "is" arbitrary: s) auto

lemma shift_up_nth:
  assumes "n < length s" "j < length s"
  shows "fold (\<lambda>i s. s[Suc i := s ! i]) (rev [idx..<n]) s ! j = (if idx < j \<and> j \<le> n then s ! (j - 1) else s ! j)"
  using assms
proof (induction n arbitrary: s)
  case (Suc n)
  show ?case
  proof (cases "idx \<le> n")
    case True
    then have "fold (\<lambda>i s. s[Suc i := s ! i]) (rev [idx..<Suc n]) s ! j =
        (if idx < j \<and> j \<le> n then s[Suc n := s ! n] ! (j - 1) else s[Suc n := s ! n] ! j)"
      using Suc.IH [of "s[Suc n := s ! n]"] Suc.prems by simp
    then show ?thesis using True Suc.prems by (auto simp: nth_list_update)
  qed (use Suc.prems in auto)
qed simp

lemma shift_down_nth:
  assumes "n < length s" "j < length s" "idx \<le> n"
  shows "fold (\<lambda>i s. s[i := s ! Suc i]) [idx..<n] s ! j = (if idx \<le> j \<and> j < n then s ! Suc j else s ! j)"
  using assms
proof (induction n arbitrary: j)
  case (Suc n)
  show ?case
  proof (cases "idx \<le> n")
    case True
    let ?s = "fold (\<lambda>i s. s[i := s ! Suc i]) [idx..<n] s"
    have "fold (\<lambda>i s. s[i := s ! Suc i]) [idx..<Suc n] s = ?s[n := ?s ! Suc n]" using True by simp
    moreover have "?s ! Suc n = s ! Suc n" using Suc.IH [of "Suc n"] Suc.prems True by simp
    ultimately show ?thesis using Suc.IH [of j] Suc.prems True by (auto simp: nth_list_update)
  next
    case False
    then have "idx = Suc n" using Suc.prems by simp
    then show ?thesis by auto
  qed
qed simp

lemma active_upd_entry [simp]:
  "i < mm_num mm \<Longrightarrow> active (upd_entry i f mm) = (active mm)[i := f (active mm ! i)]"
  "mm_num (upd_entry i f mm) = mm_num mm" "capacity (upd_entry i f mm) = capacity mm"
  by (simp_all add: active_def upd_entry_def take_update_swap capacity_def)

lemma entry_at_active: "i < mm_num mm \<Longrightarrow> entry_at mm i = active mm ! i"
  by (simp add: entry_at_def active_def)

lemma insert_entry_active:
  assumes "mm_num mm < capacity mm" "idx \<le> mm_num mm"
  shows "\<exists>mm'. insert_entry idx mm = Inr mm' \<and>
     active mm' = take idx (active mm) @ mm_slots mm ! idx # drop idx (active mm) \<and>
     mm_num mm' = Suc (mm_num mm) \<and> capacity mm' = capacity mm \<and> mm_slots mm' ! idx = mm_slots mm ! idx"
proof -
  let ?s = "fold (\<lambda>i s. s[Suc i := s ! i]) (rev [idx..<mm_num mm]) (mm_slots mm)"
  define mm' where "mm' = mm\<lparr>mm_slots := ?s, mm_num := mm_num mm + 1\<rparr>"
  note len = assms(1) [unfolded capacity_def]
  have nth: "?s ! j = (if idx < j \<and> j \<le> mm_num mm then mm_slots mm ! (j - 1) else mm_slots mm ! j)"
    if "j < length (mm_slots mm)" for j using shift_up_nth [OF len that] .
  have "active mm' = take idx (active mm) @ mm_slots mm ! idx # drop idx (active mm)"
  proof (rule nth_equalityI)
    show "length (active mm') = length (take idx (active mm) @ mm_slots mm ! idx # drop idx (active mm))"
      using len assms(2) by (simp add: active_def mm'_def)
    fix j assume "j < length (active mm')"
    then have j: "j \<le> mm_num mm" using len by (simp add: active_def mm'_def)
    have "j - Suc 0 = idx + x" if "j - idx = Suc x" for x using that by simp
    then show "active mm' ! j = (take idx (active mm) @ mm_slots mm ! idx # drop idx (active mm)) ! j"
      using j nth [of j] len assms(2) by (auto simp: active_def mm'_def nth_append nth_Cons split: nat.split)
  qed
  moreover have "insert_entry idx mm = Inr mm'" using assms by (simp add: insert_entry_def mm'_def capacity_def)
  ultimately show ?thesis using nth [of idx] len assms(2) by (simp add: mm'_def capacity_def)
qed

lemma insert_entry_full: "capacity mm \<le> mm_num mm \<Longrightarrow> insert_entry idx mm = Inl Panic"
  by (simp add: insert_entry_def capacity_def)

lemma remove_entry_active:
  assumes "idx < mm_num mm" "mm_num mm \<le> capacity mm"
  shows "\<exists>mm'. remove_entry idx mm = Inr mm' \<and> active mm' = take idx (active mm) @ drop (Suc idx) (active mm) \<and>
     mm_num mm' = mm_num mm - 1 \<and> capacity mm' = capacity mm"
proof -
  let ?s = "fold (\<lambda>i s. s[i := s ! Suc i]) [idx..<mm_num mm - 1] (mm_slots mm)"
  define mm' where "mm' = mm\<lparr>mm_slots := ?s[max idx (mm_num mm - 1) := zero_entry], mm_num := mm_num mm - 1\<rparr>"
  have len: "mm_num mm - 1 < length (mm_slots mm)" "mm_num mm \<le> length (mm_slots mm)"
    using assms by (auto simp: capacity_def)
  have "active mm' = take idx (active mm) @ drop (Suc idx) (active mm)"
  proof (rule nth_equalityI)
    show "length (active mm') = length (take idx (active mm) @ drop (Suc idx) (active mm))"
      using len assms by (simp add: active_def mm'_def)
    fix j assume "j < length (active mm')"
    then have j: "j < mm_num mm - 1" using len by (simp add: active_def mm'_def)
    then show "active mm' ! j = (take idx (active mm) @ drop (Suc idx) (active mm)) ! j"
      using shift_down_nth [OF len(1), of j idx] len assms by (auto simp: active_def mm'_def nth_append)
  qed
  moreover have "remove_entry idx mm = Inr mm'" using assms by (simp add: remove_entry_def mm'_def Let_def)
  ultimately show ?thesis by (simp add: mm'_def capacity_def)
qed


text \<open>Splitting the entry at the end of \<open>xs\<close>.\<close>

lemmas list_pick = list_update_append nth_append

lemma insert_after:
  assumes act: "active mm = xs @ e # ys" and room: "mm_num mm < capacity mm"
  shows "\<exists>mm' z. insert_entry (length xs + 1) mm = Inr mm' \<and> active mm' = xs @ e # z # ys \<and>
     mm_num mm' = Suc (mm_num mm) \<and> capacity mm' = capacity mm \<and> length xs < mm_num mm"
proof -
  have "length (active mm) = mm_num mm" using room by (simp add: active_def capacity_def)
  then have "length xs + 1 \<le> mm_num mm" using act by auto
  then show ?thesis using insert_entry_active [OF room, of "length xs + 1"] act by auto
qed

lemma split_entry_active:
  assumes act: "active mm = xs @ e # ys" and room: "mm_num mm < capacity mm" and off: "offset < me_size e"
  shows "\<exists>mm'. split_entry (length xs) offset mm = Inr mm' \<and>
     active mm' = xs @ e\<lparr>me_size := offset\<rparr> # e\<lparr>me_start := me_start e + offset, me_size := me_size e - offset\<rparr> # ys \<and>
     mm_num mm' = Suc (mm_num mm) \<and> capacity mm' = capacity mm"
proof -
  obtain mm1 z where mm1: "insert_entry (length xs + 1) mm = Inr mm1" "active mm1 = xs @ e # z # ys"
      "mm_num mm1 = Suc (mm_num mm)" "capacity mm1 = capacity mm" "length xs < mm_num mm"
    using insert_after [OF act room] by blast
  have "entry_at mm (length xs) = e" "entry_at mm1 (length xs) = e"
    using mm1 act by (simp_all add: entry_at_active)
  then show ?thesis using mm1 off by (auto simp: split_entry_def Let_def list_pick panic_if_def)
qed

lemma split_entry2_active:
  assumes act: "active mm = xs @ e # ys" and room: "Suc (mm_num mm) < capacity mm"
    and off: "offset1 < offset2" "offset2 < me_size e"
  shows "\<exists>mm'. split_entry2 (length xs) offset1 offset2 mm = Inr mm' \<and>
     active mm' = xs @ e\<lparr>me_size := offset1\<rparr> # e\<lparr>me_start := me_start e + offset1, me_size := offset2 - offset1\<rparr> #
       e\<lparr>me_start := me_start e + offset2, me_size := me_size e - offset2\<rparr> # ys \<and>
     mm_num mm' = mm_num mm + 2 \<and> capacity mm' = capacity mm"
proof -
  obtain mm1 z where mm1: "insert_entry (length xs + 1) mm = Inr mm1" "active mm1 = xs @ e # z # ys"
      "mm_num mm1 = Suc (mm_num mm)" "capacity mm1 = capacity mm" "length xs < mm_num mm"
    using insert_after [OF act] room by auto
  have e: "entry_at mm (length xs) = e" "entry_at mm1 (length xs) = e"
    using mm1 act by (simp_all add: entry_at_active)
  define e3 where "e3 = e\<lparr>me_start := me_start e + offset2, me_size := me_size e - offset2\<rparr>"
  define mm2 where "mm2 = upd_entry (length xs + 1) (\<lambda>e. e\<lparr>me_size := me_size e - offset2, me_start := me_start e + offset2\<rparr>)
      (upd_entry (length xs + 1) (\<lambda>_. entry_at mm1 (length xs)) mm1)"
  have mm2: "active mm2 = xs @ e # e3 # ys" "mm_num mm2 = Suc (mm_num mm)" "capacity mm2 = capacity mm"
    using mm1 e by (auto simp: mm2_def list_pick e3_def)
  obtain mm3 z' where mm3: "insert_entry (length xs + 1) mm2 = Inr mm3" "active mm3 = xs @ e # z' # e3 # ys"
      "mm_num mm3 = Suc (mm_num mm2)" "capacity mm3 = capacity mm2"
    using insert_after [OF mm2(1)] mm2 room by auto
  have "entry_at mm3 (length xs) = e" using mm3 mm2 mm1(5) by (simp add: entry_at_active)
  then show ?thesis
    using mm1(1,5) mm3 mm2(2,3) e off less_trans [OF off]
    by (auto simp: split_entry2_def Let_def mm2_def [simplified e(2) Suc_eq_plus1 [symmetric], symmetric] list_pick e3_def panic_if_def)
qed

section \<open>What the table says of an address\<close>

definition mend :: "loader_memmap_entry \<Rightarrow> nat" where
  "mend e = unat (me_start e) + unat (me_size e)"

definition holds :: "loader_memmap_entry \<Rightarrow> nat \<Rightarrow> bool" where
  "holds e a \<longleftrightarrow> unat (me_start e) \<le> a \<and> a < mend e"

fun flags_of :: "loader_memmap_entry list \<Rightarrow> nat \<Rightarrow> memmap_type option" where
  "flags_of [] a = None"
| "flags_of (e # es) a = (if holds e a then Some (me_flags e) else flags_of es a)"

definition entry_ok :: "loader_memmap_entry \<Rightarrow> bool" where
  "entry_ok e \<longleftrightarrow> me_size e \<noteq> 0 \<and> mend e < 2 ^ 64"

definition entries_ok :: "loader_memmap_entry list \<Rightarrow> bool" where
  "entries_ok es \<longleftrightarrow> list_all entry_ok es \<and> sorted_wrt (\<lambda>e f. mend e \<le> unat (me_start f)) es"

definition memmap_ok :: "loader_memmap \<Rightarrow> bool" where
  "memmap_ok mm \<longleftrightarrow> mm_num mm \<le> capacity mm \<and> entries_ok (active mm)"

lemma entries_ok_simps [simp]:
  "entries_ok []" "entries_ok (e # es) \<longleftrightarrow> entry_ok e \<and> (\<forall>f\<in>set es. mend e \<le> unat (me_start f)) \<and> entries_ok es"
  "entries_ok (xs @ ys) \<longleftrightarrow> entries_ok xs \<and> entries_ok ys \<and> (\<forall>e\<in>set xs. \<forall>f\<in>set ys. mend e \<le> unat (me_start f))"
  by (auto simp: entries_ok_def sorted_wrt_append)

lemma flags_of_append: "flags_of (xs @ ys) a = (case flags_of xs a of None \<Rightarrow> flags_of ys a | Some t \<Rightarrow> Some t)"
  by (induction xs) auto

lemma flags_of_None: "(\<And>e. e \<in> set xs \<Longrightarrow> \<not> holds e a) \<Longrightarrow> flags_of xs a = None"
  by (induction xs) auto

lemma entry_ok_end: "entry_ok e \<Longrightarrow> unat (me_start e + me_size e) = mend e"
  by (simp add: entry_ok_def mend_def unat_word_ariths)

lemma entry_ok_nonempty: "entry_ok e \<Longrightarrow> unat (me_start e) < mend e"
  by (simp add: entry_ok_def mend_def unat_gt_0)

section \<open>Merging\<close>

fun merged :: "loader_memmap_entry list \<Rightarrow> loader_memmap_entry list" where
  "merged (e # f # es) =
     (if me_start e + me_size e = me_start f \<and> me_flags e = me_flags f
      then merged (e\<lparr>me_size := me_size e + me_size f\<rparr> # es) else e # merged (f # es))"
| "merged es = es"

lemma merge_step:
  assumes "entries_ok (e # f # es)" "me_start e + me_size e = me_start f"
  shows "mend (e\<lparr>me_size := me_size e + me_size f\<rparr>) = mend f" "mend e = unat (me_start f)"
    "entries_ok (e\<lparr>me_size := me_size e + me_size f\<rparr> # es)"
proof -
  have ok: "entry_ok e" "entry_ok f" using assms(1) by simp_all
  show m: "mend e = unat (me_start f)" using entry_ok_end [OF ok(1)] assms(2) by simp
  have sz: "unat (me_size e + me_size f) = unat (me_size e) + unat (me_size f)"
    using m ok by (simp add: unat_word_ariths entry_ok_def mend_def)
  then show m2: "mend (e\<lparr>me_size := me_size e + me_size f\<rparr>) = mend f" using m by (simp add: mend_def)
  have "me_size e + me_size f \<noteq> 0" using sz ok(1) by (metis add_is_0 entry_ok_def unat_eq_zero unat_0)
  then have "entry_ok (e\<lparr>me_size := me_size e + me_size f\<rparr>)" using m2 ok(2) by (simp add: entry_ok_def)
  then show "entries_ok (e\<lparr>me_size := me_size e + me_size f\<rparr> # es)" using assms(1) m2 by simp
qed

lemma merge_step_flags:
  assumes "entries_ok (e # f # es)" "me_start e + me_size e = me_start f" "me_flags e = me_flags f"
  shows "flags_of (e\<lparr>me_size := me_size e + me_size f\<rparr> # es) a = flags_of (e # f # es) a"
  using merge_step [OF assms(1,2)] assms(1,3) entry_ok_nonempty [of e] entry_ok_nonempty [of f] by (auto simp: holds_def)

lemma merged_bounds:
  "entries_ok es \<Longrightarrow> f \<in> set (merged es) \<Longrightarrow> \<exists>e\<in>set es. me_start f = me_start e"
proof (induction es rule: merged.induct)
  case (1 e f' es)
  show ?case
  proof (cases "me_start e + me_size e = me_start f' \<and> me_flags e = me_flags f'")
    case True
    then show ?thesis using 1 merge_step(3) [of e f' es] by fastforce
  qed (use 1 in auto)
qed auto

lemma merged_ok: "entries_ok es \<Longrightarrow> entries_ok (merged es) \<and> (\<forall>a. flags_of (merged es) a = flags_of es a)"
proof (induction es rule: merged.induct)
  case (1 e f es)
  show ?case
  proof (cases "me_start e + me_size e = me_start f \<and> me_flags e = me_flags f")
    case True
    then show ?thesis
      using 1(1,3) merge_step(3) [OF 1(3)] merge_step_flags [OF 1(3)] by (simp del: flags_of.simps entries_ok_simps)
  next
    case False
    have "mend e \<le> unat (me_start g)" if g: "g \<in> set (merged (f # es))" for g
      using merged_bounds [of "f # es" g] g 1(3) by auto
    then show ?thesis using 1(2) 1(3) False by auto
  qed
qed auto

lemma merge_loop_merged:
  "active mm = xs @ e # ys \<Longrightarrow> mm_num mm \<le> capacity mm \<Longrightarrow> length ys \<le> fuel \<Longrightarrow>
   \<exists>mm'. merge_loop fuel (length xs) mm = Inr mm' \<and> active mm' = xs @ merged (e # ys) \<and>
     mm_num mm' \<le> mm_num mm \<and> capacity mm' = capacity mm"
proof (induction fuel arbitrary: mm xs e ys)
  case 0
  then have "length (active mm) = Suc (length xs)" by simp
  then have "mm_num mm = Suc (length xs)" using 0(2) by (simp add: active_def capacity_def)
  then show ?case using 0 by simp
next
  case (Suc fuel)
  have num: "mm_num mm = Suc (length xs + length ys)"
    using arg_cong [OF Suc(2), of length] Suc(3) by (simp add: active_def capacity_def)
  show ?case
  proof (cases ys)
    case Nil
    then show ?thesis using Suc num by simp
  next
    case (Cons f zs)
    have at: "entry_at mm (length xs) = e" "entry_at mm (Suc (length xs)) = f"
      using num Cons Suc(2) by (simp_all add: entry_at_active nth_append)
    show ?thesis
    proof (cases "me_start e + me_size e = me_start f \<and> me_flags e = me_flags f")
      case True
      let ?e = "e\<lparr>me_size := me_size e + me_size f\<rparr>"
      define mm1 where "mm1 = upd_entry (length xs) (\<lambda>e. e\<lparr>me_size := me_size e + me_size f\<rparr>) mm"
      have "active mm1 = xs @ ?e # f # zs" "mm_num mm1 = mm_num mm" "capacity mm1 = capacity mm"
        using num Cons Suc(2) by (simp_all add: mm1_def list_pick)
      moreover from this obtain mm2 where mm2: "remove_entry (Suc (length xs)) mm1 = Inr mm2"
        "active mm2 = xs @ ?e # zs" "mm_num mm2 = mm_num mm - 1" "capacity mm2 = capacity mm"
        using remove_entry_active [of "Suc (length xs)" mm1] num Cons Suc(3) by auto
      ultimately show ?thesis
        using Suc.IH [OF mm2(2)] Suc(3,4) Cons True at num by (auto simp: mm1_def)
    next
      case False
      then show ?thesis using Suc.IH [of mm "xs @ [e]" f zs] Suc(2,3,4) Cons at num by auto
    qed
  qed
qed

lemma merge_consecutive_regions_ok:
  assumes "memmap_ok mm"
  shows "\<exists>mm'. merge_consecutive_regions mm = Inr mm' \<and> active mm' = merged (active mm) \<and> memmap_ok mm' \<and>
     (\<forall>a. flags_of (active mm') a = flags_of (active mm) a) \<and> mm_num mm' \<le> mm_num mm \<and> capacity mm' = capacity mm"
proof (cases "active mm")
  case Nil
  then have "mm_num mm = 0" using assms by (auto simp: memmap_ok_def active_def capacity_def)
  then show ?thesis using Nil assms by (simp add: merge_consecutive_regions_def)
next
  case (Cons e ys)
  have "length ys \<le> mm_num mm"
    using arg_cong [OF Cons, of length] assms by (auto simp: active_def capacity_def memmap_ok_def)
  then show ?thesis
    using merge_loop_merged [of mm "[]" e ys "mm_num mm"] merged_ok [of "active mm"] Cons assms
    by (auto simp: merge_consecutive_regions_def memmap_ok_def)
qed

section \<open>Claiming\<close>

definition retyped :: "loader_memmap_entry list \<Rightarrow> loader_memmap_entry list \<Rightarrow> u64 \<Rightarrow> u64 \<Rightarrow> memmap_type \<Rightarrow> bool" where
  "retyped es es' start len t \<longleftrightarrow> entries_ok es' \<and>
     (\<forall>a. flags_of es' a = (if unat start \<le> a \<and> a < unat start + unat len then Some t else flags_of es a))"

lemma claim_loop_skip:
  assumes "active mm = xs @ zs" "mm_num mm \<le> capacity mm" "\<forall>e\<in>set xs. entry_ok e \<and> mend e \<le> unat start"
    and "len \<noteq> 0" "unat start + unat len < 2 ^ 64"
  shows "k \<le> length xs \<Longrightarrow> length xs - k \<le> fuel \<Longrightarrow>
    claim_loop fuel k start len (start + len) t mm = claim_loop (fuel - (length xs - k)) (length xs) start len (start + len) t mm"
proof (induction fuel arbitrary: k)
  case (Suc fuel)
  show ?case
  proof (cases "k = length xs")
    case False
    then have k: "k < length xs" using Suc by simp
    have num: "mm_num mm = length xs + length zs"
      using arg_cong [OF assms(1), of length] assms(2) by (simp add: active_def capacity_def)
    have e: "entry_at mm k = xs ! k" using k num assms(1) by (simp add: entry_at_active nth_append)
    have ok: "entry_ok (xs ! k)" "mend (xs ! k) \<le> unat start" using k assms(3) by simp_all
    have st: "unat (me_start (xs ! k)) < unat start" using ok entry_ok_nonempty [OF ok(1)] by simp
    have "unat (start + len) = unat start + unat len" using assms(5) by (simp add: unat_word_ariths)
    then have "\<not> start + len \<le> me_start (xs ! k)" using st by (simp add: word_le_nat_alt)
    moreover have "\<not> start < me_start (xs ! k)" "start \<noteq> me_start (xs ! k)" using st by (auto simp: word_less_nat_alt)
    moreover have "\<not> start < me_start (xs ! k) + me_size (xs ! k)"
      using ok entry_ok_end [OF ok(1)] by (simp add: word_less_nat_alt)
    ultimately have "claim_loop (Suc fuel) k start len (start + len) t mm = claim_loop fuel (Suc k) start len (start + len) t mm"
      using num k e assms(4) by (simp add: Let_def)
    also have "\<dots> = claim_loop (fuel - (length xs - Suc k)) (length xs) start len (start + len) t mm"
      using Suc k by simp
    finally show ?thesis using k Suc.prems by (simp add: Suc_diff_le Suc_diff_Suc)
  qed simp
qed simp

lemma claim_loop_done: "claim_loop (Suc fuel) i start 0 end_addr t mm = Inr (mm, start, 0)"
  by simp

text \<open>The pieces an entry is cut into.\<close>

definition left_part :: "loader_memmap_entry \<Rightarrow> u64 \<Rightarrow> loader_memmap_entry list" where
  "left_part e start = (if start = me_start e then [] else [e\<lparr>me_size := start - me_start e\<rparr>])"

definition right_part :: "loader_memmap_entry \<Rightarrow> u64 \<Rightarrow> loader_memmap_entry list" where
  "right_part e stop = (if stop = me_start e + me_size e then []
     else [e\<lparr>me_start := stop, me_size := me_start e + me_size e - stop\<rparr>])"

definition claimed_part :: "loader_memmap_entry \<Rightarrow> u64 \<Rightarrow> u64 \<Rightarrow> memmap_type \<Rightarrow> loader_memmap_entry" where
  "claimed_part e start len t = e\<lparr>me_start := start, me_size := len, me_flags := t\<rparr>"

definition cut :: "loader_memmap_entry \<Rightarrow> u64 \<Rightarrow> u64 \<Rightarrow> memmap_type \<Rightarrow> loader_memmap_entry list" where
  "cut e start len t = left_part e start @ claimed_part e start len t # right_part e (start + len)"

definition inside :: "u64 \<Rightarrow> u64 \<Rightarrow> loader_memmap_entry \<Rightarrow> bool" where
  "inside start len e \<longleftrightarrow> unat (me_start e) \<le> unat start \<and> unat start + unat len \<le> mend e"

lemma inside_words:
  assumes "entry_ok e" "inside start len e" "len \<noteq> 0"
  shows "unat (start + len) = unat start + unat len" "\<not> start + len \<le> me_start e" "\<not> start < me_start e"
    "start < me_start e + me_size e" "start + len \<le> me_start e + me_size e"
    "unat (start - me_start e) = unat start - unat (me_start e)"
    "unat (me_start e + me_size e - (start + len)) = mend e - (unat start + unat len)"
proof -
  have l: "0 < unat len" using assms(3) by (simp add: unat_gt_0)
  show sl: "unat (start + len) = unat start + unat len"
    using assms by (simp add: unat_word_ariths entry_ok_def inside_def)
  show "\<not> start + len \<le> me_start e" "\<not> start < me_start e"
    using assms(2) l sl by (auto simp: word_le_nat_alt word_less_nat_alt inside_def)
  then have "me_start e \<le> start" by simp
  then show "unat (start - me_start e) = unat start - unat (me_start e)" by (rule unat_sub)
  note en = entry_ok_end [OF assms(1)]
  show "start < me_start e + me_size e" using assms(2) l en by (simp add: word_less_nat_alt inside_def)
  show le: "start + len \<le> me_start e + me_size e" using assms(2) sl en by (simp add: word_le_nat_alt inside_def)
  show "unat (me_start e + me_size e - (start + len)) = mend e - (unat start + unat len)"
    using unat_sub [OF le] sl en by simp
qed

lemma pieces_retyped:
  assumes lp: "unat (me_start lp) = unat (me_start e)" "mend lp = unat start" "me_flags lp = me_flags e"
    and cp: "me_start cp = start" "mend cp = unat start + unat len" "me_flags cp = t" "me_size cp \<noteq> 0"
    and rp: "unat (me_start rp) = unat start + unat len" "mend rp = mend e" "me_flags rp = me_flags e"
    and b: "unat (me_start e) \<le> unat start" "unat start + unat len \<le> mend e" "mend e < 2 ^ 64"
    and PQ: "P \<longleftrightarrow> unat start = unat (me_start e)" "Q \<longleftrightarrow> unat start + unat len = mend e"
    and ne: "\<not> P \<Longrightarrow> me_size lp \<noteq> 0" "\<not> Q \<Longrightarrow> me_size rp \<noteq> 0"
  shows "retyped [e] ((if P then [] else [lp]) @ cp # (if Q then [] else [rp])) start len t"
proof -
  have h: "holds lp a \<longleftrightarrow> unat (me_start e) \<le> a \<and> a < unat start"
    "holds cp a \<longleftrightarrow> unat start \<le> a \<and> a < unat start + unat len"
    "holds rp a \<longleftrightarrow> unat start + unat len \<le> a \<and> a < mend e"
    "holds e a \<longleftrightarrow> unat (me_start e) \<le> a \<and> a < mend e" for a
    using lp cp rp by (simp_all add: holds_def)
  have "flags_of ((if P then [] else [lp]) @ cp # (if Q then [] else [rp])) a =
      (if unat start \<le> a \<and> a < unat start + unat len then Some t else flags_of [e] a)" for a
    using PQ b lp(3) cp(3) rp(3) by (cases P; cases Q) (simp_all add: h)
  then show ?thesis using lp cp rp b ne by (simp add: retyped_def entry_ok_def)
qed

lemma cut_retyped:
  assumes "entry_ok e" "inside start len e" "len \<noteq> 0"
  shows "retyped [e] (cut e start len t) start len t"
    "\<forall>f\<in>set (cut e start len t). unat (me_start e) \<le> unat (me_start f) \<and> mend f \<le> mend e"
proof -
  note w = inside_words [OF assms] and en = entry_ok_end [OF assms(1)]
  have L: "mend (e\<lparr>me_size := start - me_start e\<rparr>) = unat start" using w(6) assms(2) by (simp add: mend_def inside_def)
  have C: "mend (claimed_part e start len t) = unat start + unat len" by (simp add: mend_def claimed_part_def)
  have R: "mend (e\<lparr>me_start := start + len, me_size := me_start e + me_size e - (start + len)\<rparr>) = mend e"
    using w(1,7) assms(2) by (simp add: mend_def inside_def)
  have st: "me_start (claimed_part e start len t) = start" by (simp add: claimed_part_def)
  show "\<forall>f\<in>set (cut e start len t). unat (me_start e) \<le> unat (me_start f) \<and> mend f \<le> mend e"
    using assms(2) L C R st w(1) by (auto simp: cut_def left_part_def right_part_def inside_def)
  have "retyped [e] ((if start = me_start e then [] else [e\<lparr>me_size := start - me_start e\<rparr>]) @ claimed_part e start len t #
     (if start + len = me_start e + me_size e then []
      else [e\<lparr>me_start := start + len, me_size := me_start e + me_size e - (start + len)\<rparr>])) start len t"
  proof (rule pieces_retyped)
    show "(start = me_start e) = (unat start = unat (me_start e))" by (simp add: word_unat_eq_iff)
    show "(start + len = me_start e + me_size e) = (unat start + unat len = mend e)"
      unfolding w(1) [symmetric] en [symmetric] by (simp only: word_unat_eq_iff)
  qed (use L C R w(1) assms in \<open>simp_all add: claimed_part_def inside_def entry_ok_def\<close>)
  then show "retyped [e] (cut e start len t) start len t" by (simp add: cut_def left_part_def right_part_def)
qed

lemma active_length: "mm_num mm \<le> capacity mm \<Longrightarrow> length (active mm) = mm_num mm"
  by (simp add: active_def capacity_def)

lemma claim_step_inside:
  assumes act: "active mm = xs @ e # ys" and room: "Suc (mm_num mm) < capacity mm"
    and e: "entry_ok e" "inside start len e" "len \<noteq> 0"
  shows "\<exists>mm' s'. claim_loop (Suc (Suc fuel)) (length xs) start len (start + len) t mm = Inr (mm', s', 0) \<and>
     active mm' = xs @ cut e start len t @ ys \<and> mm_num mm' \<le> capacity mm \<and> capacity mm' = capacity mm"
proof -
  note w = inside_words [OF e]
  have num: "mm_num mm = Suc (length xs + length ys)" using active_length [of mm] act room by simp
  have at: "entry_at mm (length xs) = e" using num act by (simp add: entry_at_active nth_append)
  have sz: "me_start e + me_size e = start + len \<Longrightarrow> me_size e = len" if "start = me_start e" using that by simp
  have fits: "start + len = me_start e + me_size e \<longleftrightarrow> me_start e + me_size e \<le> start + len" using w(5) by auto
  consider (all) "start = me_start e" "me_size e \<le> len" | (front) "start = me_start e" "\<not> me_size e \<le> len"
    | (rear) "start \<noteq> me_start e" "me_start e + me_size e \<le> start + len"
    | (mid) "start \<noteq> me_start e" "\<not> me_start e + me_size e \<le> start + len" by blast
  then show ?thesis
  proof cases
    case all
    moreover have "len \<le> me_size e" using all(1) e(2) by (simp add: inside_def mend_def word_le_nat_alt)
    ultimately have "me_size e = len" by simp
    then show ?thesis
      using all act room num at e(3) w
      by (auto simp: Let_def cut_def left_part_def right_part_def claimed_part_def list_pick)
  next
    case front
    then obtain mm1 where mm1: "split_entry (length xs) len mm = Inr mm1"
       "active mm1 = xs @ e\<lparr>me_size := len\<rparr> # e\<lparr>me_start := me_start e + len, me_size := me_size e - len\<rparr> # ys"
       "mm_num mm1 = Suc (mm_num mm)" "capacity mm1 = capacity mm"
      using split_entry_active [OF act, of len] room not_le_imp_less [OF front(2)] by auto
    then show ?thesis
      using front act room num at e(3) w
      by (auto simp: Let_def cut_def left_part_def right_part_def claimed_part_def list_pick)
  next
    case rear
    have "start - me_start e < me_size e"
      using w(4,6) entry_ok_end [OF e(1)] e(2) by (auto simp: word_less_nat_alt mend_def inside_def)
    then obtain mm1 where mm1: "split_entry (length xs) (start - me_start e) mm = Inr mm1"
       "active mm1 = xs @ e\<lparr>me_size := start - me_start e\<rparr> # e\<lparr>me_start := start, me_size := me_size e - (start - me_start e)\<rparr> # ys"
       "mm_num mm1 = Suc (mm_num mm)" "capacity mm1 = capacity mm"
      using split_entry_active [OF act, of "start - me_start e"] room by auto
    have "me_start e + me_size e = start + len" using rear fits by simp
    then have "me_size e - (start - me_start e) = len" by (simp add: algebra_simps)
    moreover have "me_start e < start" using rear w(3) by simp
    ultimately show ?thesis
      using rear act room num at e(3) w mm1 fits
      by (auto simp: Let_def cut_def left_part_def right_part_def claimed_part_def list_pick entry_at_active)
  next
    case mid
    have se: "unat (start + len - me_start e) = unat start + unat len - unat (me_start e)"
      using unat_sub [of "me_start e" "start + len"] w(1,2) by simp
    have "start - me_start e < start + len - me_start e" "start + len - me_start e < me_size e"
      using w(6) se mid(2) e(2) entry_ok_end [OF e(1)] e(3) [folded unat_gt_0]
      by (auto simp: word_less_nat_alt word_le_nat_alt mend_def inside_def w(1))
    then obtain mm1 where mm1: "split_entry2 (length xs) (start - me_start e) (start + len - me_start e) mm = Inr mm1"
       "active mm1 = xs @ e\<lparr>me_size := start - me_start e\<rparr> #
         e\<lparr>me_start := start, me_size := start + len - me_start e - (start - me_start e)\<rparr> #
         e\<lparr>me_start := start + len, me_size := me_size e - (start + len - me_start e)\<rparr> # ys"
       "mm_num mm1 = mm_num mm + 2" "capacity mm1 = capacity mm"
      using split_entry2_active [OF act, of "start - me_start e" "start + len - me_start e"] room by auto
    have "start + len - me_start e - (start - me_start e) = len"
         "me_size e - (start + len - me_start e) = me_start e + me_size e - (start + len)" by (simp_all add: algebra_simps)
    moreover have "me_start e < start" using mid w(3) by simp
    ultimately show ?thesis
      using mid act room num at e(3) w mm1
      by (auto simp: Let_def cut_def left_part_def right_part_def claimed_part_def list_pick)
  qed
qed

lemma append_entry_active:
  assumes "mm_num mm < capacity mm"
  shows "\<exists>mm' z. append_entry mm = Inr mm' \<and> active mm' = active mm @ [z] \<and> mm_num mm' = Suc (mm_num mm) \<and> capacity mm' = capacity mm"
  using insert_entry_active [OF assms, of "mm_num mm"] active_length [of mm] assms by (auto simp: append_entry_def)

definition apart :: "u64 \<Rightarrow> u64 \<Rightarrow> loader_memmap_entry \<Rightarrow> bool" where
  "apart start len e \<longleftrightarrow> mend e \<le> unat start \<or> unat start + unat len \<le> unat (me_start e)"

lemma entries_split:
  assumes "entries_ok es"
  obtains xs zs where "es = xs @ zs" "\<forall>e\<in>set xs. mend e \<le> s" "\<forall>e\<in>set zs. s < mend e"
proof -
  have "\<exists>xs zs. es = xs @ zs \<and> (\<forall>e\<in>set xs. mend e \<le> s) \<and> (\<forall>e\<in>set zs. s < mend e)"
    using assms
  proof (induction es)
    case (Cons e es)
    then obtain xs zs where es: "es = xs @ zs" "\<forall>e\<in>set xs. mend e \<le> s" "\<forall>e\<in>set zs. s < mend e" by auto
    show ?case
    proof (cases "mend e \<le> s")
      case True
      then show ?thesis using es by (intro exI [of _ "e # xs"] exI [of _ zs]) auto
    next
      case False
      have "s < mend f" if f: "f \<in> set es" for f
        using Cons.prems f False entry_ok_nonempty [of f] by (fastforce simp: entries_ok_def list_all_iff)
      then show ?thesis using False by (intro exI [of _ "[]"] exI [of _ "e # es"]) auto
    qed
  qed simp
  then show ?thesis using that by blast
qed

lemma retyped_context:
  assumes ok: "entries_ok (xs @ mid @ ys)" and mid: "retyped mid mid' start len t"
    and xs: "\<forall>e\<in>set xs. mend e \<le> unat start" and ys: "\<forall>e\<in>set ys. unat start + unat len \<le> unat (me_start e)"
    and within: "\<forall>f\<in>set mid'. (\<forall>e\<in>set xs. mend e \<le> unat (me_start f)) \<and> (\<forall>e\<in>set ys. mend f \<le> unat (me_start e))"
  shows "retyped (xs @ mid @ ys) (xs @ mid' @ ys) start len t"
proof -
  have "flags_of xs a = None" if a: "unat start \<le> a" for a
    by (rule flags_of_None) (use xs a in \<open>fastforce simp: holds_def\<close>)
  moreover have "flags_of ys a = None" if a: "a < unat start + unat len" for a
    by (rule flags_of_None) (use ys a in \<open>fastforce simp: holds_def\<close>)
  ultimately have "flags_of (xs @ mid' @ ys) a =
      (if unat start \<le> a \<and> a < unat start + unat len then Some t else flags_of (xs @ mid @ ys) a)" for a
    using mid by (auto simp: retyped_def flags_of_append split: option.split)
  then show ?thesis using ok mid within unfolding retyped_def by auto
qed

lemma claim_loop_inside:
  assumes ok: "memmap_ok mm" and act: "active mm = xs @ e # ys" and room: "Suc (mm_num mm) < capacity mm"
    and xs: "\<forall>f\<in>set xs. mend f \<le> unat start" and e: "inside start len e" "len \<noteq> 0"
    and fuel: "length xs + 2 \<le> fuel"
  shows "\<exists>mm' s'. claim_loop fuel 0 start len (start + len) t mm = Inr (mm', s', 0) \<and> capacity mm' = capacity mm \<and>
     mm_num mm' \<le> capacity mm \<and> retyped (active mm) (active mm') start len t"
proof -
  have eok: "entry_ok e" and oks: "\<forall>f\<in>set xs. entry_ok f"
    using ok act by (auto simp: memmap_ok_def entries_ok_def list_all_iff)
  have lim: "unat start + unat len < 2 ^ 64" using eok e by (simp add: inside_def entry_ok_def)
  obtain mm' s' where mm': "claim_loop (Suc (Suc (fuel - length xs - 2))) (length xs) start len (start + len) t mm = Inr (mm', s', 0)"
      "active mm' = xs @ cut e start len t @ ys" "mm_num mm' \<le> capacity mm" "capacity mm' = capacity mm"
    using claim_step_inside [OF act room eok e] by blast
  have "Suc (Suc (fuel - length xs - 2)) = fuel - length xs" using fuel by simp
  then have "claim_loop fuel 0 start len (start + len) t mm = Inr (mm', s', 0)"
    using claim_loop_skip [OF act _ _ e(2) lim, of 0 fuel t] oks xs room fuel mm'(1) by simp
  moreover have "retyped (xs @ [e] @ ys) (xs @ cut e start len t @ ys) start len t"
  proof (rule retyped_context)
    show "entries_ok (xs @ [e] @ ys)" using ok act by (simp add: memmap_ok_def)
    then show "\<forall>f\<in>set (cut e start len t). (\<forall>e\<in>set xs. mend e \<le> unat (me_start f)) \<and> (\<forall>e\<in>set ys. mend f \<le> unat (me_start e))"
      using cut_retyped(2) [OF eok e, of t] by (auto intro: order_trans)
    show "\<forall>f\<in>set ys. unat start + unat len \<le> unat (me_start f)"
      using ok act e(1) by (auto simp: memmap_ok_def inside_def intro: order_trans)
  qed (use xs cut_retyped(1) [OF eok e] in auto)
  ultimately show ?thesis using mm' act by auto
qed

lemma retyped_new:
  assumes "me_start f = start" "me_size f = len" "me_flags f = t" "len \<noteq> 0" "unat start + unat len < 2 ^ 64"
  shows "retyped [] [f] start len t" "mend f = unat start + unat len"
  using assms by (auto simp: retyped_def holds_def mend_def entry_ok_def)

lemma retyped_gap:
  assumes ok: "entries_ok (xs @ ys)" and xs: "\<forall>e\<in>set xs. mend e \<le> unat start"
    and ys: "\<forall>e\<in>set ys. unat start + unat len \<le> unat (me_start e)"
    and f: "me_start f = start" "me_size f = len" "me_flags f = t" and len: "len \<noteq> 0" "unat start + unat len < 2 ^ 64"
  shows "retyped (xs @ ys) (xs @ f # ys) start len t"
proof -
  have "retyped (xs @ [] @ ys) (xs @ [f] @ ys) start len t"
    by (rule retyped_context) (use assms retyped_new [OF f len] in auto)
  then show ?thesis by simp
qed

lemma claim_loop_gap:
  assumes ok: "memmap_ok mm" and act: "active mm = xs @ ys" and room: "mm_num mm < capacity mm"
    and xs: "\<forall>f\<in>set xs. mend f \<le> unat start" and ys: "\<forall>f\<in>set ys. unat start + unat len \<le> unat (me_start f)"
    and len: "len \<noteq> 0" "unat start + unat len < 2 ^ 64" and fuel: "length xs + 2 \<le> fuel"
  shows "\<exists>mm' s' len'. claim_loop fuel 0 start len (start + len) t mm = Inr (mm', s', len') \<and> capacity mm' = capacity mm \<and>
     (if ys = [] then mm' = mm \<and> s' = start \<and> len' = len
      else len' = 0 \<and> mm_num mm' \<le> capacity mm \<and> retyped (active mm) (active mm') start len t)"
proof -
  have num: "mm_num mm = length xs + length ys" using active_length [of mm] act room by simp
  have oks: "\<forall>f\<in>set xs. entry_ok f" using ok act by (auto simp: memmap_ok_def entries_ok_def list_all_iff)
  define fl where "fl = fuel - length xs - 2"
  have "claim_loop fuel 0 start len (start + len) t mm = claim_loop (Suc (Suc fl)) (length xs) start len (start + len) t mm"
    using claim_loop_skip [OF act _ _ len, of 0 fuel t] oks xs room fuel by (simp add: fl_def Suc_diff_Suc numeral_2_eq_2)
  moreover have "\<exists>mm' s' len'. claim_loop (Suc (Suc fl)) (length xs) start len (start + len) t mm = Inr (mm', s', len') \<and> capacity mm' = capacity mm \<and>
     (if ys = [] then mm' = mm \<and> s' = start \<and> len' = len
      else len' = 0 \<and> mm_num mm' \<le> capacity mm \<and> retyped (active mm) (active mm') start len t)"
  proof (cases ys)
    case (Cons g zs)
    have "unat (start + len) = unat start + unat len" using len by (simp add: unat_word_ariths)
    then have "start + len \<le> me_start g" using ys Cons by (simp add: word_le_nat_alt)
    moreover have "entry_at mm (length xs) = g" using num Cons act by (simp add: entry_at_active)
    moreover obtain mm1 z where mm1: "insert_entry (length xs) mm = Inr mm1" "active mm1 = xs @ z # ys"
       "mm_num mm1 = Suc (mm_num mm)" "capacity mm1 = capacity mm"
      using insert_entry_active [OF room, of "length xs"] num act by auto
    moreover have "retyped (xs @ ys) (xs @ z\<lparr>me_start := start, me_size := len, me_flags := t\<rparr> # ys) start len t"
      by (rule retyped_gap) (use ok act xs ys len in \<open>auto simp: memmap_ok_def\<close>)
    ultimately show ?thesis using Cons len num room act by (auto simp: list_pick Let_def)
  qed (use num in auto)
  ultimately show ?thesis by simp
qed

lemma claim_memmap_region_retypes:
  assumes ok: "memmap_ok mm" and room: "Suc (mm_num mm) < capacity mm"
    and len: "len \<noteq> 0" "unat start + unat len < 2 ^ 64"
    and sep: "\<forall>e\<in>set (active mm). inside start len e \<or> apart start len e"
  shows "\<exists>mm'. claim_memmap_region start len t mm = Inr mm' \<and> memmap_ok mm' \<and> capacity mm' = capacity mm \<and>
     (\<forall>a. flags_of (active mm') a =
        (if unat start \<le> a \<and> a < unat start + unat len then Some t else flags_of (active mm) a))"
proof -
  have finish: ?thesis
    if loop: "claim_loop (Suc (2 * capacity mm)) 0 start len (start + len) t mm = Inr (mm1, s1, l1)"
      and app: "(if l1 \<noteq> 0 then ebind (append_entry mm1) (\<lambda>mm.
          Inr (upd_entry (mm_num mm - 1) (\<lambda>e. e\<lparr>me_start := s1, me_size := l1, me_flags := t\<rparr>) mm)) else Inr mm1) = Inr mm2"
      and mm2: "mm_num mm2 \<le> capacity mm" "capacity mm2 = capacity mm" "retyped (active mm) (active mm2) start len t"
    for mm1 s1 l1 mm2
    using merge_consecutive_regions_ok [of mm2] loop app mm2
    by (auto simp: claim_memmap_region_def capacity_def memmap_ok_def retyped_def)
  obtain xs zs where es: "active mm = xs @ zs" "\<forall>e\<in>set xs. mend e \<le> unat start" "\<forall>e\<in>set zs. unat start < mend e"
    using entries_split [of "active mm" "unat start"] ok by (auto simp: memmap_ok_def)
  have num: "mm_num mm = length xs + length zs" using active_length [of mm] es room by simp
  have fuel: "length xs + 2 \<le> Suc (2 * capacity mm)" using num room by simp
  show ?thesis
  proof (cases "zs \<noteq> [] \<and> inside start len (hd zs)")
    case True
    then have act: "active mm = xs @ hd zs # tl zs" using es by simp
    show ?thesis using claim_loop_inside [OF ok act room es(2) _ len(1) fuel] True finish by fastforce
  next
    case False
    have after: "\<forall>f\<in>set zs. unat start + unat len \<le> unat (me_start f)"
    proof (cases zs)
      case (Cons g gs)
      have "unat start + unat len \<le> unat (me_start g)" using Cons False sep es by (auto simp: apart_def)
      moreover have "entry_ok g" "\<forall>f\<in>set gs. mend g \<le> unat (me_start f)" using ok es(1) Cons by (simp_all add: memmap_ok_def)
      ultimately show ?thesis using Cons entry_ok_nonempty [of g] by fastforce
    qed simp
    obtain mm1 s1 l1 where loop: "claim_loop (Suc (2 * capacity mm)) 0 start len (start + len) t mm = Inr (mm1, s1, l1)"
      "capacity mm1 = capacity mm" "if zs = [] then mm1 = mm \<and> s1 = start \<and> l1 = len
      else l1 = 0 \<and> mm_num mm1 \<le> capacity mm \<and> retyped (active mm) (active mm1) start len t"
      using claim_loop_gap [OF ok es(1) _ es(2) after len fuel] room by fastforce
    show ?thesis
    proof (cases "zs = []")
      case True
      obtain mm2 z where mm2: "append_entry mm = Inr mm2" "active mm2 = active mm @ [z]" "mm_num mm2 = Suc (mm_num mm)" "capacity mm2 = capacity mm"
        using append_entry_active [of mm] room by auto
      define mm3 where "mm3 = upd_entry (mm_num mm) (\<lambda>e. e\<lparr>me_start := start, me_size := len, me_flags := t\<rparr>) mm2"
      have "active mm3 = xs @ [z\<lparr>me_start := start, me_size := len, me_flags := t\<rparr>]"
        using True es num mm2 by (simp add: mm3_def list_pick)
      moreover have "retyped (xs @ []) (xs @ z\<lparr>me_start := start, me_size := len, me_flags := t\<rparr> # []) start len t"
        by (rule retyped_gap) (use ok es True len in \<open>auto simp: memmap_ok_def\<close>)
      ultimately show ?thesis
        using finish [of mm start len mm3] loop True len mm2 room es by (simp add: mm3_def)
    qed (use finish loop in auto)
  qed
qed

section \<open>A claim that starts in a gap and runs into an entry\<close>

lemma claim_loop_overlap:
  assumes "active mm = xs @ e # ys" "entry_ok e" "len \<noteq> 0" "start < me_start e" "\<not> start + len \<le> me_start e"
    and "mm_num mm \<le> capacity mm" "capacity mm - mm_num mm < fuel"
  shows "claim_loop fuel (length xs) start len (start + len) t mm = Inl Panic"
  using assms
proof (induction fuel arbitrary: mm xs)
  case (Suc fuel)
  have num: "mm_num mm = Suc (length xs + length ys)" using active_length [of mm] Suc by simp
  have at: "entry_at mm (length xs) = e" using num Suc(2) by (simp add: entry_at_active)
  show ?case
  proof (cases "mm_num mm < capacity mm")
    case True
    obtain mm1 z where mm1: "insert_entry (length xs) mm = Inr mm1" "active mm1 = xs @ z # e # ys"
       "mm_num mm1 = Suc (mm_num mm)" "capacity mm1 = capacity mm"
      using insert_entry_active [OF True, of "length xs"] num Suc(2) by auto
    define mm2 where "mm2 = upd_entry (length xs) (\<lambda>e. e\<lparr>me_size := me_start e - start, me_flags := t\<rparr>)
        (upd_entry (length xs) (\<lambda>e. e\<lparr>me_start := start\<rparr>) mm1)"
    have mm2: "active mm2 = xs @ z\<lparr>me_start := start, me_size := 0, me_flags := t\<rparr> # e # ys"
      "mm_num mm2 = Suc (mm_num mm)" "capacity mm2 = capacity mm"
      using mm1 num by (simp_all add: mm2_def list_pick)
    then have "me_size (entry_at mm2 (length xs)) = 0" using num by (simp add: entry_at_active)
    then have "claim_loop (Suc fuel) (length xs) start len (start + len) t mm = claim_loop fuel (Suc (length xs)) start len (start + len) t mm2"
      using Suc(4,5,6) num at mm1(1) by (simp add: Let_def mm2_def)
    also have "\<dots> = Inl Panic"
      using Suc.IH [of mm2 "xs @ [z\<lparr>me_start := start, me_size := 0, me_flags := t\<rparr>]"] mm2 Suc.prems True by simp
    finally show ?thesis .
  next
    case False
    then show ?thesis using Suc(4,5,6) num at insert_entry_full [of mm "length xs"] by (simp add: Let_def)
  qed
qed simp

lemma claim_memmap_region_overlap:
  assumes ok: "memmap_ok mm" and act: "active mm = xs @ e # ys" and len: "unat start + unat len < 2 ^ 64"
    and xs: "\<forall>f\<in>set xs. mend f \<le> unat start"
    and gap: "unat start < unat (me_start e)" "unat (me_start e) < unat start + unat len"
  shows "claim_memmap_region start len t mm = Inl Panic"
proof -
  have oks: "\<forall>f\<in>set xs. entry_ok f" and eok: "entry_ok e" and cap: "mm_num mm \<le> capacity mm"
    using ok act by (auto simp: memmap_ok_def entries_ok_def list_all_iff)
  have num: "mm_num mm = Suc (length xs + length ys)" using active_length [OF cap] act by simp
  have l: "len \<noteq> 0" using gap by (auto simp: unat_eq_0)
  have "unat (start + len) = unat start + unat len" using len by (simp add: unat_word_ariths)
  then have "start < me_start e" "\<not> start + len \<le> me_start e" using gap by (simp_all add: word_less_nat_alt word_le_nat_alt)
  then have "claim_loop (Suc (2 * capacity mm) - length xs) (length xs) start len (start + len) t mm = Inl Panic"
    using claim_loop_overlap [OF act eok l] cap num by simp
  then show ?thesis
    using claim_loop_skip [OF act cap _ l len, of 0 "Suc (2 * capacity mm)" t] oks xs num cap
    by (simp add: claim_memmap_region_def capacity_def)
qed

section \<open>Finding free memory\<close>

lemma align_down_exp: "k < 64 \<Longrightarrow> unat (align_down s (2 ^ k)) = unat s div 2 ^ k * 2 ^ k"
proof -
  assume k: "k < 64"
  have "align_down s (2 ^ k) = push_bit k (drop_bit k s)"
    unfolding align_down_def mask_eq_exp_minus_1 [symmetric] by (rule bit_word_eqI) (auto simp: bit_simps)
  then have "unat (align_down s (2 ^ k)) = (unat s div 2 ^ k * 2 ^ k) mod 2 ^ 64"
    using k by (simp add: unsigned_push_bit_eq unsigned_drop_bit_eq take_bit_eq_mod push_bit_eq_mult
        drop_bit_eq_div unat_word_ariths unat_div unat_2_power mod_mult_left_eq)
  moreover have "unat s div 2 ^ k * 2 ^ k < 2 ^ 64"
    by (rule le_less_trans [OF div_times_less_eq_dividend]) (use unsigned_less [of s, where ?'a = nat] in simp)
  ultimately show ?thesis by (simp only: mod_less)
qed

lemma unat_exp_pred: "k < 64 \<Longrightarrow> unat ((2 ^ k :: u64) - 1) = 2 ^ k - 1"
  by (simp add: unat_minus_one unat_2_power)

lemma align_up_exp:
  assumes "k < 64" "unat s + 2 ^ k \<le> 2 ^ 64"
  shows "unat s \<le> unat (align_up s (2 ^ k))" "2 ^ k dvd unat (align_up s (2 ^ k))" "unat (align_up s (2 ^ k)) < unat s + 2 ^ k"
proof -
  have "unat (s + ((2 ^ k) - 1)) = unat s + (2 ^ k - 1)"
    using assms unat_exp_pred [OF assms(1)] by (simp add: unat_word_ariths)
  then have eq: "unat (align_up s (2 ^ k)) = (unat s + (2 ^ k - 1)) div 2 ^ k * 2 ^ k"
    using align_down_exp [OF assms(1), of "s + (2 ^ k - 1)"] by (simp add: align_up_def align_down_def)
  then show "2 ^ k dvd unat (align_up s (2 ^ k))" by simp
  have "(unat s + (2 ^ k - 1)) mod 2 ^ k < (2 ^ k :: nat)" by simp
  then show "unat s \<le> unat (align_up s (2 ^ k))" unfolding eq minus_mod_eq_div_mult [symmetric] by linarith
  have "(unat s + (2 ^ k - 1)) div 2 ^ k * 2 ^ k \<le> unat s + (2 ^ k - 1)" by (rule div_times_less_eq_dividend)
  moreover have "(1 :: nat) \<le> 2 ^ k" by simp
  ultimately show "unat (align_up s (2 ^ k)) < unat s + 2 ^ k" unfolding eq by linarith
qed

definition aligned_start :: "loader_memmap_entry \<Rightarrow> u64 \<Rightarrow> u64" where
  "aligned_start e align = (if align \<noteq> 0 then align_up (me_start e) align else me_start e)"

definition aligned_to :: "u64 \<Rightarrow> u64 \<Rightarrow> bool" where
  "aligned_to align a \<longleftrightarrow> align \<noteq> 0 \<longrightarrow> unat align dvd unat a"

lemma popcount64_le_1: "popcount64 align \<le> 1 \<Longrightarrow> align \<noteq> 0 \<Longrightarrow> \<exists>k<64. align = 2 ^ k"
proof -
  assume p: "popcount64 align \<le> 1" "align \<noteq> 0"
  obtain i where "bit align i" using p(2) bit_eq_iff [of align 0] by auto
  then have "i \<in> {i. i < 64 \<and> bit align i}" using bit_imp_le_length by fastforce
  then have "popcount64 align \<noteq> 0" by (auto simp: popcount64_card card_eq_0_iff)
  then have "popcount64 align = 1" using p(1) by linarith
  then show ?thesis using popcount64_eq_1_iff by blast
qed

lemma aligned_start_ge:
  assumes "popcount64 align \<le> 1" "unat (me_start e) + unat align \<le> 2 ^ 64"
  shows "unat (me_start e) \<le> unat (aligned_start e align)" "aligned_to align (aligned_start e align)"
proof -
  have "unat (me_start e) \<le> unat (aligned_start e align) \<and> aligned_to align (aligned_start e align)"
  proof (cases "align = 0")
    case False
    then obtain k where k: "k < 64" "align = 2 ^ k" using popcount64_le_1 assms by blast
    then show ?thesis
      using align_up_exp [of k "me_start e"] assms(2) by (simp add: aligned_start_def aligned_to_def unat_2_power)
  qed (simp add: aligned_start_def aligned_to_def)
  then show "unat (me_start e) \<le> unat (aligned_start e align)" "aligned_to align (aligned_start e align)" by simp_all
qed

lemma aligned_start_least:
  assumes "popcount64 align \<le> 1" "unat (me_start e) + unat align \<le> 2 ^ 64" "aligned_to align a" "unat (me_start e) \<le> unat a"
  shows "unat (aligned_start e align) \<le> unat a"
proof (cases "align = 0")
  case False
  then obtain k where k: "k < 64" "align = 2 ^ k" using popcount64_le_1 assms by blast
  have u: "unat align = 2 ^ k" using k by (simp add: unat_2_power)
  let ?b = "unat (aligned_start e align)"
  have b: "2 ^ k dvd ?b" "?b < unat (me_start e) + 2 ^ k"
    using align_up_exp [of k "me_start e"] assms(2) k False u by (simp_all add: aligned_start_def)
  obtain x y where xy: "unat a = 2 ^ k * x" "?b = 2 ^ k * y" using assms(3) False u b(1) by (auto simp: aligned_to_def elim!: dvdE)
  show ?thesis
  proof (rule ccontr)
    assume "\<not> ?b \<le> unat a"
    then have "x < y" using xy by simp
    then have "2 ^ k * Suc x \<le> 2 ^ k * y" by (intro mult_le_mono2) simp
    then have "unat a + 2 ^ k \<le> ?b" using xy by simp
    then show False using b(2) assms(4) by simp
  qed
qed (use assms in \<open>simp add: aligned_start_def\<close>)

text \<open>An entry has room for a request: it is usable, its tags match, and some aligned range of the length lies in it.\<close>

definition has_room :: "loader_memmap_entry \<Rightarrow> u64 \<Rightarrow> u64 \<Rightarrow> u32 \<Rightarrow> memmap_match \<Rightarrow> bool" where
  "has_room e len align msk m \<longleftrightarrow>
     me_flags e = MEMMAP_USABLE \<and> region_matched (me_tags e) msk m \<and> (\<exists>a. aligned_to align a \<and> inside a len e)"

lemma entry_fits_inside:
  assumes "entry_fits e len align msk m" "entry_ok e" "popcount64 align \<le> 1" "unat (me_start e) + unat align \<le> 2 ^ 64"
  shows "inside (aligned_start e align) len e" "me_flags e = MEMMAP_USABLE" "region_matched (me_tags e) msk m"
proof -
  let ?a = "aligned_start e align"
  have f: "?a < me_start e + me_size e" "len \<le> me_start e + me_size e - ?a"
    using assms(1) by (simp_all add: entry_fits_def aligned_start_def Let_def split: if_splits)
  have "unat ?a + unat len \<le> mend e"
    using f unat_sub [of ?a "me_start e + me_size e"] entry_ok_end [OF assms(2)]
    by (simp add: word_le_nat_alt word_less_nat_alt)
  then show "inside ?a len e" using aligned_start_ge [OF assms(3,4)] by (simp add: inside_def)
qed (use assms(1) in \<open>simp_all add: entry_fits_def\<close>)

lemma entry_fits_room:
  assumes "entry_ok e" "popcount64 align \<le> 1" "unat (me_start e) + unat align \<le> 2 ^ 64" "len \<noteq> 0"
  shows "entry_fits e len align msk m \<longleftrightarrow> has_room e len align msk m"
proof
  assume "entry_fits e len align msk m"
  then show "has_room e len align msk m"
    using entry_fits_inside [OF _ assms(1-3)] aligned_start_ge(2) [OF assms(2,3)] unfolding has_room_def by blast
next
  assume "has_room e len align msk m"
  then obtain a where a: "me_flags e = MEMMAP_USABLE" "region_matched (me_tags e) msk m" "aligned_to align a" "inside a len e"
    by (auto simp: has_room_def)
  let ?a = "aligned_start e align" and ?e = "me_start e + me_size e"
  have le: "unat ?a \<le> unat a" using aligned_start_least [OF assms(2,3) a(3)] a(4) by (simp add: inside_def)
  have e: "unat ?e = mend e" using entry_ok_end [OF assms(1)] .
  have fit: "unat ?a + unat len \<le> mend e" using le a(4) by (simp add: inside_def)
  have "0 < unat len" using assms(4) by (simp add: unat_gt_0)
  then have lt: "?a < ?e" using fit e by (simp add: word_less_nat_alt)
  then have "len \<le> ?e - ?a" using fit e unat_sub [of ?a ?e] by (simp add: word_le_nat_alt)
  moreover have "unat len \<le> unat (me_size e)"
    using fit aligned_start_ge(1) [OF assms(2,3)] by (simp add: mend_def)
  then have "len \<le> me_size e" by (simp add: word_le_nat_alt)
  ultimately show "entry_fits e len align msk m"
    using a(1,2) lt by (simp add: entry_fits_def aligned_start_def Let_def)
qed

lemma find_free_loop_first:
  "find_free_loop is len align msk m mm =
    (case List.find (\<lambda>i. entry_fits (entry_at mm i) len align msk m) is of
      None \<Rightarrow> Inr (mm, 0)
    | Some i \<Rightarrow> let paddr = aligned_start (entry_at mm i) align in
        ebind (claim_memmap_region paddr len MEMMAP_USED mm) (\<lambda>mm. Inr (mm, paddr)))"
  by (induction "is") (simp_all add: aligned_start_def Let_def)

lemma entries_apart:
  assumes "entries_ok es" "e \<in> set es" "f \<in> set es" "inside start len e" "len \<noteq> 0"
  shows "inside start len f \<or> apart start len f"
proof -
  obtain xs ys where es: "es = xs @ e # ys" using assms(2) by (auto dest: split_list)
  consider "f \<in> set xs" | "f = e" | "f \<in> set ys" using assms(3) es by auto
  then show ?thesis
    using assms(1,4) es by cases (fastforce simp: inside_def apart_def)+
qed

lemma find_split: "List.find Q xs = Some x \<Longrightarrow> \<exists>us vs. xs = us @ x # vs \<and> Q x \<and> (\<forall>u\<in>set us. \<not> Q u)"
proof (induction xs)
  case (Cons y ys)
  show ?case
  proof (cases "Q y")
    case True
    then show ?thesis using Cons.prems by - (rule exI [of _ "[]"], rule exI [of _ ys], simp)
  next
    case False
    then obtain us vs where "ys = us @ x # vs" "Q x" "\<forall>u\<in>set us. \<not> Q u" using Cons by auto
    then show ?thesis using False by - (rule exI [of _ "y # us"], rule exI [of _ vs], simp)
  qed
qed simp

lemma active_entries: "mm_num mm \<le> capacity mm \<Longrightarrow> active mm = map (entry_at mm) [0..<mm_num mm]"
  using active_length by (intro nth_equalityI) (simp_all add: entry_at_active)

lemma find_free_memmap_region_spec:
  assumes ok: "memmap_ok mm" and room: "Suc (mm_num mm) < capacity mm" and len: "len \<noteq> 0"
    and al: "popcount64 align \<le> 1" "\<forall>e\<in>set (active mm). unat (me_start e) + unat align \<le> 2 ^ 64"
  shows "if \<exists>e\<in>set (active mm). has_room e len align msk m
     then \<exists>mm' paddr xs e ys. find_free_memmap_region len align msk m mm = Inr (mm', paddr) \<and> memmap_ok mm' \<and> capacity mm' = capacity mm \<and>
       active mm = xs @ e # ys \<and> (\<forall>f\<in>set xs. \<not> has_room f len align msk m) \<and> has_room e len align msk m \<and>
       aligned_to align paddr \<and> inside paddr len e \<and> (\<forall>a. aligned_to align a \<and> inside a len e \<longrightarrow> unat paddr \<le> unat a) \<and>
       (\<forall>a. flags_of (active mm') a =
          (if unat paddr \<le> a \<and> a < unat paddr + unat len then Some MEMMAP_USED else flags_of (active mm) a))
     else find_free_memmap_region len align msk m mm = Inr (mm, 0)"
proof -
  let ?P = "\<lambda>i. entry_fits (entry_at mm i) len align msk m"
  have act: "active mm = map (entry_at mm) [0..<mm_num mm]" using active_entries ok by (simp add: memmap_ok_def)
  have eok: "entry_ok e" if "e \<in> set (active mm)" for e using that ok by (auto simp: memmap_ok_def entries_ok_def list_all_iff)
  have fit: "entry_fits e len align msk m \<longleftrightarrow> has_room e len align msk m" if "e \<in> set (active mm)" for e
    using entry_fits_room [OF eok [OF that] al(1) _ len] al(2) that by blast
  have ff: "find_free_memmap_region len align msk m mm = find_free_loop [0..<mm_num mm] len align msk m mm"
    using al by (simp add: find_free_memmap_region_def panic_if_def)
  show ?thesis
  proof (cases "List.find ?P [0..<mm_num mm]")
    case None
    then have "\<not> (\<exists>e\<in>set (active mm). entry_fits e len align msk m)" using act by (auto simp: find_None_iff)
    then have "\<not> (\<exists>e\<in>set (active mm). has_room e len align msk m)" using fit by blast
    then show ?thesis using None by (subst if_not_P) (simp_all add: ff find_free_loop_first)
  next
    case (Some i)
    obtain us vs where sp: "[0..<mm_num mm] = us @ i # vs" "?P i" "\<forall>u\<in>set us. \<not> ?P u" using find_split [OF Some] by blast
    define e where "e = entry_at mm i"
    have split: "active mm = map (entry_at mm) us @ e # map (entry_at mm) vs" using act sp(1) by (simp add: e_def)
    then have e: "e \<in> set (active mm)" and sub: "set (map (entry_at mm) us) \<subseteq> set (active mm)" by auto
    have here: "has_room e len align msk m" using sp(2) fit [OF e] by (simp add: e_def)
    have before: "\<forall>f\<in>set (map (entry_at mm) us). \<not> has_room f len align msk m" using sp(3) fit sub by fastforce
    have lim0: "unat (me_start e) + unat align \<le> 2 ^ 64" using al(2) e by blast
    have ins: "inside (aligned_start e align) len e"
      using entry_fits_inside(1) [OF _ eok [OF e] al(1) lim0] sp(2) by (simp add: e_def)
    have lim: "unat (aligned_start e align) + unat len < 2 ^ 64" using ins eok [OF e] by (simp add: inside_def entry_ok_def)
    have "\<forall>f\<in>set (active mm). inside (aligned_start e align) len f \<or> apart (aligned_start e align) len f"
      using entries_apart [OF _ e _ ins len] ok by (auto simp: memmap_ok_def)
    from claim_memmap_region_retypes [OF ok room len lim this, of MEMMAP_USED]
    obtain mm' where mm': "claim_memmap_region (aligned_start e align) len MEMMAP_USED mm = Inr mm'" "memmap_ok mm'" "capacity mm' = capacity mm"
      "\<forall>a. flags_of (active mm') a = (if unat (aligned_start e align) \<le> a \<and> a < unat (aligned_start e align) + unat len
         then Some MEMMAP_USED else flags_of (active mm) a)" by blast
    have call: "find_free_memmap_region len align msk m mm = Inr (mm', aligned_start e align)"
      using Some mm'(1) by (simp add: ff find_free_loop_first e_def)
    have least: "\<forall>a. aligned_to align a \<and> inside a len e \<longrightarrow> unat (aligned_start e align) \<le> unat a"
      using aligned_start_least [OF al(1) lim0] by (simp add: inside_def)
    have some: "\<exists>e\<in>set (active mm). has_room e len align msk m" using e here by blast
    show ?thesis unfolding if_P [OF some]
      using call mm' split before here ins least aligned_start_ge(2) [OF al(1) lim0] by blast
  qed
qed

section \<open>Tagging\<close>

definition untouched :: "u64 \<Rightarrow> u64 \<Rightarrow> loader_memmap_entry \<Rightarrow> bool" where
  "untouched start len e \<longleftrightarrow>
     apart start len e \<or> unat (me_start e) < unat start \<and> unat start + unat len = mend e"

lemma tag_loop_skip:
  assumes act: "active mm = xs @ zs" and cap: "mm_num mm \<le> capacity mm"
    and xs: "\<forall>e\<in>set xs. entry_ok e \<and> untouched start len e"
    and len: "len \<noteq> 0" "unat start + unat len < 2 ^ 64"
  shows "k \<le> length xs \<Longrightarrow> length xs - k \<le> fuel \<Longrightarrow>
    tag_loop fuel k start len (start + len) msk tg mm = tag_loop (fuel - (length xs - k)) (length xs) start len (start + len) msk tg mm"
proof (induction fuel arbitrary: k)
  case (Suc fuel)
  show ?case
  proof (cases "k = length xs")
    case False
    then have k: "k < length xs" using Suc by simp
    have num: "mm_num mm = length xs + length zs" using active_length [OF cap] act by simp
    have e: "entry_at mm k = xs ! k" using k num act by (simp add: entry_at_active nth_append)
    have ok: "entry_ok (xs ! k)" "untouched start len (xs ! k)" using k xs by simp_all
    have "unat (start + len) = unat start + unat len" using len by (simp add: unat_word_ariths)
    moreover note entry_ok_nonempty [OF ok(1)] entry_ok_end [OF ok(1)] len(1) [folded unat_gt_0]
    ultimately have "tag_loop (Suc fuel) k start len (start + len) msk tg mm = tag_loop fuel (Suc k) start len (start + len) msk tg mm"
      using num k e ok(2) len(1) by (auto simp: Let_def untouched_def apart_def word_less_nat_alt word_le_nat_alt)
    also have "\<dots> = tag_loop (fuel - (length xs - Suc k)) (length xs) start len (start + len) msk tg mm"
      using Suc k by simp
    finally show ?thesis using k Suc.prems by (simp add: Suc_diff_le Suc_diff_Suc)
  qed simp
qed simp

lemma split_entry_beyond:
  assumes "i < mm_num mm" "mm_num mm \<le> capacity mm" "me_size (entry_at mm i) \<le> offset"
  shows "split_entry i offset mm = Inl Panic"
  using assms by (simp add: split_entry_def Let_def panic_if_def)

lemma tag_region_prefix:
  assumes ok: "memmap_ok mm" and act: "active mm = xs @ e # ys"
    and xs: "\<forall>f\<in>set xs. mend f \<le> unat start" and len: "unat start + unat len < 2 ^ 64"
    and e: "unat start < unat (me_start e)" "unat (me_start e) < unat start + unat len" "unat start + unat len < mend e"
  shows "do_tag_memmap_region start len msk tg mm = Inl Panic"
proof -
  have cap: "mm_num mm \<le> capacity mm" and oks: "\<forall>f\<in>set xs. entry_ok f \<and> untouched start len f" and eok: "entry_ok e"
    using ok act xs by (auto simp: memmap_ok_def entries_ok_def list_all_iff untouched_def apart_def)
  have num: "mm_num mm = Suc (length xs + length ys)" using active_length [OF cap] act by simp
  have at: "entry_at mm (length xs) = e" using num act by (simp add: entry_at_active)
  have l: "len \<noteq> 0" using e by (auto simp: unat_eq_0)
  have sl: "unat (start + len) = unat start + unat len" using len by (simp add: unat_word_ariths)
  have "unat (me_start e - start) = unat (me_start e) - unat start" using e unat_sub [of start "me_start e"] by (simp add: word_le_nat_alt)
  then have "unat (me_size e) \<le> unat (start - me_start e)"
    using unat_sub_if' [of start "me_start e"] e eok by (auto simp: word_le_nat_alt entry_ok_def mend_def)
  then have "split_entry (length xs) (start - me_start e) mm = Inl Panic"
    using split_entry_beyond [of "length xs" mm] num cap at by (simp add: word_le_nat_alt)
  moreover obtain fl where fl: "Suc (2 * capacity mm) - length xs = Suc fl" using num cap by (metis Suc_diff_le Suc_leD add.commute add_leD1 le_add1 le_trans mult_2)
  ultimately have "tag_loop (Suc fl) (length xs) start len (start + len) msk tg mm = Inl Panic"
    using at num l e sl entry_ok_end [OF eok] by (auto simp: Let_def word_less_nat_alt word_le_nat_alt)
  then show ?thesis
    using tag_loop_skip [OF act cap oks l len, of 0 "Suc (2 * capacity mm)" msk tg] num cap fl
    by (simp add: do_tag_memmap_region_def capacity_def)
qed

lemma tag_region_suffix:
  assumes ok: "memmap_ok mm" and act: "active mm = xs @ e # ys" and len: "len \<noteq> 0"
    and e: "unat (me_start e) < unat start" "unat start + unat len = mend e"
  shows "do_tag_memmap_region start len msk tg mm = Inr mm"
proof -
  have cap: "mm_num mm \<le> capacity mm" and eok: "entry_ok e"
    using ok act by (auto simp: memmap_ok_def entries_ok_def list_all_iff)
  have lim: "unat start + unat len < 2 ^ 64" using e eok by (simp add: entry_ok_def)
  have all: "\<forall>f\<in>set (active mm). entry_ok f \<and> untouched start len f"
    using ok act e unfolding memmap_ok_def untouched_def apart_def by (fastforce simp: entries_ok_def list_all_iff sorted_wrt_append)
  have num: "length (active mm) = mm_num mm" using active_length [OF cap] .
  obtain fl where fl: "Suc (2 * capacity mm) - mm_num mm = Suc fl" using cap by (metis Suc_diff_le le_trans le_add1 mult_2)
  show ?thesis
    using tag_loop_skip [OF _ cap all len lim, of "[]" 0 "Suc (2 * capacity mm)" msk tg] num cap fl
    by (simp add: do_tag_memmap_region_def capacity_def)
qed

section \<open>Properties\<close>

text \<open>A map of two entries, with a hole between them, used to instantiate the properties.\<close>

definition demo_memmap :: loader_memmap where
  "demo_memmap = \<lparr>mm_slots =
     [\<lparr>me_start = 0x1000, me_size = 0x8000, me_flags = MEMMAP_USABLE, me_tags = 1\<rparr>,
      \<lparr>me_start = 0xa000, me_size = 0x2000, me_flags = MEMMAP_USED, me_tags = 0\<rparr>] @ replicate 6 zero_entry, mm_num = 2\<rparr>"

lemma demo_memmap_active: "active demo_memmap =
     [\<lparr>me_start = 0x1000, me_size = 0x8000, me_flags = MEMMAP_USABLE, me_tags = 1\<rparr>,
      \<lparr>me_start = 0xa000, me_size = 0x2000, me_flags = MEMMAP_USED, me_tags = 0\<rparr>]"
  "capacity demo_memmap = 8" "mm_num demo_memmap = 2"
  by (simp_all add: active_def capacity_def demo_memmap_def)

lemma demo_memmap_ok: "memmap_ok demo_memmap"
  by (simp add: memmap_ok_def demo_memmap_active entries_ok_def entry_ok_def mend_def)

text \<open>
  C19: Claiming a range that lies inside one entry of the map, or in a gap between entries, succeeds as
  long as two slots are free: the map stays well formed, every address of the range gets the claimed
  type, and no other address changes its type, whatever splits and merges this needs.
\<close>

theorem claim_memmap_region_correct:
  assumes "memmap_ok mm" "Suc (mm_num mm) < capacity mm" "len \<noteq> 0" "unat start + unat len < 2 ^ 64"
    and "\<forall>e\<in>set (active mm). inside start len e \<or> apart start len e"
  shows "\<exists>mm'. claim_memmap_region start len t mm = Inr mm' \<and> memmap_ok mm' \<and> capacity mm' = capacity mm \<and>
     (\<forall>a. flags_of (active mm') a =
        (if unat start \<le> a \<and> a < unat start + unat len then Some t else flags_of (active mm) a))"
  using assms by (rule claim_memmap_region_retypes)

theorem claim_memmap_region_correct_witness:
  "\<exists>mm'. claim_memmap_region 0x3000 0x1000 MEMMAP_USED demo_memmap = Inr mm' \<and> memmap_ok mm' \<and>
     flags_of (active mm') 0x3fff = Some MEMMAP_USED \<and> flags_of (active mm') 0x4000 = Some MEMMAP_USABLE"
  using claim_memmap_region_correct [OF demo_memmap_ok, of "0x1000" "0x3000" MEMMAP_USED]
  by (auto simp: demo_memmap_active inside_def apart_def mend_def holds_def)


lemma popcount64_4096: "popcount64 0x1000 = 1"
proof -
  have "(0x1000 :: u64) = 2 ^ 12" by simp
  then show ?thesis using popcount64_eq_1_iff [of "0x1000"] by (auto intro: exI [of _ 12])
qed


text \<open>
  C21: A claim that starts in a gap and runs into the following entry never succeeds: the loop inserts
  empty entries without making progress until the table is full, and then panics.
\<close>

theorem claim_memmap_region_overlap_panics:
  assumes "memmap_ok mm" "active mm = xs @ e # ys" "unat start + unat len < 2 ^ 64"
    and "\<forall>f\<in>set xs. mend f \<le> unat start"
    and "unat start < unat (me_start e)" "unat (me_start e) < unat start + unat len"
  shows "claim_memmap_region start len t mm = Inl Panic"
  using assms by (rule claim_memmap_region_overlap)

theorem claim_memmap_region_overlap_panics_witness:
  "claim_memmap_region 0x9000 0x2000 MEMMAP_USED demo_memmap = Inl Panic"
  by (rule claim_memmap_region_overlap_panics [OF demo_memmap_ok, of "take 1 (active demo_memmap)" "active demo_memmap ! 1" "[]"])
    (simp_all add: demo_memmap_active mend_def)

text \<open>
  C22: Tagging a range that begins below an entry and ends inside it panics, because the offset of the
  split is computed from the start of the range, which lies before the entry. Tagging a range that ends exactly where an
  entry ends and begins inside it has no effect at all.
\<close>

theorem tag_memmap_region_partial:
  assumes "memmap_ok mm" "active mm = xs @ e # ys" "unat start + unat len < 2 ^ 64"
  shows "((\<forall>f\<in>set xs. mend f \<le> unat start) \<and> unat start < unat (me_start e) \<and>
        unat (me_start e) < unat start + unat len \<and> unat start + unat len < mend e \<longrightarrow>
        tag_memmap_region start len msk mm = Inl Panic) \<and>
     (len \<noteq> 0 \<and> unat (me_start e) < unat start \<and> unat start + unat len = mend e \<longrightarrow>
        tag_memmap_region start len msk mm = Inr mm)"
  using tag_region_prefix [OF assms(1,2) _ assms(3)] tag_region_suffix [OF assms(1,2)]
  by (simp add: tag_memmap_region_def)

theorem tag_memmap_region_partial_witness:
  "tag_memmap_region 0x9000 0x2000 2 demo_memmap = Inl Panic \<and>
   tag_memmap_region 0x8000 0x1000 2 demo_memmap = Inr demo_memmap"
  using tag_memmap_region_partial [OF demo_memmap_ok, of "take 1 (active demo_memmap)" "active demo_memmap ! 1" "[]" "0x9000" "0x2000" 2]
    tag_memmap_region_partial [OF demo_memmap_ok, of "[]" "hd (active demo_memmap)" "tl (active demo_memmap)" "0x8000" "0x1000" 2]
  by (simp add: demo_memmap_active mend_def)

text \<open>
  An entry that lies strictly inside the checked range is never looked at, so a range that runs over a
  used entry can be reported usable.
\<close>

lemma check_memmap_region_usable_misses:
  "check_memmap_region_usable 0x9000 0x4000 demo_memmap \<and> flags_of (active demo_memmap) 0xa000 = Some MEMMAP_USED"
  by (simp add: check_memmap_region_usable_def demo_memmap_def active_def holds_def mend_def)

end
