(* ===== verification/Pfn.thy ===== *)
theory Pfn
  imports Memmap_Claim
begin

text \<open>
  The page frame database, \<^verbatim>\<open>kernel/mem/pfn.c\<close>: one entry for every frame of physical memory, filled
  in from the boot memory map. The array \<^verbatim>\<open>pfndb\<close> is indexed by frame number, as the nodes of the page
  allocator are; every access goes through the range check of \<open>get_pfn_entry_by_pfn\<close>. Physical
  addresses are 64-bit words of which 52 bits may be used, the configuration of the x86_64 and aarch64 ports.
\<close>

section \<open>The database\<close>

record pfndb_entry =
  pe_usable :: bool
  pe_mapped :: bool
  pe_tags :: "10 word"
  pe_inuse :: bool
  pe_zeroed :: bool
  pe_kernel :: bool
  pe_swappable :: bool

record pfn_state =
  paddr_len :: u64
  paddr_start :: u64
  paddr_end :: u64
  pfndb_entries :: nat
  pfndb_offset :: nat
  pfndb_limit :: nat
  pfndb :: "nat \<Rightarrow> pfndb_entry"

abbreviation (input) PAGE_SIZE :: u64 where "PAGE_SIZE \<equiv> 0x1000"
abbreviation (input) MAX_NUM_PADDR_BITS :: nat where "MAX_NUM_PADDR_BITS \<equiv> 52"

definition get_pfn_entry_by_pfn :: "nat \<Rightarrow> pfn_state \<Rightarrow> pfndb_entry res" where
  "get_pfn_entry_by_pfn pfn s = panic_if (pfn < pfndb_offset s \<or> pfndb_limit s \<le> pfn) (Inr (pfndb s pfn))"

definition get_pfn_entry_by_paddr :: "u64 \<Rightarrow> pfn_state \<Rightarrow> pfndb_entry res" where
  "get_pfn_entry_by_paddr paddr s = get_pfn_entry_by_pfn (paddr_to_ppfn paddr) s"

definition get_mem_range :: "pfn_state \<Rightarrow> u64 \<times> u64 \<times> u64" where
  "get_mem_range s = (paddr_len s, paddr_start s, paddr_end s)"

definition get_pfn_range :: "pfn_state \<Rightarrow> nat \<times> nat \<times> nat" where
  "get_pfn_range s = (pfndb_entries s, pfndb_offset s, pfndb_limit s)"

section \<open>Filling it in\<close>

definition cast_u64_to_paddr :: "u64 \<Rightarrow> u64 res" where
  "cast_u64_to_paddr addr = panic_if (64 - clz64 addr > MAX_NUM_PADDR_BITS) (Inr addr)"

definition align_up_paddr :: "u64 \<Rightarrow> u64 \<Rightarrow> u64" where
  "align_up_paddr paddr align = align_up paddr align"

definition align_down_paddr :: "u64 \<Rightarrow> u64 \<Rightarrow> u64" where
  "align_down_paddr paddr align = align_down paddr align"

definition find_paddr_range :: "loader_memmap \<Rightarrow> (u64 \<times> u64 \<times> u64) res" where
  "find_paddr_range mm =
     (let start64 = me_start (entry_at mm 0);
          last = entry_at mm (mm_num mm - 1);
          end64 = me_start last + me_size last
      in if mm_num mm = 0 then Inl Undefined
         else ebind (cast_u64_to_paddr start64) (\<lambda>start. ebind (cast_u64_to_paddr end64) (\<lambda>stop.
           let lower = align_down_paddr start PAGE_SIZE; upper = align_up_paddr stop PAGE_SIZE
           in Inr (upper - lower, lower, upper))))"

definition hole_entry :: pfndb_entry where
  "hole_entry = \<lparr>pe_usable = False, pe_mapped = False, pe_tags = 0, pe_inuse = True, pe_zeroed = False,
     pe_kernel = True, pe_swappable = False\<rparr>"

definition region_entry :: "loader_memmap_entry \<Rightarrow> pfndb_entry" where
  "region_entry cur =
     (if me_flags cur = MEMMAP_USABLE
      then \<lparr>pe_usable = True, pe_mapped = True, pe_tags = ucast (me_tags cur), pe_inuse = False, pe_zeroed = False,
            pe_kernel = False, pe_swappable = True\<rparr>
      else \<lparr>pe_usable = True, pe_mapped = True, pe_tags = 0, pe_inuse = True, pe_zeroed = False,
            pe_kernel = True, pe_swappable = False\<rparr>)"

text \<open>
  The three page loops of \<^verbatim>\<open>construct_pfndb\<close> write the same entry for every page of an address range.
  Both ends are page aligned, so there are at most as many rounds as there are frames below the end.
\<close>

primrec fill_loop :: "nat \<Rightarrow> pfndb_entry \<Rightarrow> u64 \<Rightarrow> u64 \<Rightarrow> pfn_state \<Rightarrow> pfn_state res" where
  "fill_loop 0 e i stop s = (if i < stop then Inl Out_of_fuel else Inr s)"
| "fill_loop (Suc fuel) e i stop s =
     (if i < stop then
        ebind (get_pfn_entry_by_paddr i s) (\<lambda>_.
        fill_loop fuel e (i + PAGE_SIZE) stop (s\<lparr>pfndb := (pfndb s)(paddr_to_ppfn i := e)\<rparr>))
      else Inr s)"

definition fill :: "pfndb_entry \<Rightarrow> u64 \<Rightarrow> u64 \<Rightarrow> pfn_state \<Rightarrow> pfn_state res" where
  "fill e start stop s = fill_loop (paddr_to_ppfn stop) e start stop s"

fun construct_loop :: "loader_memmap_entry list \<Rightarrow> u64 \<Rightarrow> pfn_state \<Rightarrow> (u64 \<times> pfn_state) res" where
  "construct_loop [] prev_end s = Inr (prev_end, s)"
| "construct_loop (cur # es) prev_end s =
     ebind (cast_u64_to_paddr (me_start cur)) (\<lambda>start.
     ebind (cast_u64_to_paddr (me_start cur + me_size cur)) (\<lambda>stop.
     let aligned_start = align_up_paddr start PAGE_SIZE; aligned_end = align_down_paddr stop PAGE_SIZE in
     ebind (fill hole_entry prev_end aligned_start s) (\<lambda>s.
     ebind (fill (region_entry cur) aligned_start aligned_end s) (\<lambda>s.
     construct_loop es aligned_end s))))"

definition construct_pfndb :: "loader_memmap \<Rightarrow> pfn_state \<Rightarrow> pfn_state res" where
  "construct_pfndb mm s =
     ebind (construct_loop (take (mm_num mm) (mm_slots mm)) (paddr_start s) s) (\<lambda>(prev_end, s).
     fill hole_entry prev_end (paddr_end s) s)"

text \<open>
  \<^verbatim>\<open>reserve_pfndb\<close> also takes memory for the array out of the memory map. The cast from a physical
  address to a kernel pointer belongs to the hardware abstraction layer; an entry takes two bytes.
\<close>

definition reserve_pfndb :: "(u64 \<Rightarrow> ulong) \<Rightarrow> loader_memmap \<Rightarrow> pfn_state \<Rightarrow> (loader_memmap \<times> pfn_state) res" where
  "reserve_pfndb hal_cast_paddr_to_kernel_ptr mm s =
     ebind (find_paddr_range mm) (\<lambda>(len, start, stop).
     let offset = paddr_to_ppfn start; limit = paddr_to_ppfn stop; entries = unat ((of_nat limit :: u64) - of_nat offset);
         aligned_pfndb_bytes = align_up (of_nat entries * 2) PAGE_SIZE
     in ebind (find_free_memmap_direct_mapped_region aligned_pfndb_bytes PAGE_SIZE mm) (\<lambda>(mm, pfndb_u64).
        ebind (cast_u64_to_paddr pfndb_u64) (\<lambda>pfndb_paddr.
        panic_if (hal_cast_paddr_to_kernel_ptr pfndb_paddr = 0) (
        Inr (mm, s\<lparr>paddr_len := len, paddr_start := start, paddr_end := stop, pfndb_entries := entries,
                   pfndb_offset := offset, pfndb_limit := limit\<rparr>)))))"

definition init_pfndb :: "loader_memmap \<Rightarrow> pfn_state \<Rightarrow> pfn_state res" where
  "init_pfndb mm s =
     ebind (construct_pfndb mm s) (\<lambda>s.
     if pfndb_offset s = 0 then
       ebind (get_pfn_entry_by_paddr 0 s) (\<lambda>entry.
       if pe_usable entry \<and> \<not> pe_inuse entry
       then Inr (s\<lparr>pfndb := (pfndb s)(0 := entry\<lparr>pe_usable := False, pe_inuse := True\<rparr>)\<rparr>)
       else Inr s)
     else Inr s)"

section \<open>Frames and addresses\<close>

lemma unat_ppfn_to_paddr: "p < 2 ^ 52 \<Longrightarrow> unat (ppfn_to_paddr p) = p * 4096"
proof -
  assume "p < 2 ^ 52"
  then have "p * 4096 < 2 ^ 64" by simp
  then show ?thesis by (simp add: ppfn_to_paddr_def push_bit_eq_mult unat_word_ariths unat_of_nat mod_mult_left_eq)
qed

lemma paddr_to_ppfn_div: "paddr_to_ppfn a = unat a div 4096"
  by (simp add: paddr_to_ppfn_def drop_bit_eq_div unat_div)

lemma paddr_to_ppfn_inverse: "p < 2 ^ 52 \<Longrightarrow> paddr_to_ppfn (ppfn_to_paddr p) = p"
  by (simp add: paddr_to_ppfn_div unat_ppfn_to_paddr)

lemma ppfn_to_paddr_less: "p < 2 ^ 52 \<Longrightarrow> q < 2 ^ 52 \<Longrightarrow> ppfn_to_paddr p < ppfn_to_paddr q \<longleftrightarrow> p < q"
  by (simp add: word_less_nat_alt unat_ppfn_to_paddr)

lemma ppfn_to_paddr_Suc: "ppfn_to_paddr p + 0x1000 = ppfn_to_paddr (Suc p)"
  by (simp add: ppfn_to_paddr_def push_bit_eq_mult algebra_simps)

lemma aligned_paddr: "p < 2 ^ 52 \<Longrightarrow> unat a = p * 4096 \<Longrightarrow> a = ppfn_to_paddr p"
  using unat_ppfn_to_paddr by (simp add: word_unat_eq_iff)

lemma align_down_paddr_page: "align_down_paddr a 0x1000 = ppfn_to_paddr (unat a div 4096)"
proof (rule aligned_paddr)
  have "unat a < 2 ^ 64" using unsigned_less [of a, where ?'a = nat] by simp
  then show "unat a div 4096 < 2 ^ 52" by (simp add: less_mult_imp_div_less)
  show "unat (align_down_paddr a 0x1000) = unat a div 4096 * 4096"
    using align_down_exp [of 12 a] by (simp add: align_down_paddr_def)
qed

lemma align_up_paddr_page:
  assumes "unat a + 4096 \<le> 2 ^ 64"
  shows "align_up_paddr a 0x1000 = ppfn_to_paddr ((unat a + 4095) div 4096)"
proof -
  have "unat (a + 0xfff) = unat a + 4095" using assms by (simp add: unat_word_ariths)
  then show ?thesis
    using align_down_paddr_page [of "a + 0xfff"]
    by (simp add: align_up_paddr_def align_down_paddr_def align_up_def align_down_def)
qed

lemma cast_u64_to_paddr_ok: "unat a < 2 ^ 52 \<Longrightarrow> cast_u64_to_paddr a = Inr a"
proof (cases "a = 0")
  case False
  assume "unat a < 2 ^ 52"
  then have "(2::nat) ^ (63 - clz64 a) < 2 ^ 52" using clz64_bounds(2) [OF False] by linarith
  then have "63 - clz64 a < 52" by (rule power_less_imp_less_exp [rotated]) simp
  then have "\<not> 52 < 64 - clz64 a" by linarith
  then show ?thesis by (simp add: cast_u64_to_paddr_def)
qed (simp add: cast_u64_to_paddr_def clz64_0)

section \<open>The page loops\<close>

lemma fill_empty: "q \<le> p \<Longrightarrow> s\<lparr>pfndb := (\<lambda>x. if p \<le> x \<and> x < q then e else pfndb s x)\<rparr> = s"
proof -
  assume "q \<le> p"
  then have "(\<lambda>x. if p \<le> x \<and> x < q then e else pfndb s x) = pfndb s" by (auto simp: fun_eq_iff)
  then show ?thesis by simp
qed

lemma fill_loop_range:
  "q < 2 ^ 52 \<Longrightarrow> q - p \<le> fuel \<Longrightarrow> pfndb_offset s \<le> p \<Longrightarrow> p < 2 ^ 52 \<Longrightarrow> q \<le> pfndb_limit s \<Longrightarrow>
   fill_loop fuel e (ppfn_to_paddr p) (ppfn_to_paddr q) s =
     Inr (s\<lparr>pfndb := (\<lambda>x. if p \<le> x \<and> x < q then e else pfndb s x)\<rparr>)"
proof (induction fuel arbitrary: p s)
  case 0
  then show ?case by (simp add: ppfn_to_paddr_less fill_empty)
next
  case (Suc fuel)
  show ?case
  proof (cases "p < q")
    case True
    then have "fill_loop (Suc fuel) e (ppfn_to_paddr p) (ppfn_to_paddr q) s =
        fill_loop fuel e (ppfn_to_paddr (Suc p)) (ppfn_to_paddr q) (s\<lparr>pfndb := (pfndb s)(p := e)\<rparr>)"
      using Suc.prems by (simp add: ppfn_to_paddr_less ppfn_to_paddr_Suc paddr_to_ppfn_inverse
          get_pfn_entry_by_paddr_def get_pfn_entry_by_pfn_def panic_if_def)
    also have "\<dots> = Inr (s\<lparr>pfndb := (\<lambda>x. if Suc p \<le> x \<and> x < q then e else ((pfndb s)(p := e)) x)\<rparr>)"
      using Suc.IH [of "Suc p" "s\<lparr>pfndb := (pfndb s)(p := e)\<rparr>"] Suc.prems True by (simp cong: if_cong)
    also have "(\<lambda>x. if Suc p \<le> x \<and> x < q then e else ((pfndb s)(p := e)) x) = (\<lambda>x. if p \<le> x \<and> x < q then e else pfndb s x)"
      using True by (auto simp: fun_eq_iff)
    finally show ?thesis .
  next
    case False
    then show ?thesis using Suc.prems by (simp add: ppfn_to_paddr_less fill_empty)
  qed
qed

lemma fill_range:
  assumes "p < 2 ^ 52" "q < 2 ^ 52" "pfndb_offset s \<le> p" "q \<le> pfndb_limit s"
  shows "fill e (ppfn_to_paddr p) (ppfn_to_paddr q) s = Inr (s\<lparr>pfndb := (\<lambda>x. if p \<le> x \<and> x < q then e else pfndb s x)\<rparr>)"
  using assms by (simp add: fill_def paddr_to_ppfn_inverse fill_loop_range)


section \<open>The database describes the memory map\<close>

definition frame_in :: "loader_memmap_entry \<Rightarrow> nat \<Rightarrow> bool" where
  "frame_in e p \<longleftrightarrow> unat (me_start e) \<le> p * 4096 \<and> (p + 1) * 4096 \<le> mend e"

definition frame_entry :: "loader_memmap_entry list \<Rightarrow> nat \<Rightarrow> pfndb_entry" where
  "frame_entry es p = (case List.find (\<lambda>e. frame_in e p) es of None \<Rightarrow> hole_entry | Some e \<Rightarrow> region_entry e)"

lemma find_append: "List.find P (xs @ ys) = (case List.find P xs of None \<Rightarrow> List.find P ys | Some x \<Rightarrow> Some x)"
  by (induction xs) auto

lemma find_none: "(\<And>x. x \<in> set xs \<Longrightarrow> \<not> P x) \<Longrightarrow> List.find P xs = None"
  by (auto simp: find_None_iff)

lemma frame_in_iff: "frame_in e p \<longleftrightarrow> (unat (me_start e) + 4095) div 4096 \<le> p \<and> p < mend e div 4096"
  unfolding frame_in_def by auto

text \<open>How far the database is filled in: \<open>ds\<close> are the entries done, \<open>q\<close> is the first frame not yet covered.\<close>

definition filled_to :: "loader_memmap_entry list \<Rightarrow> loader_memmap_entry list \<Rightarrow> nat \<Rightarrow> pfn_state \<Rightarrow> bool" where
  "filled_to es ds q s \<longleftrightarrow> pfndb_offset s \<le> q \<and> (\<forall>e\<in>set ds. mend e div 4096 \<le> q) \<and>
     (\<forall>p. pfndb_offset s \<le> p \<longrightarrow> p < q \<longrightarrow> pfndb s p = frame_entry es p)"

lemma construct_loop_fills:
  assumes "entries_ok (ds @ rest)" "filled_to (ds @ rest) ds q s"
    and "\<forall>e\<in>set rest. q \<le> unat (me_start e) div 4096"
    and "\<forall>e\<in>set rest. mend e < 2 ^ 52 \<and> mend e \<le> pfndb_limit s * 4096"
    and "q \<le> pfndb_limit s" "pfndb_limit s \<le> 2 ^ 40"
  shows "\<exists>q' s'. construct_loop rest (ppfn_to_paddr q) s = Inr (ppfn_to_paddr q', s') \<and> q' \<le> pfndb_limit s \<and>
     filled_to (ds @ rest) (ds @ rest) q' s' \<and> s' = s\<lparr>pfndb := pfndb s'\<rparr>"
  using assms
proof (induction rest arbitrary: ds q s)
  case (Cons e rest)
  define a b where "a = (unat (me_start e) + 4095) div 4096" and "b = mend e div 4096"
  have eok: "entry_ok e" using Cons.prems(1) by simp
  have m: "mend e < 2 ^ 52" "mend e \<le> pfndb_limit s * 4096" using Cons.prems(4) by simp_all
  have st: "unat (me_start e) < 2 ^ 52" using entry_ok_nonempty [OF eok] m by simp
  have qa: "q \<le> a" "q \<le> b" using Cons.prems(3) entry_ok_nonempty [OF eok] unfolding a_def b_def by auto
  have lim: "a \<le> pfndb_limit s" "b \<le> pfndb_limit s" "a < 2 ^ 52" "b < 2 ^ 52" "q < 2 ^ 52"
    using m entry_ok_nonempty [OF eok] Cons.prems(5,6) unfolding a_def b_def by auto
  have as: "align_up_paddr (me_start e) 0x1000 = ppfn_to_paddr a"
    using align_up_paddr_page [of "me_start e"] st by (simp add: a_def)
  have ae: "align_down_paddr (me_start e + me_size e) 0x1000 = ppfn_to_paddr b"
    using align_down_paddr_page entry_ok_end [OF eok] by (simp add: b_def)
  define s1 where "s1 = s\<lparr>pfndb := (\<lambda>x. if q \<le> x \<and> x < a then hole_entry else pfndb s x)\<rparr>"
  define s2 where "s2 = s1\<lparr>pfndb := (\<lambda>x. if a \<le> x \<and> x < b then region_entry e else pfndb s1 x)\<rparr>"
  have off: "pfndb_offset s \<le> q" using Cons.prems(2) by (simp add: filled_to_def)
  have f1: "fill hole_entry (ppfn_to_paddr q) (ppfn_to_paddr a) s = Inr s1"
    using fill_range [of q a s] lim off by (simp add: s1_def)
  have f2: "fill (region_entry e) (ppfn_to_paddr a) (ppfn_to_paddr b) s1 = Inr s2"
    using fill_range [of a b s1] lim off qa by (simp add: s2_def s1_def cong: if_cong)
  have step: "construct_loop (e # rest) (ppfn_to_paddr q) s = construct_loop rest (ppfn_to_paddr b) s2"
    using st m entry_ok_end [OF eok] f1 f2 as ae by (simp add: cast_u64_to_paddr_ok)
  have fr: "frame_entry (ds @ e # rest) p = (if a \<le> p then region_entry e else hole_entry)" if p: "q \<le> p" "p < b" for p
  proof -
    have "\<not> frame_in d p" if "d \<in> set ds" for d
      using Cons.prems(2) that p by (auto simp: filled_to_def frame_in_iff)
    then have "List.find (\<lambda>e. frame_in e p) ds = None" by (rule find_none)
    moreover have "\<not> frame_in d p" if d: "d \<in> set rest" for d
    proof -
      have "mend e \<le> unat (me_start d)" using Cons.prems(1) d by auto
      then have "b \<le> (unat (me_start d) + 4095) div 4096" unfolding b_def by auto
      then show ?thesis using p by (auto simp: frame_in_iff)
    qed
    then have "List.find (\<lambda>e. frame_in e p) rest = None" by (rule find_none)
    ultimately show ?thesis using p by (auto simp: frame_entry_def find_append frame_in_iff a_def b_def)
  qed
  have "filled_to ((ds @ [e]) @ rest) (ds @ [e]) b s2"
    unfolding filled_to_def
  proof (intro conjI allI impI ballI)
    fix p assume p: "pfndb_offset s2 \<le> p" "p < b"
    show "pfndb s2 p = frame_entry ((ds @ [e]) @ rest) p"
      using p fr [of p] qa(1) Cons.prems(2) by (cases "q \<le> p") (auto simp: s2_def s1_def filled_to_def)
  next
    fix d assume "d \<in> set (ds @ [e])"
    then show "mend d div 4096 \<le> b" using Cons.prems(2) qa by (auto simp: filled_to_def b_def)
  qed (use off qa in \<open>auto simp: s2_def s1_def\<close>)
  moreover have "\<forall>d\<in>set rest. b \<le> unat (me_start d) div 4096"
    using Cons.prems(1) unfolding b_def by (auto intro: div_le_mono)
  ultimately obtain q' s' where "construct_loop rest (ppfn_to_paddr b) s2 = Inr (ppfn_to_paddr q', s')" "q' \<le> pfndb_limit s2"
      "filled_to ((ds @ [e]) @ rest) ((ds @ [e]) @ rest) q' s'" "s' = s2\<lparr>pfndb := pfndb s'\<rparr>"
    using Cons.IH [of "ds @ [e]" b s2] Cons.prems(1,4,6) lim by (auto simp: s2_def s1_def)
  then show ?case using step by (auto simp: s2_def s1_def)
qed auto

lemma construct_pfndb_correct:
  assumes ok: "memmap_ok mm" and lim: "\<forall>e\<in>set (active mm). mend e < 2 ^ 52 \<and> mend e \<le> pfndb_limit s * 4096 \<and>
      pfndb_offset s \<le> unat (me_start e) div 4096"
    and s: "paddr_start s = ppfn_to_paddr (pfndb_offset s)" "paddr_end s = ppfn_to_paddr (pfndb_limit s)"
      "pfndb_offset s \<le> pfndb_limit s" "pfndb_limit s \<le> 2 ^ 40"
  shows "\<exists>s'. construct_pfndb mm s = Inr s' \<and> s' = s\<lparr>pfndb := pfndb s'\<rparr> \<and>
     (\<forall>p. pfndb_offset s \<le> p \<longrightarrow> p < pfndb_limit s \<longrightarrow> pfndb s' p = frame_entry (active mm) p)"
proof -
  have "filled_to ([] @ active mm) [] (pfndb_offset s) s" by (simp add: filled_to_def)
  from construct_loop_fills [OF _ this] ok lim s(3,4)
  obtain q s1 where s1: "construct_loop (active mm) (paddr_start s) s = Inr (ppfn_to_paddr q, s1)" "q \<le> pfndb_limit s"
      "filled_to (active mm) (active mm) q s1" "s1 = s\<lparr>pfndb := pfndb s1\<rparr>"
    using s(1) by (auto simp: memmap_ok_def)
  have e1: "pfndb_offset s1 = pfndb_offset s" "pfndb_limit s1 = pfndb_limit s" "paddr_end s1 = paddr_end s"
    by (subst s1(4), simp)+
  define s2 where "s2 = s1\<lparr>pfndb := (\<lambda>x. if q \<le> x \<and> x < pfndb_limit s then hole_entry else pfndb s1 x)\<rparr>"
  have "pfndb_offset s \<le> q" using s1(3) e1 by (simp add: filled_to_def)
  then have "construct_pfndb mm s = Inr s2"
    using fill_range [of q "pfndb_limit s" s1] s1(1,2) s(2,4) e1
    by (simp add: construct_pfndb_def active_def [symmetric] s2_def)
  moreover have "pfndb s2 p = frame_entry (active mm) p" if p: "pfndb_offset s \<le> p" "p < pfndb_limit s" for p
  proof (cases "q \<le> p")
    case True
    have "\<not> frame_in d p" if "d \<in> set (active mm)" for d
      using s1(3) that True by (auto simp: filled_to_def frame_in_iff)
    then have "List.find (\<lambda>e. frame_in e p) (active mm) = None" by (rule find_none)
    then show ?thesis using True p by (simp add: s2_def frame_entry_def)
  next
    case False
    then show ?thesis using s1(3) p e1 by (simp add: s2_def filled_to_def)
  qed
  moreover have "s2 = s\<lparr>pfndb := pfndb s2\<rparr>" unfolding s2_def by (subst s1(4)) simp
  ultimately show ?thesis by blast
qed

section \<open>Properties\<close>

definition frame_avail :: "pfn_state \<Rightarrow> nat \<Rightarrow> bool" where
  "frame_avail s p \<longleftrightarrow> pe_usable (pfndb s p) \<and> \<not> pe_inuse (pfndb s p)"

lemma region_entry_avail: "pe_usable (region_entry e) \<and> \<not> pe_inuse (region_entry e) \<longleftrightarrow> me_flags e = MEMMAP_USABLE"
  by (simp add: region_entry_def)

lemma entries_frame_unique:
  assumes "entries_ok es" "e \<in> set es" "d \<in> set es" "frame_in e p" "frame_in d p"
  shows "e = d"
proof (rule ccontr)
  assume "e \<noteq> d"
  obtain xs ys where es: "es = xs @ e # ys" using assms(2) by (auto dest: split_list)
  then have "d \<in> set xs \<or> d \<in> set ys" using assms(3) \<open>e \<noteq> d\<close> by auto
  then have "mend d \<le> unat (me_start e) \<or> mend e \<le> unat (me_start d)" using assms(1) es by auto
  then show False using assms(4,5) unfolding frame_in_def by auto
qed

lemma frame_entry_in: "entries_ok es \<Longrightarrow> e \<in> set es \<Longrightarrow> frame_in e p \<Longrightarrow> frame_entry es p = region_entry e"
proof -
  assume e: "entries_ok es" "e \<in> set es" "frame_in e p"
  then obtain d where d: "List.find (\<lambda>e. frame_in e p) es = Some d" using find_None_iff [of "\<lambda>e. frame_in e p" es] by fastforce
  then have "frame_in d p" "d \<in> set es" by (auto simp: find_Some_iff)
  then have "d = e" using entries_frame_unique e by blast
  then show ?thesis using d by (simp add: frame_entry_def)
qed

lemma frame_entry_avail:
  "pe_usable (frame_entry es p) \<and> \<not> pe_inuse (frame_entry es p) \<Longrightarrow>
   \<exists>e\<in>set es. me_flags e = MEMMAP_USABLE \<and> frame_in e p"
  by (auto simp: frame_entry_def find_Some_iff hole_entry_def region_entry_avail split: option.splits)

lemma init_pfndb_describes:
  assumes ok: "memmap_ok mm" and lim: "\<forall>e\<in>set (active mm). mend e < 2 ^ 52 \<and> mend e \<le> pfndb_limit s * 4096 \<and>
      pfndb_offset s \<le> unat (me_start e) div 4096"
    and s: "paddr_start s = ppfn_to_paddr (pfndb_offset s)" "paddr_end s = ppfn_to_paddr (pfndb_limit s)"
      "pfndb_offset s < pfndb_limit s" "pfndb_limit s \<le> 2 ^ 40"
  shows "\<exists>s'. init_pfndb mm s = Inr s' \<and> s' = s\<lparr>pfndb := pfndb s'\<rparr> \<and>
     (\<forall>p. pfndb_offset s \<le> p \<longrightarrow> p < pfndb_limit s \<longrightarrow>
        (frame_avail s' p \<longleftrightarrow> p \<noteq> 0 \<and> (\<exists>e\<in>set (active mm). me_flags e = MEMMAP_USABLE \<and> frame_in e p)) \<and>
        (\<forall>e\<in>set (active mm). me_flags e = MEMMAP_USABLE \<longrightarrow> frame_in e p \<longrightarrow> pe_tags (pfndb s' p) = ucast (me_tags e)))"
proof -
  obtain s1 where s1: "construct_pfndb mm s = Inr s1" "s1 = s\<lparr>pfndb := pfndb s1\<rparr>"
     "\<forall>p. pfndb_offset s \<le> p \<longrightarrow> p < pfndb_limit s \<longrightarrow> pfndb s1 p = frame_entry (active mm) p"
    using construct_pfndb_correct [OF ok lim s(1,2) less_imp_le [OF s(3)] s(4)] by blast
  have e1: "pfndb_offset s1 = pfndb_offset s" "pfndb_limit s1 = pfndb_limit s" by (subst s1(2), simp)+
  define s2 where "s2 = (if pfndb_offset s = 0 \<and> frame_avail s1 0
      then s1\<lparr>pfndb := (pfndb s1)(0 := (pfndb s1 0)\<lparr>pe_usable := False, pe_inuse := True\<rparr>)\<rparr> else s1)"
  have "init_pfndb mm s = Inr s2"
    using s1(1) e1 s(3) by (auto simp: init_pfndb_def s2_def get_pfn_entry_by_paddr_def get_pfn_entry_by_pfn_def
        paddr_to_ppfn_def frame_avail_def panic_if_def)
  moreover have "s2 = s\<lparr>pfndb := pfndb s2\<rparr>" 
  proof (cases "pfndb_offset s = 0 \<and> frame_avail s1 0")
    case True
    then show ?thesis unfolding s2_def if_P [OF True] by (subst s1(2)) simp
  next
    case False
    show ?thesis unfolding s2_def if_not_P [OF False] by (rule s1(2))
  qed
  moreover have eok: "entries_ok (active mm)" using ok by (simp add: memmap_ok_def)
  have "(frame_avail s2 p \<longleftrightarrow> p \<noteq> 0 \<and> (\<exists>e\<in>set (active mm). me_flags e = MEMMAP_USABLE \<and> frame_in e p)) \<and>
        (\<forall>e\<in>set (active mm). me_flags e = MEMMAP_USABLE \<longrightarrow> frame_in e p \<longrightarrow> pe_tags (pfndb s2 p) = ucast (me_tags e))"
    if p: "pfndb_offset s \<le> p" "p < pfndb_limit s" for p
  proof -
    have f: "pfndb s1 p = frame_entry (active mm) p" using s1(3) p by blast
    have av: "frame_avail s1 p \<longleftrightarrow> (\<exists>e\<in>set (active mm). me_flags e = MEMMAP_USABLE \<and> frame_in e p)"
      using frame_entry_avail [of "active mm" p] frame_entry_in [OF eok, of _ p] region_entry_avail
      unfolding frame_avail_def f by metis
    have "frame_avail s2 p \<longleftrightarrow> p \<noteq> 0 \<and> frame_avail s1 p" using p s(3) by (auto simp: s2_def frame_avail_def)
    moreover have "pe_tags (pfndb s2 p) = pe_tags (frame_entry (active mm) p)" using f by (auto simp: s2_def)
    ultimately show ?thesis using av frame_entry_in [OF eok, of _ p] by (auto simp: region_entry_def)
  qed
  ultimately show ?thesis by blast
qed

text \<open>
  C8: The page frame database agrees with the boot memory map. After \<^verbatim>\<open>init_pfndb\<close> a frame in the
  covered range is usable and not in use exactly when it is not frame 0 and lies completely inside a
  usable entry of the map, and it then carries the tags of that entry. Holes, partial pages and used memory are
  never available.
\<close>

theorem init_pfndb_correct:
  assumes "memmap_ok mm" "\<forall>e\<in>set (active mm). mend e < 2 ^ 52 \<and> mend e \<le> pfndb_limit s * 4096 \<and>
      pfndb_offset s \<le> unat (me_start e) div 4096"
    and "paddr_start s = ppfn_to_paddr (pfndb_offset s)" "paddr_end s = ppfn_to_paddr (pfndb_limit s)"
      "pfndb_offset s < pfndb_limit s" "pfndb_limit s \<le> 2 ^ 40"
  shows "\<exists>s'. init_pfndb mm s = Inr s' \<and> s' = s\<lparr>pfndb := pfndb s'\<rparr> \<and>
     (\<forall>p. pfndb_offset s \<le> p \<longrightarrow> p < pfndb_limit s \<longrightarrow>
        (frame_avail s' p \<longleftrightarrow> p \<noteq> 0 \<and> (\<exists>e\<in>set (active mm). me_flags e = MEMMAP_USABLE \<and> frame_in e p)) \<and>
        (\<forall>e\<in>set (active mm). me_flags e = MEMMAP_USABLE \<longrightarrow> frame_in e p \<longrightarrow> pe_tags (pfndb s' p) = ucast (me_tags e)))"
  using assms by (rule init_pfndb_describes)

text \<open>The database before \<^verbatim>\<open>init_pfndb\<close>, with the range that \<^verbatim>\<open>reserve_pfndb\<close> finds for the demonstration map.\<close>

definition demo_pfn :: pfn_state where
  "demo_pfn = \<lparr>paddr_len = 0xb000, paddr_start = 0x1000, paddr_end = 0xc000, pfndb_entries = 11, pfndb_offset = 1,
     pfndb_limit = 12, pfndb = (\<lambda>_. hole_entry)\<rparr>"

lemma demo_pfn_ok:
  "\<forall>e\<in>set (active demo_memmap). mend e < 2 ^ 52 \<and> mend e \<le> pfndb_limit demo_pfn * 4096 \<and>
     pfndb_offset demo_pfn \<le> unat (me_start e) div 4096"
  "paddr_start demo_pfn = ppfn_to_paddr (pfndb_offset demo_pfn)" "paddr_end demo_pfn = ppfn_to_paddr (pfndb_limit demo_pfn)"
  "pfndb_offset demo_pfn < pfndb_limit demo_pfn" "pfndb_limit demo_pfn \<le> 2 ^ 40"
  by (simp_all add: demo_memmap_active mend_def demo_pfn_def ppfn_to_paddr_def push_bit_eq_mult)

theorem init_pfndb_correct_witness:
  "\<exists>s. init_pfndb demo_memmap demo_pfn = Inr s \<and> frame_avail s 8 \<and> \<not> frame_avail s 9 \<and> \<not> frame_avail s 10"
proof -
  obtain s where "init_pfndb demo_memmap demo_pfn = Inr s"
    and s: "\<forall>p. pfndb_offset demo_pfn \<le> p \<longrightarrow> p < pfndb_limit demo_pfn \<longrightarrow>
        (frame_avail s p \<longleftrightarrow> p \<noteq> 0 \<and> (\<exists>e\<in>set (active demo_memmap). me_flags e = MEMMAP_USABLE \<and> frame_in e p))"
    using init_pfndb_correct [OF demo_memmap_ok demo_pfn_ok] by blast
  moreover have "frame_avail s 8" "\<not> frame_avail s 9" "\<not> frame_avail s 10"
    using spec [OF s, of 8] spec [OF s, of 9] spec [OF s, of 10]
    by (simp_all add: demo_pfn_def demo_memmap_active frame_in_def mend_def)
  ultimately show ?thesis by blast
qed

end
