(* ===== verification/Palloc_Boot.thy ===== *)
theory Palloc_Boot
  imports Palloc_Client Pfn
begin

text \<open>
  Start-up of the page frame allocator, the part of \<^verbatim>\<open>kernel/mem/palloc.c\<close> that reads the page frame
  database: \<^verbatim>\<open>reserve_palloc\<close> sets aside and clears the nodes, \<^verbatim>\<open>init_palloc\<close> turns every run of
  available frames with the same tags into a region.
\<close>

section \<open>Reserving the nodes\<close>

text \<open>A node takes eight bytes; the whole array is zeroed.\<close>

definition reserve_palloc :: "loader_memmap \<Rightarrow> pfn_state \<Rightarrow> palloc_state \<Rightarrow> (loader_memmap \<times> palloc_state) res" where
  "reserve_palloc mm db s =
     (let (count, start, limit) = get_pfn_range db;
          aligned_node_bytes = align_up (of_nat count * 8) PAGE_SIZE
      in ebind (find_free_memmap_direct_mapped_region aligned_node_bytes PAGE_SIZE mm) (\<lambda>(mm, nodes_u64).
         ebind (cast_u64_to_paddr nodes_u64) (\<lambda>_.
         Inr (mm, s\<lparr>pfn_entry_count := count, pfn_start := start, pfn_limit := limit, nodes := (\<lambda>_. zero_node)\<rparr>))))"

section \<open>Building the regions\<close>

definition reset_regions :: "palloc_state \<Rightarrow> palloc_state" where
  "reset_regions s =
     s\<lparr>regions := (\<lambda>j. if j < MAX_PALLOC_REGION_COUNT then zero_region else regions s j)\<rparr>"

text \<open>
  The scan over the database; \<open>recording\<close> says whether a region that began at \<open>cur_region_start\<close> with
  tags \<open>cur_tag\<close> is open. The frame that closes a region does not open the next one.
\<close>

fun init_palloc_loop :: "nat list \<Rightarrow> bool \<Rightarrow> u32 \<Rightarrow> nat \<Rightarrow> pfn_state \<Rightarrow> palloc_state \<Rightarrow> (bool \<times> u32 \<times> nat \<times> palloc_state) res" where
  "init_palloc_loop [] recording cur_tag cur_region_start db s = Inr (recording, cur_tag, cur_region_start, s)"
| "init_palloc_loop (i # is) recording cur_tag cur_region_start db s =
     ebind (get_pfn_entry_by_pfn i db) (\<lambda>entry.
     if recording \<and> (\<not> pe_usable entry \<or> pe_inuse entry \<or> cur_tag \<noteq> ucast (pe_tags entry)) then
       ebind (init_region cur_region_start (i - cur_region_start) (region_count s) cur_tag s) (\<lambda>s.
       init_palloc_loop is False cur_tag cur_region_start db (s\<lparr>region_count := region_count s + 1\<rparr>))
     else if \<not> recording \<and> pe_usable entry \<and> \<not> pe_inuse entry then
       init_palloc_loop is True (ucast (pe_tags entry)) i db s
     else init_palloc_loop is recording cur_tag cur_region_start db s)"

definition init_palloc :: "pfn_state \<Rightarrow> palloc_state \<Rightarrow> palloc_state res" where
  "init_palloc db s =
     (let s = reset_regions s in
      ebind (init_palloc_loop [pfn_start s..<pfn_start s + pfn_entry_count s] False 0 0 db s)
        (\<lambda>(recording, cur_tag, cur_region_start, s).
      if recording then
        ebind (init_region cur_region_start (pfn_limit s - cur_region_start) (region_count s) cur_tag s) (\<lambda>s.
        Inr (s\<lparr>region_count := region_count s + 1\<rparr>))
      else Inr s))"

section \<open>The scan\<close>

abbreviation frame_tags :: "pfn_state \<Rightarrow> nat \<Rightarrow> u32" where
  "frame_tags db p \<equiv> ucast (pe_tags (pfndb db p))"

text \<open>Where a run of available frames with equal tags begins, and where it begins only by a change of tags.\<close>

definition tag_change :: "pfn_state \<Rightarrow> nat \<Rightarrow> nat \<Rightarrow> bool" where
  "tag_change db lo p \<longleftrightarrow> lo < p \<and> frame_avail db p \<and> frame_avail db (p - 1) \<and> frame_tags db (p - 1) \<noteq> frame_tags db p"

definition run_start :: "pfn_state \<Rightarrow> nat \<Rightarrow> nat \<Rightarrow> bool" where
  "run_start db lo p \<longleftrightarrow> frame_avail db p \<and> (p = lo \<or> \<not> frame_avail db (p - 1) \<or> frame_tags db (p - 1) \<noteq> frame_tags db p)"

definition runs :: "pfn_state \<Rightarrow> nat \<Rightarrow> nat \<Rightarrow> nat" where
  "runs db lo i = card {p. lo \<le> p \<and> p < i \<and> run_start db lo p}"

lemma runs_Suc: "lo \<le> i \<Longrightarrow> runs db lo (Suc i) = runs db lo i + (if run_start db lo i then 1 else 0)"
proof -
  assume i: "lo \<le> i"
  have "{p. lo \<le> p \<and> p < Suc i \<and> run_start db lo p} =
      (if run_start db lo i then insert i {p. lo \<le> p \<and> p < i \<and> run_start db lo p} else {p. lo \<le> p \<and> p < i \<and> run_start db lo p})"
    using i by (auto simp: less_Suc_eq)
  then show ?thesis by (simp add: runs_def)
qed

lemma runs_mono: "i \<le> j \<Longrightarrow> runs db lo i \<le> runs db lo j"
  unfolding runs_def by (intro card_mono) auto

text \<open>
  The state of the scan in front of frame \<open>i\<close>. All frames below \<open>done\<close>, the start of the open region if
  there is one, have been dealt with: they belong to a region exactly when they are available, except
  those at a change of tags.
\<close>

definition scanned :: "pfn_state \<Rightarrow> nat \<Rightarrow> nat \<Rightarrow> palloc_state \<Rightarrow> tiles \<Rightarrow> bool" where
  "scanned db lo fin s T \<longleftrightarrow>
     (\<forall>p r k a. T p = Some (r, k, a) \<longrightarrow> \<not> a \<and> r < region_count s \<and> block p k \<subseteq> {lo..<fin} \<and>
        (\<forall>x\<in>block p k. frame_avail db x \<and> frame_tags db x = pr_tags (regions s r))) \<and>
     (\<forall>x. lo \<le> x \<longrightarrow> x < fin \<longrightarrow> frame_avail db x \<longrightarrow> (\<exists>r<region_count s. x \<in> free_cover T r) \<or> tag_change db lo x)"

definition scan_inv :: "pfn_state \<Rightarrow> nat \<Rightarrow> nat \<Rightarrow> bool \<Rightarrow> u32 \<Rightarrow> nat \<Rightarrow> palloc_state \<Rightarrow> bool" where
  "scan_inv db lo i recording tag st s \<longleftrightarrow>
     (\<exists>T L. palloc_inv s T L \<and> scanned db lo (if recording then st else i) s T) \<and> pfn_start s = lo \<and>
     (if recording then lo \<le> st \<and> st < i \<and> (\<forall>x\<in>{st..<i}. frame_avail db x \<and> frame_tags db x = tag) \<and>
        region_count s + 1 \<le> runs db lo i
      else region_count s \<le> runs db lo i \<and> (lo < i \<and> frame_avail db (i - 1) \<longrightarrow> region_count s + 1 \<le> runs db lo i))"

lemma scanned_close:
  assumes sc: "scanned db lo st s T" and add: "range_added T T' (region_count s) st i" and le: "lo \<le> st" "st \<le> i"
    and run: "\<forall>x\<in>{st..<i}. frame_avail db x \<and> frame_tags db x = tag"
    and rc: "region_count s' = Suc (region_count s)"
    and tg: "\<forall>r. pr_tags (regions s' r) = (if r = region_count s then tag else pr_tags (regions s r))"
  shows "scanned db lo i s' T'"
proof -
  have new: "T p = Some (r, k, a) \<or> r = region_count s \<and> \<not> a \<and> block p k \<subseteq> {st..<i}" if "T' p = Some (r, k, a)" for p r k a
    using add that unfolding range_added_def by blast
  have "\<not> a \<and> r < region_count s' \<and> block p k \<subseteq> {lo..<i} \<and>
        (\<forall>x\<in>block p k. frame_avail db x \<and> frame_tags db x = pr_tags (regions s' r))" if T': "T' p = Some (r, k, a)" for p r k a
    using new [OF T']
  proof
    assume "T p = Some (r, k, a)"
    then have "\<not> a \<and> r < region_count s \<and> block p k \<subseteq> {lo..<st} \<and>
        (\<forall>x\<in>block p k. frame_avail db x \<and> frame_tags db x = pr_tags (regions s r))" using sc unfolding scanned_def by blast
    then show ?thesis using rc tg le by fastforce
  next
    assume "r = region_count s \<and> \<not> a \<and> block p k \<subseteq> {st..<i}"
    then show ?thesis using rc tg le run by fastforce
  qed
  moreover have "(\<exists>r<region_count s'. x \<in> free_cover T' r) \<or> tag_change db lo x" if x: "lo \<le> x" "x < i" "frame_avail db x" for x
  proof (cases "x < st")
    case True
    have keep: "free_cover T r \<subseteq> free_cover T' r" for r using add unfolding range_added_def free_cover_def by blast
    have "(\<exists>r<region_count s. x \<in> free_cover T r) \<or> tag_change db lo x" using sc x True unfolding scanned_def by blast
    then show ?thesis using keep unfolding rc by (meson less_SucI subsetD)
  next
    case False
    then have "x \<in> free_cover T' (region_count s)" using add x unfolding range_added_def by auto
    then show ?thesis using rc by auto
  qed
  ultimately show ?thesis unfolding scanned_def by blast
qed

lemma close_region:
  assumes inv: "scan_inv db lo i True tag st s" and lim: "i \<le> pfn_limit s" and cnt: "runs db lo i \<le> 32" and z: "\<not> frame_avail db 0"
  shows "\<exists>s' T L. init_region st (i - st) (region_count s) tag s = Inr s' \<and> palloc_inv (s'\<lparr>region_count := region_count s' + 1\<rparr>) T L \<and>
     scanned db lo i (s'\<lparr>region_count := region_count s' + 1\<rparr>) T \<and> region_count s' = region_count s \<and>
     pfn_start s' = lo \<and> pfn_limit s' = pfn_limit s \<and> pfn_entry_count s' = pfn_entry_count s"
proof -
  obtain T L where I: "palloc_inv s T L" and sc: "scanned db lo st s T" and lo: "pfn_start s = lo"
    and st: "lo \<le> st" "st < i" "\<forall>x\<in>{st..<i}. frame_avail db x \<and> frame_tags db x = tag" "region_count s + 1 \<le> runs db lo i"
    using inv by (auto simp: scan_inv_def)
  have st0: "0 < st" using st(2,3) z by (metis atLeastLessThan_iff le_refl neq0_conv)
  have old: "r < region_count s" "block q k \<subseteq> {lo..<st}" if "T q = Some (r, k, a)" for q r k a
    using sc that unfolding scanned_def by blast+
  have "\<exists>s' T' L'. init_region st (i - st) (region_count s) tag s = Inr s' \<and> palloc_inv s' T' L' \<and>
     range_added T T' (region_count s) st (st + (i - st)) \<and> region_count s' = region_count s \<and>
     pfn_start s' = pfn_start s \<and> pfn_limit s' = pfn_limit s \<and> pfn_entry_count s' = pfn_entry_count s \<and>
     (\<forall>r'. pr_tags (regions s' r') = (if r' = region_count s then tag else pr_tags (regions s r')))"
  proof (rule init_region_inv [OF I])
    show "T q \<noteq> Some (region_count s, j, a)" for q j a using old(1) by blast
    show "block q j \<inter> {st..<st + (i - st)} = {}" if "T q = Some (r', j, a)" for q r' j a using old(2) [OF that] by auto
  qed (use st lo lim cnt st0 in auto)
  then obtain s' T' L' where s': "init_region st (i - st) (region_count s) tag s = Inr s'" "palloc_inv s' T' L'"
     "range_added T T' (region_count s) st i" "region_count s' = region_count s"
     "pfn_start s' = pfn_start s" "pfn_limit s' = pfn_limit s" "pfn_entry_count s' = pfn_entry_count s"
     "\<forall>r'. pr_tags (regions s' r') = (if r' = region_count s then tag else pr_tags (regions s r'))" using st(2) by auto
  have "palloc_inv (s'\<lparr>region_count := region_count s' + 1\<rparr>) T' L'"
    using s'(2,4) st(4) cnt by (simp add: palloc_inv_def)
  moreover have "scanned db lo i (s'\<lparr>region_count := region_count s' + 1\<rparr>) T'"
    by (rule scanned_close [OF sc s'(3) st(1) less_imp_le [OF st(2)] st(3)]) (use s' in auto)
  ultimately show ?thesis using s' lo by blast
qed

lemma scanned_Suc:
  assumes "scanned db lo i s T" "frame_avail db i \<Longrightarrow> tag_change db lo i"
  shows "scanned db lo (Suc i) s T"
proof -
  have "{lo..<i} \<subseteq> {lo..<Suc i}" by auto
  then have "\<forall>p r k a. T p = Some (r, k, a) \<longrightarrow> \<not> a \<and> r < region_count s \<and> block p k \<subseteq> {lo..<Suc i} \<and>
        (\<forall>x\<in>block p k. frame_avail db x \<and> frame_tags db x = pr_tags (regions s r))"
    using assms(1) unfolding scanned_def by (meson order_trans)
  moreover have "(\<exists>r<region_count s. x \<in> free_cover T r) \<or> tag_change db lo x" if "lo \<le> x" "x < Suc i" "frame_avail db x" for x
    using assms that unfolding scanned_def by (cases "x = i") auto
  ultimately show ?thesis unfolding scanned_def by blast
qed

lemma scan_step:
  assumes inv: "scan_inv db lo i recording tag st s" and i: "lo \<le> i" "i < pfn_limit s"
    and cnt: "runs db lo (pfn_limit s) \<le> 32" and z: "\<not> frame_avail db 0"
    and rng: "pfndb_offset db \<le> i" "i < pfndb_limit db"
  shows "\<exists>recording' tag' st' s'. init_palloc_loop (i # is) recording tag st db s = init_palloc_loop is recording' tag' st' db s' \<and>
     scan_inv db lo (Suc i) recording' tag' st' s' \<and> pfn_limit s' = pfn_limit s"
proof -
  have get: "get_pfn_entry_by_pfn i db = Inr (pfndb db i)" using rng by (simp add: get_pfn_entry_by_pfn_def panic_if_def)
  have c: "runs db lo i \<le> 32" using cnt runs_mono [of i "pfn_limit s" db lo] i(2) by linarith
  consider (ends) "recording" "\<not> frame_avail db i \<or> tag \<noteq> frame_tags db i" | (starts) "\<not> recording" "frame_avail db i"
    | (goes_on) "recording" "frame_avail db i" "tag = frame_tags db i" | (idle) "\<not> recording" "\<not> frame_avail db i" by blast
  then show ?thesis
  proof cases
    case ends
    then have inv': "scan_inv db lo i True tag st s" using inv by simp
    obtain s' T L where s': "init_region st (i - st) (region_count s) tag s = Inr s'" "palloc_inv (s'\<lparr>region_count := region_count s' + 1\<rparr>) T L"
      "scanned db lo i (s'\<lparr>region_count := region_count s' + 1\<rparr>) T" "region_count s' = region_count s" "pfn_start s' = lo" "pfn_limit s' = pfn_limit s"
      using close_region [OF inv' less_imp_le [OF i(2)] c z] by blast
    have st: "st < i" "lo \<le> st" "frame_avail db (i - 1)" "frame_tags db (i - 1) = tag" "region_count s + 1 \<le> runs db lo i"
      using inv' by (auto simp: scan_inv_def)
    have chg: "frame_avail db i \<Longrightarrow> tag_change db lo i" using ends st by (auto simp: tag_change_def)
    have "scanned db lo (Suc i) (s'\<lparr>region_count := region_count s' + 1\<rparr>) T"
      using s'(3) chg by (rule scanned_Suc)
    moreover have "frame_avail db i \<Longrightarrow> run_start db lo i" using chg by (auto simp: tag_change_def run_start_def)
    ultimately have "scan_inv db lo (Suc i) False tag st (s'\<lparr>region_count := region_count s' + 1\<rparr>)"
      using s' st runs_Suc [OF i(1), of db] by (auto simp: scan_inv_def)
    moreover have "init_palloc_loop (i # is) recording tag st db s =
        init_palloc_loop is False tag st db (s'\<lparr>region_count := region_count s' + 1\<rparr>)"
      using ends get s'(1) by (auto simp: frame_avail_def)
    moreover have "pfn_limit (s'\<lparr>region_count := region_count s' + 1\<rparr>) = pfn_limit s" using s'(6) by simp
    ultimately show ?thesis by blast
  next
    case starts
    have "scan_inv db lo (Suc i) True (frame_tags db i) i s"
      using inv starts runs_Suc [OF i(1), of db] i(1) by (auto simp: scan_inv_def run_start_def less_Suc_eq)
    then show ?thesis using starts get by (auto simp: frame_avail_def)
  next
    case goes_on
    have "scan_inv db lo (Suc i) True tag st s"
      using inv goes_on runs_Suc [OF i(1), of db] by (auto simp: scan_inv_def less_Suc_eq)
    then show ?thesis using goes_on get by (auto simp: frame_avail_def)
  next
    case idle
    obtain T L where T: "palloc_inv s T L" "scanned db lo i s T" using inv idle(1) by (auto simp: scan_inv_def)
    have "scanned db lo (Suc i) s T" using T(2) by (rule scanned_Suc) (use idle in simp)
    then have "scan_inv db lo (Suc i) False tag st s"
      using inv idle T(1) runs_Suc [OF i(1), of db] unfolding scan_inv_def by auto
    then show ?thesis using idle get by (auto simp: frame_avail_def)
  qed
qed

lemma scan_all:
  assumes "scan_inv db lo i recording tag st s" "lo \<le> i" "i \<le> hi" "pfn_limit s = hi"
    and "runs db lo hi \<le> 32" "\<not> frame_avail db 0" "pfndb_offset db \<le> lo" "hi \<le> pfndb_limit db"
  shows "\<exists>recording' tag' st' s'. init_palloc_loop [i..<hi] recording tag st db s = Inr (recording', tag', st', s') \<and>
     scan_inv db lo hi recording' tag' st' s' \<and> pfn_limit s' = hi"
  using assms
proof (induction "hi - i" arbitrary: i recording tag st s)
  case 0
  then show ?case by auto
next
  case (Suc n)
  then have i: "i < hi" by simp
  obtain recording' tag' st' s' where *: "init_palloc_loop (i # [Suc i..<hi]) recording tag st db s = init_palloc_loop [Suc i..<hi] recording' tag' st' db s'"
     "scan_inv db lo (Suc i) recording' tag' st' s'" "pfn_limit s' = hi"
    using scan_step [OF Suc.prems(1,2), of "[Suc i..<hi]"] Suc.prems i by auto
  show ?case using Suc.hyps(1) [OF _ *(2)] *(1,3) Suc.prems Suc.hyps(2) i by (simp add: upt_conv_Cons)
qed

section \<open>The regions after start-up\<close>

definition boot_regions :: "pfn_state \<Rightarrow> nat \<Rightarrow> nat \<Rightarrow> palloc_state \<Rightarrow> bool" where
  "boot_regions db lo hi s \<longleftrightarrow>
     (\<forall>r<MAX_PALLOC_REGION_COUNT. \<forall>x\<in>free_frames s r. r < region_count s \<and> lo \<le> x \<and> x < hi \<and> frame_avail db x \<and>
        frame_tags db x = pr_tags (regions s r)) \<and>
     (\<forall>x. lo \<le> x \<longrightarrow> x < hi \<longrightarrow> frame_avail db x \<longrightarrow> \<not> tag_change db lo x \<longrightarrow> (\<exists>r<region_count s. x \<in> free_frames s r))"

lemma scanned_boot:
  assumes inv: "palloc_inv s T L" and sc: "scanned db lo hi s T"
  shows "palloc_ok s \<and> allocated s = Map.empty \<and> boot_regions db lo hi s"
proof -
  note wf = palloc_invD(1) [OF inv]
  have T: "\<not> a" "r < region_count s" "block p k \<subseteq> {lo..<hi}"
      "\<forall>x\<in>block p k. frame_avail db x \<and> frame_tags db x = pr_tags (regions s r)" if "T p = Some (r, k, a)" for p r k a
    using sc that unfolding scanned_def by blast+
  have "allocated s p = None" for p using allocated_eq [OF wf, of p] T(1) by (metis option.exhaust)
  then have al: "allocated s = Map.empty" by (simp add: fun_eq_iff)
  have ff: "free_frames s r = free_cover T r" if "r < 32" for r using free_frames_eq [OF wf that] .
  have rc: "region_count s \<le> 32" using palloc_invD(6) [OF inv] .
  have "r < region_count s \<and> lo \<le> x \<and> x < hi \<and> frame_avail db x \<and> frame_tags db x = pr_tags (regions s r)"
    if rx: "r < 32" "x \<in> free_frames s r" for r x
  proof -
    obtain p k where "T p = Some (r, k, False)" "x \<in> block p k" using rx ff by (auto simp: free_cover_def)
    then show ?thesis using T(2-4) [of p r k False] by fastforce
  qed
  moreover have "\<exists>r<region_count s. x \<in> free_frames s r"
    if x: "lo \<le> x" "x < hi" "frame_avail db x" "\<not> tag_change db lo x" for x
  proof -
    obtain r where "r < region_count s" "x \<in> free_cover T r" using sc x unfolding scanned_def by blast
    then show ?thesis using ff [of r] rc by auto
  qed
  ultimately have "boot_regions db lo hi s" unfolding boot_regions_def by blast
  then show ?thesis using inv al by (auto simp: palloc_ok_def)
qed

lemma init_palloc_boot:
  assumes rng: "lo \<le> hi" "hi \<le> 2 ^ 52" "pfndb_offset db \<le> lo" "hi \<le> pfndb_limit db"
    and z: "\<not> frame_avail db 0" and cnt: "runs db lo hi \<le> 32"
  shows "\<exists>s. init_palloc db (palloc_reset lo hi) = Inr s \<and> palloc_ok s \<and> allocated s = Map.empty \<and> boot_regions db lo hi s"
proof -
  let ?s = "palloc_reset lo hi"
  have r: "reset_regions ?s = ?s" by (simp add: reset_regions_def palloc_reset_def cong: if_cong)
  have "scan_inv db lo lo False 0 0 ?s"
    using palloc_reset_inv [OF rng(2), of lo] unfolding scan_inv_def scanned_def
    by (auto simp: palloc_reset_def)
  from scan_all [OF this _ rng(1) _ cnt z rng(3,4)]
  obtain recording tag st s where loop: "init_palloc_loop [lo..<hi] False 0 0 db ?s = Inr (recording, tag, st, s)"
    and inv: "scan_inv db lo hi recording tag st s" and lim: "pfn_limit s = hi" by (auto simp: palloc_reset_def)
  have ip: "init_palloc db ?s = (if recording then
        ebind (init_region st (hi - st) (region_count s) tag s) (\<lambda>s. Inr (s\<lparr>region_count := region_count s + 1\<rparr>)) else Inr s)"
    using loop lim rng(1) unfolding init_palloc_def r by (simp add: palloc_reset_def)
  show ?thesis
  proof (cases recording)
    case True
    then obtain s' T L where "init_region st (hi - st) (region_count s) tag s = Inr s'"
      "palloc_inv (s'\<lparr>region_count := region_count s' + 1\<rparr>) T L" "scanned db lo hi (s'\<lparr>region_count := region_count s' + 1\<rparr>) T"
      using close_region [of db lo hi tag st s] inv lim cnt z by auto
    then show ?thesis using ip True scanned_boot by auto
  next
    case False
    then obtain T L where "palloc_inv s T L" "scanned db lo hi s T" using inv by (auto simp: scan_inv_def)
    then show ?thesis using ip False scanned_boot by auto
  qed
qed

text \<open>
  Any sequence of requests and releases. A release is of a frame that is the first of an allocated
  block; a request may be of any size up to the largest block.
\<close>

inductive palloc_step :: "palloc_state \<Rightarrow> palloc_state \<Rightarrow> bool" where
  alloc: "0 \<le> count \<Longrightarrow> count \<le> 2 ^ 15 \<Longrightarrow> palloc count s = Inr (s', p) \<Longrightarrow> palloc_step s s'"
| release: "allocated s p = Some k \<Longrightarrow> pfree p s = Inr (s', n) \<Longrightarrow> palloc_step s s'"

inductive palloc_reach :: "palloc_state \<Rightarrow> palloc_state \<Rightarrow> bool" where
  refl: "palloc_reach s s"
| step: "palloc_reach s s' \<Longrightarrow> palloc_step s' s'' \<Longrightarrow> palloc_reach s s''"

inductive_cases palloc_stepE: "palloc_step s s'"

definition managed :: "palloc_state \<Rightarrow> nat set" where
  "managed s = (\<Union>r<MAX_PALLOC_REGION_COUNT. free_frames s r) \<union> (\<Union>p\<in>dom (allocated s). block p (the (allocated s p)))"

lemma managed_iff:
  "x \<in> managed s \<longleftrightarrow> (\<exists>r<32. x \<in> free_frames s r) \<or> (\<exists>p k. allocated s p = Some k \<and> x \<in> block p k)"
  unfolding managed_def by force

lemma ex_map_upd: "m p = None \<Longrightarrow> (\<exists>q j. (m(p \<mapsto> k)) q = Some j \<and> P q j) \<longleftrightarrow> P p k \<or> (\<exists>q j. m q = Some j \<and> P q j)"
  by (metis fun_upd_apply option.discI option.inject)

lemma palloc_ok_alloc_region: "palloc_ok s \<Longrightarrow> allocated s p = Some k \<Longrightarrow> pn_region (nodes s p) < 32"
proof -
  assume ok: "palloc_ok s" and p: "allocated s p = Some k"
  obtain T L where wf: "palloc_wf s T L" using palloc_okE [OF ok] .
  obtain r where T: "T p = Some (r, k, True)" using p allocated_eq [OF wf] by blast
  show ?thesis using tile_node(2) [OF wf T] tilingD(6) [OF palloc_wfD(1) [OF wf] T] by simp
qed

lemma managed_taken:
  assumes "block_taken s s' r k p" "r < 32" shows "managed s' = managed s"
proof (rule set_eqI)
  fix x
  note B = assms(1) [unfolded block_taken_def]
  have f: "free_frames s' r' = (if r' = r then free_frames s r - block p k else free_frames s r')" if "r' < 32" for r'
    using B that by blast
  have a: "(\<exists>q j. allocated s' q = Some j \<and> x \<in> block q j) \<longleftrightarrow> x \<in> block p k \<or> (\<exists>q j. allocated s q = Some j \<and> x \<in> block q j)"
    using B ex_map_upd [of "allocated s" p k "\<lambda>q j. x \<in> block q j"] by simp
  have sub: "x \<in> block p k \<Longrightarrow> x \<in> free_frames s r" using B by blast
  show "x \<in> managed s' \<longleftrightarrow> x \<in> managed s"
    unfolding managed_iff a using f sub assms(2) by (metis DiffE DiffI)
qed

lemma managed_step:
  assumes ok: "palloc_ok s" and st: "palloc_step s s'"
  shows "palloc_ok s' \<and> managed s' = managed s"
  using st
proof cases
  case (alloc count p)
  obtain k where k: "calc_palloc_order count = Inr k" "k \<le> 15" using calc_palloc_order_correct [OF alloc(1,2)] by blast
  from palloc_outcome [OF ok k] show ?thesis
    using alloc(3) palloc_ok_region_count [OF ok] managed_taken unfolding alloc_outcome_def by fastforce
next
  case (release p k n)
  obtain s1 where s1: "pfree p s = Inr (s1, 2 ^ k)" "palloc_ok s1" "allocated s1 = (allocated s)(p := None)"
     "\<forall>r<32. free_frames s1 r = (if r = pn_region (nodes s p) then free_frames s r \<union> block p k else free_frames s r)"
    using pfree_spec [OF ok release(1)] by blast
  have r: "pn_region (nodes s p) < 32" using palloc_ok_alloc_region [OF ok release(1)] .
  have "managed s1 = managed s"
  proof (rule set_eqI)
    fix x
    have "(\<exists>q j. allocated s q = Some j \<and> x \<in> block q j) \<longleftrightarrow> x \<in> block p k \<or> (\<exists>q j. allocated s1 q = Some j \<and> x \<in> block q j)"
      using release(1) s1(3) ex_map_upd [of "allocated s1" p k "\<lambda>q j. x \<in> block q j"] by (simp add: fun_upd_idem)
    then show "x \<in> managed s1 \<longleftrightarrow> x \<in> managed s" unfolding managed_iff using s1(4) r by (metis UnE UnI1 UnI2)
  qed
  then show ?thesis using s1 release(2) by auto
qed

lemma managed_reach: "palloc_reach s s' \<Longrightarrow> palloc_ok s \<Longrightarrow> palloc_ok s' \<and> managed s' = managed s"
  by (induction rule: palloc_reach.induct) (auto dest: managed_step)

text \<open>
  What a client of the allocator can know: the ledger of the frames it was given, with the number of
  pages it asked for, and has not given back. It is kept from the results of the calls alone.
\<close>

inductive ledger :: "palloc_state \<Rightarrow> palloc_state \<Rightarrow> (nat \<rightharpoonup> int) \<Rightarrow> bool" for s0 where
  start: "ledger s0 s0 Map.empty"
| got: "ledger s0 s m \<Longrightarrow> 0 \<le> count \<Longrightarrow> count \<le> 2 ^ 15 \<Longrightarrow> palloc count s = Inr (s', p) \<Longrightarrow>
    ledger s0 s' (if p = 0 then m else m(p \<mapsto> count))"
| gave: "ledger s0 s m \<Longrightarrow> m p = Some count \<Longrightarrow> pfree p s = Inr (s', n) \<Longrightarrow> ledger s0 s' (m(p := None))"

text \<open>The pages that a request for \<open>count\<close> pages takes.\<close>

definition rounded :: "int \<Rightarrow> nat" where
  "rounded count = (case calc_palloc_order count of Inr k \<Rightarrow> 2 ^ k | Inl _ \<Rightarrow> 0)"

definition booked :: "palloc_state \<Rightarrow> palloc_state \<Rightarrow> (nat \<rightharpoonup> int) \<Rightarrow> bool" where
  "booked s0 s m \<longleftrightarrow>
     (\<forall>p. case m p of None \<Rightarrow> allocated s p = allocated s0 p
        | Some count \<Rightarrow> allocated s0 p = None \<and> (\<exists>k. calc_palloc_order count = Inr k \<and> count \<le> 2 ^ k \<and> allocated s p = Some k))"

lemma bookedD:
  assumes "booked s0 s m"
  shows "m p = None \<Longrightarrow> allocated s p = allocated s0 p"
    "m p = Some count \<Longrightarrow> allocated s0 p = None \<and> (\<exists>k. calc_palloc_order count = Inr k \<and> count \<le> 2 ^ k \<and> allocated s p = Some k)"
  using assms [unfolded booked_def, rule_format, of p] by simp_all

lemma ledger_inv:
  assumes ok0: "palloc_ok s0"
  shows "ledger s0 s m \<Longrightarrow> palloc_ok s \<and> managed s = managed s0 \<and> booked s0 s m"
proof (induction rule: ledger.induct)
  case start
  then show ?case using ok0 by (simp add: booked_def)
next
  case (got s m count s' p)
  then have ok: "palloc_ok s" and man: "managed s = managed s0" and bk: "booked s0 s m" by blast+
  have st: "palloc_ok s' \<and> managed s' = managed s" using managed_step [OF ok palloc_step.alloc [OF got(2-4)]] .
  obtain k where k: "calc_palloc_order count = Inr k" "k \<le> 15" "count \<le> 2 ^ k"
    using calc_palloc_order_correct [OF got(2,3)] by blast
  consider "p = 0" "s' = s" | r where "p \<noteq> 0" "block_taken s s' r k p"
    using palloc_outcome [OF ok k(1,2)] got(4) by (auto simp: alloc_outcome_def block_taken_def)
  then have "booked s0 s' (if p = 0 then m else m(p \<mapsto> count))"
  proof cases
    case 2
    have a: "allocated s p = None" "allocated s' = (allocated s)(p \<mapsto> k)" using 2(2) by (simp_all add: block_taken_def)
    have "m p = None" using bookedD(2) [OF bk, of p] a(1) by (cases "m p") auto
    then have "allocated s0 p = None" using bookedD(1) [OF bk] a(1) by simp
    then have "case (m(p \<mapsto> count)) q of None \<Rightarrow> allocated s' q = allocated s0 q
        | Some c \<Rightarrow> allocated s0 q = None \<and> (\<exists>k. calc_palloc_order c = Inr k \<and> c \<le> 2 ^ k \<and> allocated s' q = Some k)" for q
      using bookedD [OF bk, of q] a(2) k by (cases "q = p"; cases "m q") auto
    then show ?thesis using 2(1) by (simp add: booked_def)
  qed (use bk in simp)
  then show ?case using st man by simp
next
  case (gave s m p count s' n)
  then have ok: "palloc_ok s" and man: "managed s = managed s0" and bk: "booked s0 s m" by blast+
  obtain k where k: "allocated s0 p = None" "allocated s p = Some k" using bookedD(2) [OF bk gave(2)] by blast
  have st: "palloc_ok s' \<and> managed s' = managed s" using managed_step [OF ok palloc_step.release [OF k(2) gave(3)]] .
  have "allocated s' = (allocated s)(p := None)" using pfree_spec [OF ok k(2)] gave(3) by auto
  then have "case (m(p := None)) q of None \<Rightarrow> allocated s' q = allocated s0 q
      | Some c \<Rightarrow> allocated s0 q = None \<and> (\<exists>k. calc_palloc_order c = Inr k \<and> c \<le> 2 ^ k \<and> allocated s' q = Some k)" for q
    using bookedD [OF bk, of q] k(1) by (cases "q = p"; cases "m q") auto
  then have "booked s0 s' (m(p := None))" unfolding booked_def by blast
  then show ?case using st man by blast
qed

lemma stats_exact: "palloc_ok s \<Longrightarrow> finite (dom (allocated s)) \<and> snd (palloc_stats_page s) = of_nat (\<Sum>p\<in>dom (allocated s). 2 ^ the (allocated s p))"
proof -
  assume ok: "palloc_ok s"
  obtain T L where inv: "palloc_inv s T L" and wf: "palloc_wf s T L" using palloc_okE [OF ok] .
  have dom: "dom (allocated s) = {q. \<exists>r k. T q = Some (r, k, True)}"
    using allocated_eq [OF wf] by (auto simp: dom_def)
  have "(\<Sum>q\<in>dom (allocated s). 2 ^ the (allocated s q)) = alloc_pages T"
    unfolding alloc_pages_def dom
  proof (rule sum.cong)
    fix q assume "q \<in> {q. \<exists>r k. T q = Some (r, k, True)}"
    then obtain r j where "T q = Some (r, j, True)" by blast
    then show "2 ^ the (allocated s q) = (2::nat) ^ fst (snd (the (T q)))" using allocated_eq [OF wf, of q j] by simp
  qed simp
  moreover have "dom (allocated s) \<subseteq> {..<pfn_limit s}"
  proof
    fix p assume "p \<in> dom (allocated s)"
    then obtain k where "allocated s p = Some k" by blast
    then have "p + 2 ^ k \<le> pfn_limit s" using palloc_ok_disjoint(6) [OF ok] by blast
    moreover have "(0 :: nat) < 2 ^ k" by simp
    ultimately show "p \<in> {..<pfn_limit s}" unfolding lessThan_iff by linarith
  qed
  ultimately show ?thesis
    using palloc_invD(4) [OF inv] finite_subset [OF _ finite_lessThan] by (auto simp: palloc_stats_page_def)
qed

lemma booked_pages:
  assumes ok: "palloc_ok s0" "palloc_ok s" and bk: "booked s0 s m"
  shows "snd (palloc_stats_page s) = snd (palloc_stats_page s0) + of_nat (\<Sum>p\<in>dom m. rounded (the (m p)))"
proof -
  note f = stats_exact [OF ok(1)] stats_exact [OF ok(2)]
  have dom: "dom (allocated s) = dom (allocated s0) \<union> dom m" "dom (allocated s0) \<inter> dom m = {}"
    using bookedD [OF bk] by (fastforce simp: dom_def)+
  have fin: "finite (dom m)" using f(2) dom(1) by simp
  have old: "(\<Sum>p\<in>dom (allocated s0). 2 ^ the (allocated s p)) = (\<Sum>p\<in>dom (allocated s0). (2 :: nat) ^ the (allocated s0 p))"
  proof (rule sum.cong)
    fix p assume "p \<in> dom (allocated s0)"
    then have "m p = None" using dom(2) by auto
    then show "2 ^ the (allocated s p) = (2 :: nat) ^ the (allocated s0 p)" using bookedD(1) [OF bk] by simp
  qed simp
  have new: "(\<Sum>p\<in>dom m. 2 ^ the (allocated s p)) = (\<Sum>p\<in>dom m. rounded (the (m p)))"
  proof (rule sum.cong)
    fix p assume "p \<in> dom m"
    then obtain c where "m p = Some c" by blast
    then show "2 ^ the (allocated s p) = rounded (the (m p))" using bookedD(2) [OF bk, of p c] by (auto simp: rounded_def)
  qed simp
  show ?thesis using f fin dom(2) old new by (simp add: dom(1) sum.union_disjoint)
qed

lemma boot_managed:
  assumes "boot_regions db lo hi s" "allocated s = Map.empty"
  shows "managed s \<subseteq> {p. lo \<le> p \<and> p < hi \<and> frame_avail db p}"
  using assms unfolding boot_regions_def by (auto simp: managed_iff)

section \<open>Properties\<close>

text \<open>
  C7: Starting the page allocator from the page frame database gives a state that satisfies the
  allocator's invariant with nothing allocated. Every free frame is available according to the
  database and carries its region's tags, and every available frame is free in some region, except a
  frame at which the tags change inside a run of available frames. This needs at most 32 runs, one
  region being used for each.
\<close>

theorem init_palloc_correct:
  assumes "lo \<le> hi" "hi \<le> 2 ^ 52" "pfndb_offset db \<le> lo" "hi \<le> pfndb_limit db"
    and "\<not> frame_avail db 0" "runs db lo hi \<le> MAX_PALLOC_REGION_COUNT"
  shows "\<exists>s. init_palloc db (palloc_reset lo hi) = Inr s \<and> palloc_ok s \<and> allocated s = Map.empty \<and> boot_regions db lo hi s"
  using assms by (rule init_palloc_boot)

definition demo_db :: pfn_state where
  "demo_db = demo_pfn\<lparr>pfndb := (\<lambda>p. if 2 \<le> p \<and> p < 9 then
       \<lparr>pe_usable = True, pe_mapped = True, pe_tags = (if p < 5 then 1 else 3), pe_inuse = False, pe_zeroed = False,
        pe_kernel = False, pe_swappable = True\<rparr> else hole_entry)\<rparr>"

lemma demo_db_avail: "frame_avail demo_db p \<longleftrightarrow> 2 \<le> p \<and> p < 9"
  by (simp add: frame_avail_def demo_db_def hole_entry_def)

lemma demo_db_runs: "runs demo_db 1 12 \<le> 32"
proof -
  have "{p. 1 \<le> p \<and> p < 12 \<and> run_start demo_db 1 p} \<subseteq> {1..<12}" by auto
  then have "runs demo_db 1 12 \<le> card {1..<12::nat}" unfolding runs_def by (intro card_mono) auto
  then show ?thesis by simp
qed

lemma demo_db_ok: "pfndb_offset demo_db \<le> 1" "12 \<le> pfndb_limit demo_db" "\<not> frame_avail demo_db 0"
  by (simp_all add: demo_db_def demo_pfn_def frame_avail_def hole_entry_def)

theorem init_palloc_correct_witness:
  "\<exists>s. init_palloc demo_db (palloc_reset 1 12) = Inr s \<and> palloc_ok s \<and> (\<exists>r. 4 \<in> free_frames s r) \<and> 9 \<notin> free_frames s 0"
proof -
  obtain s where s: "init_palloc demo_db (palloc_reset 1 12) = Inr s" "palloc_ok s" "boot_regions demo_db 1 12 s"
    using init_palloc_correct [OF _ _ demo_db_ok demo_db_runs] by auto
  have "\<not> tag_change demo_db 1 4" by (simp add: tag_change_def demo_db_def)
  then have "\<exists>r<region_count s. 4 \<in> free_frames s r"
    using s(3) demo_db_avail [of 4] unfolding boot_regions_def by simp
  moreover have "9 \<notin> free_frames s 0"
  proof
    assume "9 \<in> free_frames s 0"
    then have "frame_avail demo_db 9" using s(3) unfolding boot_regions_def by (metis zero_less_numeral)
    then show False using demo_db_avail [of 9] by simp
  qed
  ultimately show ?thesis using s by blast
qed

text \<open>
  C3: No two blocks in a client's hands overlap, whatever sequence of requests and releases came before
  and whoever else holds memory: counting from any state that satisfies the invariant, the frames a
  client was given by \<^verbatim>\<open>palloc\<close> and has not given back to \<^verbatim>\<open>pfree\<close> are different for different blocks, were all free
  at the start, and are free no longer; a further request does not fault, each block can be given
  back, and the statistics have grown by exactly the pages of the blocks held.
\<close>

theorem palloc_no_overlap:
  assumes "palloc_ok s0" "ledger s0 s m"
  shows "(\<forall>p c q d. m p = Some c \<and> m q = Some d \<and> p \<noteq> q \<longrightarrow> {p..<p + nat c} \<inter> {q..<q + nat d} = {}) \<and>
     (\<forall>p c. m p = Some c \<longrightarrow> {p..<p + nat c} \<subseteq> (\<Union>r<32. free_frames s0 r) \<and> {p..<p + nat c} \<inter> (\<Union>r<32. free_frames s r) = {} \<and>
        (\<exists>s' n. pfree p s = Inr (s', n) \<and> c \<le> int n)) \<and>
     (\<forall>count. 0 \<le> count \<and> count \<le> 2 ^ 15 \<longrightarrow> (\<exists>s' p. palloc count s = Inr (s', p))) \<and>
     snd (palloc_stats_page s) = snd (palloc_stats_page s0) + of_nat (\<Sum>p\<in>dom m. rounded (the (m p)))"
proof -
  have ok: "palloc_ok s" and man: "managed s = managed s0" and bk: "booked s0 s m" using ledger_inv [OF assms] by blast+
  have blk: "\<exists>k. allocated s p = Some k \<and> {p..<p + nat c} \<subseteq> block p k \<and> c \<le> 2 ^ k" if m: "m p = Some c" for p c
  proof -
    obtain k where k: "allocated s p = Some k" "c \<le> 2 ^ k" using bookedD(2) [OF bk m] by blast
    then have "nat c \<le> 2 ^ k" by (simp add: nat_le_iff)
    then show ?thesis using k by (auto simp: block_def)
  qed
  have apart: "{p..<p + nat c} \<inter> {q..<q + nat d} = {}" if a: "m p = Some c" "m q = Some d" "p \<noteq> q" for p c q d
  proof -
    obtain k j where kj: "allocated s p = Some k" "{p..<p + nat c} \<subseteq> block p k" "allocated s q = Some j" "{q..<q + nat d} \<subseteq> block q j"
      using blk [OF a(1)] blk [OF a(2)] by blast
    then show ?thesis using palloc_ok_disjoint(1) [OF ok kj(1,3) a(3)] by blast
  qed
  have was: "{p..<p + nat c} \<subseteq> (\<Union>r<32. free_frames s0 r)" if m: "m p = Some c" for p c
  proof
    fix x assume "x \<in> {p..<p + nat c}"
    then obtain k where k: "allocated s p = Some k" "x \<in> block p k" using blk [OF m] by blast
    then have "x \<in> managed s" by (auto simp: managed_iff)
    then have "x \<in> managed s0" using man by simp
    moreover have "x \<notin> block q j" if "allocated s0 q = Some j" for q j
    proof -
      have "m q = None" using bookedD(2) [OF bk, of q] that by (cases "m q") auto
      then have "allocated s q = Some j" "q \<noteq> p" using bookedD(1) [OF bk] that m by auto
      then show ?thesis using palloc_ok_disjoint(1) [OF ok k(1)] k(2) by blast
    qed
    ultimately show "x \<in> (\<Union>r<32. free_frames s0 r)" by (auto simp: managed_iff)
  qed
  have taken: "{p..<p + nat c} \<inter> (\<Union>r<32. free_frames s r) = {}" if m: "m p = Some c" for p c
  proof -
    obtain k where k: "allocated s p = Some k" "{p..<p + nat c} \<subseteq> block p k" using blk [OF m] by blast
    then show ?thesis using palloc_ok_disjoint(2) [OF ok k(1)] by blast
  qed
  have releases: "\<exists>s' n. pfree p s = Inr (s', n) \<and> c \<le> int n" if m: "m p = Some c" for p c
  proof -
    obtain k where k: "allocated s p = Some k" "c \<le> 2 ^ k" using blk [OF m] by blast
    obtain s' where "pfree p s = Inr (s', 2 ^ k)" using pfree_spec [OF ok k(1)] by blast
    then show ?thesis using k(2) by auto
  qed
  show ?thesis
  proof (intro conjI allI impI)
    fix count :: int assume "0 \<le> count \<and> count \<le> 2 ^ 15"
    then show "\<exists>s' p. palloc count s = Inr (s', p)" using frames.alloc_law [OF ok] by blast
  next
    fix p c q d assume "m p = Some c \<and> m q = Some d \<and> p \<noteq> q"
    then show "{p..<p + nat c} \<inter> {q..<q + nat d} = {}" using apart by blast
  qed (use was taken releases booked_pages [OF assms(1) ok bk] in simp_all)
qed

text \<open>Two blocks out of seven frames.\<close>

theorem palloc_no_overlap_witness:
  "\<exists>s1 p s2 q. palloc 2 demo_palloc = Inr (s1, p) \<and> palloc 2 s1 = Inr (s2, q) \<and> p \<noteq> 0 \<and> q \<noteq> 0 \<and> {p..<p + 2} \<inter> {q..<q + 2} = {}"
proof -
  have ord: "calc_palloc_order 2 = Inr 1" by code_simp
  have can: "\<exists>b. 2 dvd b \<and> block b 1 \<subseteq> {1..<8} - block p 1" for p
  proof (cases "p = 3 \<or> p = 4 \<or> p = 5")
    case True
    then show ?thesis
    proof (cases "p = 3")
      case True
      then show ?thesis by (intro exI [of _ 6]) (auto simp: block_def)
    next
      case False
      then show ?thesis using True by (intro exI [of _ 2]) (auto simp: block_def)
    qed
  next
    case False
    then show ?thesis by (intro exI [of _ 4]) (auto simp: block_def)
  qed
  have "can_alloc demo_palloc 0 1" unfolding can_alloc_def demo_palloc_free by (intro conjI exI [of _ 4]) (auto simp: block_def)
  then obtain s1 p where p: "palloc 2 demo_palloc = Inr (s1, p)" "palloc_ok s1" "region_env s1 = region_env demo_palloc" "block_taken demo_palloc s1 0 1 p"
    using palloc_outcome [OF demo_palloc_ok ord] by (auto simp: alloc_outcome_def)
  have "free_frames s1 0 = {1..<8} - block p 1" using p(4) by (simp add: block_taken_def demo_palloc_free)
  then have "can_alloc s1 0 1" "region_count s1 = 1" using can [of p] p(3) by (simp_all add: can_alloc_def region_env_def)
  then obtain s2 q where q: "palloc 2 s1 = Inr (s2, q)" "block_taken s1 s2 0 1 q"
    using palloc_outcome [OF p(2) ord] by (auto simp: alloc_outcome_def)
  have ne: "p \<noteq> 0" "q \<noteq> 0" "p \<noteq> q" using p(4) q(2) by (auto simp: block_taken_def)
  have "ledger demo_palloc s1 [p \<mapsto> 2]" using ledger.got [OF ledger.start _ _ p(1)] ne(1) by simp
  then have "ledger demo_palloc s2 [p \<mapsto> 2, q \<mapsto> 2]" using ledger.got [OF _ _ _ q(1), of demo_palloc "[p \<mapsto> 2]"] ne(2) by simp
  from palloc_no_overlap [OF demo_palloc_ok this, THEN conjunct1, rule_format, of p 2 q 2]
  have "{p..<p + nat 2} \<inter> {q..<q + nat 2} = {}" using ne(3) by simp
  then show ?thesis using p(1) q(1) ne by auto
qed

text \<open>
  C1: Whatever requests and releases follow start-up, the allocator never hands out memory that the
  page frame database does not list as usable and free: in every reachable state each frame of each
  allocated block lies in the managed range and was available at start-up, and frame 0 is never
  allocated.
\<close>

theorem palloc_boot_safe:
  assumes "lo \<le> hi" "hi \<le> 2 ^ 52" "pfndb_offset db \<le> lo" "hi \<le> pfndb_limit db"
    and "\<not> frame_avail db 0" "runs db lo hi \<le> MAX_PALLOC_REGION_COUNT"
    and "init_palloc db (palloc_reset lo hi) = Inr s" "palloc_reach s s'" "allocated s' p = Some k" "x \<in> block p k"
  shows "frame_avail db x \<and> lo \<le> x \<and> x < hi \<and> x \<noteq> 0"
proof -
  have s: "palloc_ok s" "allocated s = Map.empty" "boot_regions db lo hi s"
    using init_palloc_boot [OF assms(1-6)] assms(7) by auto
  have "x \<in> managed s'" using assms(9,10) by (auto simp: managed_iff)
  then have "x \<in> managed s" using managed_reach [OF assms(8) s(1)] by simp
  then have "lo \<le> x \<and> x < hi \<and> frame_avail db x" using boot_managed [OF s(3,2)] by auto
  then show ?thesis using assms(5) by (cases "x = 0") auto
qed

theorem palloc_boot_safe_witness:
  "\<exists>s s' p. init_palloc demo_db (palloc_reset 1 12) = Inr s \<and> palloc 1 s = Inr (s', p) \<and>
     (\<forall>k. allocated s' p = Some k \<longrightarrow> 2 \<le> p \<and> p < 9)"
proof -
  obtain s where s: "init_palloc demo_db (palloc_reset 1 12) = Inr s" "palloc_ok s"
    using init_palloc_boot [OF _ _ demo_db_ok demo_db_runs] by auto
  obtain s' p where p: "palloc 1 s = Inr (s', p)" using frames.alloc_law [OF s(2), of 1] by auto
  have "palloc_reach s s'" using palloc_step.alloc [OF _ _ p] by (auto intro: palloc_reach.intros)
  then have "2 \<le> p \<and> p < 9" if "allocated s' p = Some k" for k
    using palloc_boot_safe [OF _ _ demo_db_ok demo_db_runs s(1) _ that head_in_block] demo_db_avail [of p] by simp
  then show ?thesis using s(1) p by blast
qed

end
