(* ===== verification/Kid.thy ===== *)
theory Kid
  imports Palloc_Client
begin

text \<open>
  The identifier allocator, \<^verbatim>\<open>kernel/struct/id.c\<close>, and its client, the allocator of address space
  identifiers, \<^verbatim>\<open>kernel/proc/asid.c\<close>. Free identifiers are bits of a tree of bitmaps with up to three
  levels of 64-way words; a bit of an inner level says that the word below it is not zero.

  Indices into the bitmaps are natural numbers; identifiers and counters are machine words. A shift by
  64 and an access outside the bitmaps are \<open>Inl Undefined\<close>. The allocator is a value here, so the test of
  \<^verbatim>\<open>id_free\<close> for a null pointer has no counterpart.
\<close>

section \<open>The object and its bitmaps\<close>

record id_obj =
  id_base :: ulong
  id_range :: ulong
  alloc_count :: ulong
  mask1 :: ulong
  mask2 :: "nat \<Rightarrow> ulong"
  mask3 :: "nat \<Rightarrow> ulong"
  num_levels :: nat
  id_locked :: bool

abbreviation (input) NUM_BITS_PER_MAP :: nat where "NUM_BITS_PER_MAP \<equiv> 64"
abbreviation (input) MAX_NUM_BITS_L1 :: nat where "MAX_NUM_BITS_L1 \<equiv> 64"
abbreviation (input) MAX_NUM_BITS_L2 :: nat where "MAX_NUM_BITS_L2 \<equiv> 4096"
abbreviation (input) MAX_NUM_BITS_L3 :: nat where "MAX_NUM_BITS_L3 \<equiv> 262144"

text \<open>
  \<^verbatim>\<open>obj->bitmaps[level][idx]\<close>: one word at level 1, 64 words at level 2, and at level 3 the words of
  the pages that \<^verbatim>\<open>_create_l3\<close> allocates.
\<close>

definition bitmap_words :: "nat \<Rightarrow> nat" where
  "bitmap_words level = (if level = 1 then 1 else if level = 2 then 64 else if level = 3 then 32768 else 0)"

definition bitmap_word :: "id_obj \<Rightarrow> nat \<Rightarrow> nat \<Rightarrow> ulong" where
  "bitmap_word obj level idx =
     (if level = 1 then (if idx = 0 then mask1 obj else 0) else if level = 2 then mask2 obj idx else mask3 obj idx)"

definition bitmap_at :: "id_obj \<Rightarrow> nat \<Rightarrow> nat \<Rightarrow> ulong res" where
  "bitmap_at obj level idx = (if idx < bitmap_words level then Inr (bitmap_word obj level idx) else Inl Undefined)"

definition set_bitmap :: "nat \<Rightarrow> nat \<Rightarrow> ulong \<Rightarrow> id_obj \<Rightarrow> id_obj" where
  "set_bitmap level idx v obj =
     (if level = 1 then obj\<lparr>mask1 := v\<rparr>
      else if level = 2 then obj\<lparr>mask2 := (mask2 obj)(idx := v)\<rparr>
      else obj\<lparr>mask3 := (mask3 obj)(idx := v)\<rparr>)"

section \<open>Creation\<close>

definition low_mask :: "nat \<Rightarrow> ulong res" where
  "low_mask count = (if 64 \<le> count then Inl Undefined else Inr (push_bit count 1 - 1))"

definition create_l1 :: "id_obj \<Rightarrow> id_obj res" where
  "create_l1 obj =
     ebind (low_mask (unat (id_range obj))) (\<lambda>m. Inr (obj\<lparr>num_levels := 1, mask1 := m\<rparr>))"

text \<open>The mask of one leaf word, and how many identifiers are left after it.\<close>

definition leaf_mask :: "nat \<Rightarrow> ulong \<times> nat" where
  "leaf_mask count =
     (if NUM_BITS_PER_MAP \<le> count then (- 1, count - NUM_BITS_PER_MAP) else (push_bit count 1 - 1, 0))"

function create_l2_loop :: "nat \<Rightarrow> nat \<Rightarrow> id_obj \<Rightarrow> id_obj res" where
  "create_l2_loop l2idx count obj =
     (if count = 0 then Inr obj
      else if bitmap_words 2 \<le> l2idx then Inl Undefined
      else let (m, left) = leaf_mask count;
               obj = set_bitmap 2 l2idx m obj;
               obj = obj\<lparr>mask1 := mask1 obj OR push_bit l2idx 1\<rparr>
           in create_l2_loop (l2idx + 1) left obj)"
  by auto
termination
  by (relation "measure (\<lambda>(_, count, _). count)") (auto simp: leaf_mask_def split: if_splits)

definition create_l2 :: "id_obj \<Rightarrow> id_obj res" where
  "create_l2 obj = create_l2_loop 0 (unat (id_range obj)) (obj\<lparr>num_levels := 2\<rparr>)"

function create_l3_loop :: "nat \<Rightarrow> nat \<Rightarrow> id_obj \<Rightarrow> id_obj res" where
  "create_l3_loop l3idx count obj =
     (if count = 0 then Inr obj
      else if bitmap_words 3 \<le> l3idx \<or> bitmap_words 2 \<le> l3idx div 64 then Inl Undefined
      else let (m, left) = leaf_mask count;
               obj = set_bitmap 3 l3idx m obj;
               l2idx = l3idx div NUM_BITS_PER_MAP; l2pos = l3idx mod NUM_BITS_PER_MAP;
               obj = set_bitmap 2 l2idx (mask2 obj l2idx OR push_bit l2pos 1) obj;
               obj = obj\<lparr>mask1 := mask1 obj OR push_bit l2idx 1\<rparr>
           in create_l3_loop (l3idx + 1) left obj)"
  by auto
termination
  by (relation "measure (\<lambda>(_, count, _). count)") (auto simp: leaf_mask_def split: if_splits)

declare create_l2_loop.simps [simp del] create_l3_loop.simps [simp del]

text \<open>
  The pages of the third level come from the page allocator and are not cleared: \<open>garbage\<close> is what
  they contain. 64 pages hold the 32768 words.
\<close>

definition create_l3 :: "(u64 \<Rightarrow> ulong) \<Rightarrow> (nat \<Rightarrow> ulong) \<Rightarrow> palloc_state \<Rightarrow> id_obj \<Rightarrow> (palloc_state \<times> id_obj) res" where
  "create_l3 hal_cast_paddr_to_kernel_ptr garbage ps obj =
     ebind (palloc_ptr hal_cast_paddr_to_kernel_ptr 64 ps) (\<lambda>(ps, ptr).
     if ptr = 0 then Inl Undefined
     else ebind (create_l3_loop 0 (unat (id_range obj)) (obj\<lparr>num_levels := 3, mask3 := garbage\<rparr>)) (\<lambda>obj. Inr (ps, obj)))"

definition id_alloc_create ::
  "(u64 \<Rightarrow> ulong) \<Rightarrow> (nat \<Rightarrow> ulong) \<Rightarrow> ulong \<Rightarrow> ulong \<Rightarrow> palloc_state \<Rightarrow> (palloc_state \<times> id_obj) res" where
  "id_alloc_create hal_cast_paddr_to_kernel_ptr garbage first_id last_id ps =
     (let obj = \<lparr>id_base = first_id, id_range = last_id - first_id + 1, alloc_count = 0, mask1 = 0, mask2 = (\<lambda>_. 0),
                 mask3 = (\<lambda>_. 0), num_levels = 0, id_locked = False\<rparr>;
          range = unat (id_range obj)
      in if range \<le> MAX_NUM_BITS_L1 then ebind (create_l1 obj) (\<lambda>obj. Inr (ps, obj))
         else if range \<le> MAX_NUM_BITS_L2 then ebind (create_l2 obj) (\<lambda>obj. Inr (ps, obj))
         else if range \<le> MAX_NUM_BITS_L3 then create_l3 hal_cast_paddr_to_kernel_ptr garbage ps obj
         else Inl Panic)"

section \<open>Allocation\<close>

text \<open>
  The way down the tree. The result is the index of the identifier, the index of the last word visited
  and the bit position in it.
\<close>

fun id_find :: "nat list \<Rightarrow> nat \<Rightarrow> nat \<Rightarrow> nat \<Rightarrow> id_obj \<Rightarrow> (nat \<times> nat \<times> nat) res" where
  "id_find [] bitmap_idx word_idx bitmap_pos obj = Inr (bitmap_idx, word_idx, bitmap_pos)"
| "id_find (level # levels) bitmap_idx word_idx bitmap_pos obj =
     ebind (bitmap_at obj level bitmap_idx) (\<lambda>bitmap.
     let pos = ctz bitmap in id_find levels (bitmap_idx * NUM_BITS_PER_MAP + pos) bitmap_idx pos obj)"

text \<open>The way up again while the words become zero.\<close>

fun id_clear :: "nat list \<Rightarrow> nat \<Rightarrow> id_obj \<Rightarrow> id_obj res" where
  "id_clear [] clear_idx obj = Inr obj"
| "id_clear (level # levels) clear_idx obj =
     (let bitmap_idx = clear_idx div NUM_BITS_PER_MAP; bitmap_pos = clear_idx mod NUM_BITS_PER_MAP in
      ebind (bitmap_at obj level bitmap_idx) (\<lambda>bitmap.
      let bitmap = bitmap AND NOT (push_bit bitmap_pos 1); obj = set_bitmap level bitmap_idx bitmap obj
      in if bitmap \<noteq> 0 then Inr obj else id_clear levels bitmap_idx obj))"

definition id_alloc :: "id_obj \<Rightarrow> (id_obj \<times> ulong) res" where
  "id_alloc obj =
     (if id_locked obj then Inl Deadlock
      else if alloc_count obj = id_range obj then Inr (obj, - 1)
      else
        ebind (id_find [1..<num_levels obj + 1] 0 0 0 obj) (\<lambda>(bitmap_idx, word_idx, bitmap_pos).
        if 64 \<le> bitmap_pos then Inl Undefined
        else
          let id = id_base obj + of_nat bitmap_idx;
              bitmap = bitmap_word obj (num_levels obj) word_idx AND NOT (push_bit bitmap_pos 1);
              obj = set_bitmap (num_levels obj) word_idx bitmap obj
          in ebind (if bitmap = 0 then id_clear (rev [1..<num_levels obj]) (bitmap_idx div NUM_BITS_PER_MAP) obj else Inr obj)
               (\<lambda>obj. Inr (obj, id))))"

section \<open>Release\<close>

fun id_mark :: "nat list \<Rightarrow> nat \<Rightarrow> id_obj \<Rightarrow> id_obj res" where
  "id_mark [] idx obj = Inr obj"
| "id_mark (level # levels) idx obj =
     (let bitmap_idx = idx div NUM_BITS_PER_MAP; msk = push_bit (idx mod NUM_BITS_PER_MAP) 1 in
      ebind (bitmap_at obj level bitmap_idx) (\<lambda>bitmap.
      panic_if (level = num_levels obj \<and> bitmap AND msk \<noteq> 0) (
      id_mark levels bitmap_idx (set_bitmap level bitmap_idx (bitmap OR msk) obj))))"

definition id_free :: "ulong \<Rightarrow> id_obj \<Rightarrow> id_obj res" where
  "id_free ident obj =
     (let idx = ident - id_base obj in
      panic_if (id_range obj \<le> idx) (
      if id_locked obj then Inl Deadlock
      else ebind (id_mark (rev [1..<num_levels obj + 1]) (unat idx) obj) (\<lambda>obj.
        Inr (obj\<lparr>alloc_count := alloc_count obj - 1\<rparr>))))"

section \<open>Address space identifiers\<close>

record asid_state =
  supports_asid :: bool
  asid_alloc :: id_obj

text \<open>The limit is what \<^verbatim>\<open>hal_get_asid_limit\<close> of the hardware abstraction layer returns.\<close>

definition init_asid ::
  "(u64 \<Rightarrow> ulong) \<Rightarrow> (nat \<Rightarrow> ulong) \<Rightarrow> ulong \<Rightarrow> palloc_state \<Rightarrow> asid_state \<Rightarrow> (palloc_state \<times> asid_state) res" where
  "init_asid hal_cast_paddr_to_kernel_ptr garbage hal_asid_limit ps s =
     (if hal_asid_limit = 0 then Inr (ps, s\<lparr>supports_asid := False\<rparr>)
      else ebind (id_alloc_create hal_cast_paddr_to_kernel_ptr garbage 1 (hal_asid_limit - 1) ps) (\<lambda>(ps, obj).
        Inr (ps, s\<lparr>asid_alloc := obj, supports_asid := True\<rparr>)))"

definition asid_supported :: "asid_state \<Rightarrow> bool" where
  "asid_supported s = supports_asid s"

definition alloc_asid :: "asid_state \<Rightarrow> (asid_state \<times> ulong) res" where
  "alloc_asid s =
     (if \<not> supports_asid s then Inr (s, 0)
      else ebind (id_alloc (asid_alloc s)) (\<lambda>(obj, asid).
        panic_if (sint asid \<le> 0) (Inr (s\<lparr>asid_alloc := obj\<rparr>, if sint asid > 0 then asid else 0))))"

definition free_asid :: "ulong \<Rightarrow> asid_state \<Rightarrow> asid_state res" where
  "free_asid asid s =
     (if \<not> supports_asid s \<or> asid = 0 then Inr s
      else ebind (id_free asid (asid_alloc s)) (\<lambda>obj. Inr (s\<lparr>asid_alloc := obj\<rparr>)))"

section \<open>Marks\<close>

text \<open>
  Bit \<open>i\<close> of a level, counted through all the words of the level. Words of the third level that lie
  beyond the range are never initialised and do not count.
\<close>

definition in_use :: "id_obj \<Rightarrow> nat \<Rightarrow> nat \<Rightarrow> bool" where
  "in_use obj lv w \<longleftrightarrow> lv = 3 \<longrightarrow> w * 64 < unat (id_range obj)"

definition mark :: "id_obj \<Rightarrow> nat \<Rightarrow> nat \<Rightarrow> bool" where
  "mark obj lv i \<longleftrightarrow> bit (bitmap_word obj lv (i div 64)) (i mod 64) \<and> in_use obj lv (i div 64)"

lemma index_eq_iff: "i div 64 = c div 64 \<and> i mod 64 = c mod 64 \<longleftrightarrow> i = (c :: nat)"
  by (metis div_mult_mod_eq)

lemma word_marks: "in_use obj lv w \<Longrightarrow> bitmap_word obj lv w \<noteq> 0 \<longleftrightarrow> (\<exists>j<64. mark obj lv (w * 64 + j))"
proof -
  assume u: "in_use obj lv w"
  have "bitmap_word obj lv w \<noteq> 0 \<longleftrightarrow> (\<exists>j<64. bit (bitmap_word obj lv w) j)"
    using bit_word_eqI [of "bitmap_word obj lv w" 0] by auto
  also have "\<dots> \<longleftrightarrow> (\<exists>j<64. mark obj lv (w * 64 + j))" using u by (auto simp: mark_def)
  finally show ?thesis .
qed

lemma set_bitmap_fields [simp]:
  "num_levels (set_bitmap lv w v obj) = num_levels obj" "id_range (set_bitmap lv w v obj) = id_range obj"
  "id_base (set_bitmap lv w v obj) = id_base obj" "alloc_count (set_bitmap lv w v obj) = alloc_count obj"
  "id_locked (set_bitmap lv w v obj) = id_locked obj"
  by (simp_all add: set_bitmap_def)

lemma in_use_simps [simp]:
  "in_use (set_bitmap lv w v obj) l k = in_use obj l k" "in_use obj (Suc 0) k" "in_use obj 2 k"
  by (simp_all add: in_use_def)

lemma mark_in_use: "mark obj lv i \<Longrightarrow> in_use obj lv (i div 64)"
  by (simp add: mark_def)

lemma bitmap_word_set:
  assumes "1 \<le> lv" "lv \<le> 3" "1 \<le> lv'" "lv' \<le> 3" "w < bitmap_words lv"
  shows "bitmap_word (set_bitmap lv w v obj) lv' k = (if lv' = lv \<and> k = w then v else bitmap_word obj lv' k)"
proof -
  consider "lv = 1" "w = 0" | "lv = 2" | "lv = 3" using assms by (fastforce simp: bitmap_words_def)
  then show ?thesis using assms(3,4) by cases (simp_all add: bitmap_word_def set_bitmap_def)
qed

lemma mark_set:
  assumes "1 \<le> lv" "lv \<le> 3" "1 \<le> lv'" "lv' \<le> 3" "c div 64 < bitmap_words lv" "in_use obj lv (c div 64)"
  shows "mark (set_bitmap lv (c div 64) (bitmap_word obj lv (c div 64) AND NOT (push_bit (c mod 64) 1)) obj) lv' i \<longleftrightarrow>
      mark obj lv' i \<and> \<not> (lv' = lv \<and> i = c)" (is ?clear)
    and "mark (set_bitmap lv (c div 64) (bitmap_word obj lv (c div 64) OR push_bit (c mod 64) 1) obj) lv' i \<longleftrightarrow>
      mark obj lv' i \<or> (lv' = lv \<and> i = c)" (is ?set)
proof -
  note w = bitmap_word_set [OF assms(1-5)]
  have b2: "bit (2 ^ (c mod 64) :: ulong) (i mod 64) \<longleftrightarrow> i mod 64 = c mod 64"
    by (auto simp: bit_exp_iff)
  have b1: "bit (NOT (2 ^ (c mod 64) :: ulong)) (i mod 64) \<longleftrightarrow> i mod 64 \<noteq> c mod 64"
    by (simp add: bit_not_iff b2)
  have same: "lv' = lv \<and> i = c \<longleftrightarrow> (lv' = lv \<and> i div 64 = c div 64) \<and> i mod 64 = c mod 64"
    using index_eq_iff [of i c] by blast
  show ?clear ?set
    unfolding mark_def w same using assms(6) by (auto simp: bit_and_iff bit_or_iff b1 b2)
qed

section \<open>The invariant\<close>

definition linked :: "id_obj \<Rightarrow> nat \<Rightarrow> bool" where
  "linked obj lv \<longleftrightarrow> (\<forall>i<64 ^ lv. mark obj lv i \<longleftrightarrow> (\<exists>j<64. mark obj (Suc lv) (i * 64 + j)))"

definition free_ids :: "id_obj \<Rightarrow> nat set" where
  "free_ids obj = {i. i < 64 ^ num_levels obj \<and> mark obj (num_levels obj) i}"

definition id_inv :: "id_obj \<Rightarrow> bool" where
  "id_inv obj \<longleftrightarrow> 1 \<le> num_levels obj \<and> num_levels obj \<le> 3 \<and> \<not> id_locked obj \<and>
     (\<forall>lv. 1 \<le> lv \<longrightarrow> lv < num_levels obj \<longrightarrow> linked obj lv) \<and>
     free_ids obj \<subseteq> {..<unat (id_range obj)} \<and> unat (id_range obj) \<le> 64 ^ num_levels obj"

definition id_head :: "id_obj \<Rightarrow> ulong \<times> ulong \<times> ulong \<times> nat \<times> bool" where
  "id_head obj = (id_base obj, id_range obj, alloc_count obj, num_levels obj, id_locked obj)"

lemma id_head_set_bitmap [simp]: "id_head (set_bitmap lv w v obj) = id_head obj"
  by (simp add: id_head_def)

lemma levels_cases: "1 \<le> lv \<Longrightarrow> lv \<le> 3 \<Longrightarrow> lv = 1 \<or> lv = 2 \<or> lv = (3::nat)"
  by linarith

lemma bitmap_at_ok: "1 \<le> lv \<Longrightarrow> lv \<le> 3 \<Longrightarrow> w < 64 ^ (lv - 1) \<Longrightarrow> bitmap_at obj lv w = Inr (bitmap_word obj lv w)"
  by (drule (1) levels_cases, elim disjE) (simp_all add: bitmap_at_def bitmap_words_def)

lemma bitmap_words_ok: "1 \<le> lv \<Longrightarrow> lv \<le> 3 \<Longrightarrow> w < 64 ^ (lv - 1) \<Longrightarrow> w < bitmap_words lv"
  by (drule (1) levels_cases, elim disjE) (simp_all add: bitmap_words_def)

lemma div_64_less: "c < 64 ^ lv \<Longrightarrow> 1 \<le> lv \<Longrightarrow> c div 64 < (64::nat) ^ (lv - 1)"
  by (cases lv) (simp_all add: less_mult_imp_div_less mult.commute)

section \<open>The way down finds the lowest free identifier\<close>

lemma lowest_mark:
  assumes idx: "idx < 64 ^ (lv - 1)" "bitmap_word obj lv idx \<noteq> 0" "1 \<le> lv" "in_use obj lv idx"
    and low: "\<forall>i<64 ^ lv. mark obj lv i \<longrightarrow> idx \<le> i div 64"
    and f: "f = idx * 64 + ctz (bitmap_word obj lv idx)"
  shows "f div 64 = idx" "f mod 64 = ctz (bitmap_word obj lv idx)" "f < 64 ^ lv" "mark obj lv f"
    "\<forall>i<64 ^ lv. mark obj lv i \<longrightarrow> f \<le> i"
proof -
  note c = ctz64_lowest_bit [OF idx(2), folded ctz_def]
  show fd: "f div 64 = idx" "f mod 64 = ctz (bitmap_word obj lv idx)" using c(1) by (simp_all add: f)
  show "mark obj lv f" using c(2) fd idx(4) by (simp add: mark_def)
  have up: "f < (idx + 1) * 64" using c(1) by (simp add: f)
  also have "\<dots> \<le> 64 ^ (lv - 1) * 64" using idx(1) by (intro mult_right_mono) auto
  also have "\<dots> = 64 ^ lv" using idx(3) by (cases lv) auto
  finally show "f < 64 ^ lv" .
  show "\<forall>i<64 ^ lv. mark obj lv i \<longrightarrow> f \<le> i"
  proof (intro allI impI)
    fix i assume i: "i < 64 ^ lv" "mark obj lv i"
    show "f \<le> i"
    proof (cases "i div 64 = idx")
      case True
      then have "\<not> i mod 64 < ctz (bitmap_word obj lv idx)" using i(2) c(3) by (auto simp: mark_def)
      then have "idx * 64 + ctz (bitmap_word obj lv idx) \<le> i div 64 * 64 + i mod 64" using True by simp
      then show ?thesis unfolding f by (simp only: div_mult_mod_eq)
    next
      case False
      moreover have "idx \<le> i div 64" using low i by blast
      ultimately have "(idx + 1) * 64 \<le> i div 64 * 64" by simp
      also have "\<dots> \<le> i" by (rule div_times_less_eq_dividend)
      finally show ?thesis using up by simp
    qed
  qed
qed

lemma id_find_min:
  assumes "1 \<le> lv" "lv \<le> n" "n \<le> 3" "idx < 64 ^ (lv - 1)" "bitmap_word obj lv idx \<noteq> 0"
    and "\<forall>i<64 ^ lv. mark obj lv i \<longrightarrow> idx \<le> i div 64" "in_use obj lv idx" "\<forall>l. lv \<le> l \<longrightarrow> l < n \<longrightarrow> linked obj l"
  shows "\<exists>f. id_find [lv..<Suc n] idx w p obj = Inr (f, f div 64, f mod 64) \<and> f < 64 ^ n \<and> mark obj n f \<and>
     (\<forall>i<64 ^ n. mark obj n i \<longrightarrow> f \<le> i)"
  using assms
proof (induction "n - lv" arbitrary: lv idx w p)
  case (0 lv idx w p)
  then have n: "lv = n" by simp
  note f = lowest_mark [OF 0(5,6,2,8,7) refl]
  have "id_find [lv..<Suc n] idx w p obj = Inr (idx * 64 + ctz (bitmap_word obj lv idx), idx, ctz (bitmap_word obj lv idx))"
    using 0(2,4,5) n bitmap_at_ok [of lv idx obj] by (simp add: Let_def)
  then show ?case using f n by auto
next
  case (Suc k lv idx w p)
  then have n: "lv < n" by simp
  define f where "f = idx * 64 + ctz (bitmap_word obj lv idx)"
  note m = lowest_mark [OF Suc(6,7,3,9,8) f_def]
  have ln: "linked obj lv" using Suc(10) n by blast
  have below: "\<exists>j<64. mark obj (Suc lv) (f * 64 + j)" using ln m(3,4) unfolding linked_def by blast
  then have u: "in_use obj (Suc lv) f" using mark_in_use by fastforce
  then have nz: "bitmap_word obj (Suc lv) f \<noteq> 0" using below by (simp only: word_marks)
  have low: "\<forall>i<64 ^ Suc lv. mark obj (Suc lv) i \<longrightarrow> f \<le> i div 64"
  proof (intro allI impI)
    fix i assume i: "i < 64 ^ Suc lv" "mark obj (Suc lv) i"
    have "i div 64 < 64 ^ lv" using div_64_less [OF i(1)] by simp
    moreover have "mark obj (Suc lv) (i div 64 * 64 + i mod 64)" using i(2) by (simp only: div_mult_mod_eq)
    then have "\<exists>j<64. mark obj (Suc lv) (i div 64 * 64 + j)" by (intro exI [of _ "i mod 64"]) simp
    ultimately have "mark obj lv (i div 64)" using ln unfolding linked_def by blast
    then show "f \<le> i div 64" using m(5) \<open>i div 64 < 64 ^ lv\<close> by blast
  qed
  have "id_find [lv..<Suc n] idx w p obj = id_find [Suc lv..<Suc n] f idx (ctz (bitmap_word obj lv idx)) obj"
    using Suc(3,5,6) n bitmap_at_ok [of lv idx obj] by (simp add: upt_conv_Cons Let_def f_def)
  moreover have "\<exists>f'. id_find [Suc lv..<Suc n] f idx (ctz (bitmap_word obj lv idx)) obj = Inr (f', f' div 64, f' mod 64) \<and>
     f' < 64 ^ n \<and> mark obj n f' \<and> (\<forall>i<64 ^ n. mark obj n i \<longrightarrow> f' \<le> i)"
    by (rule Suc(1)) (use Suc(2,5,10) n nz low m(3) u in auto)
  ultimately show ?case by simp
qed

section \<open>The way up\<close>

text \<open>
  Before the loop reaches level \<open>lv\<close>, the links are intact except that bit \<open>c\<close> of the level may be set
  although its word one level down has become zero. Clearing the bit of the identifier itself is the
  first round of the loop, at the lowest level.
\<close>

definition linked_but :: "id_obj \<Rightarrow> nat \<Rightarrow> nat \<Rightarrow> bool" where
  "linked_but obj lv c \<longleftrightarrow>
     (\<forall>l. 1 \<le> l \<longrightarrow> l < num_levels obj \<longrightarrow> l \<noteq> lv \<longrightarrow> linked obj l) \<and>
     (1 \<le> lv \<longrightarrow> lv < num_levels obj \<longrightarrow> (\<forall>i<64 ^ lv. i \<noteq> c \<longrightarrow> (mark obj lv i \<longleftrightarrow> (\<exists>j<64. mark obj (Suc lv) (i * 64 + j)))) \<and>
        (\<forall>j<64. \<not> mark obj (Suc lv) (c * 64 + j)))"

lemma id_linked_cong:
  "(\<And>i. mark obj' l i = mark obj l i) \<Longrightarrow> (\<And>i. mark obj' (Suc l) i = mark obj (Suc l) i) \<Longrightarrow> linked obj' l = linked obj l"
  by (simp add: linked_def)

lemma in_word: "i div 64 = w \<longleftrightarrow> (\<exists>j<64. i = w * 64 + (j::nat))"
proof
  assume "i div 64 = w"
  then have "i = w * 64 + i mod 64" by auto
  then show "\<exists>j<64. i = w * 64 + j" by (metis mod_less_divisor zero_less_numeral)
qed auto

lemma id_clear_links:
  assumes "lv \<le> num_levels obj" "num_levels obj \<le> 3" "c < 64 ^ lv" "linked_but obj lv c" "in_use obj lv (c div 64)"
  shows "\<exists>obj'. id_clear (rev [1..<Suc lv]) c obj = Inr obj' \<and> id_head obj' = id_head obj \<and>
     (\<forall>l. 1 \<le> l \<longrightarrow> l < num_levels obj \<longrightarrow> linked obj' l) \<and>
     (\<forall>i l. lv \<le> l \<longrightarrow> 1 \<le> l \<longrightarrow> l \<le> 3 \<longrightarrow> (mark obj' l i \<longleftrightarrow> mark obj l i \<and> \<not> (l = lv \<and> i = c)))"
  using assms
proof (induction lv arbitrary: c obj)
  case 0
  then show ?case by (auto simp: linked_but_def)
next
  case (Suc lv)
  let ?l = "Suc lv" and ?w = "c div 64"
  define b where "b = bitmap_word obj ?l ?w AND NOT (push_bit (c mod 64) 1)"
  define obj1 where "obj1 = set_bitmap ?l ?w b obj"
  have w: "?w < 64 ^ lv" using div_64_less [OF Suc(4)] by simp
  have mk: "mark obj1 l i \<longleftrightarrow> mark obj l i \<and> \<not> (l = ?l \<and> i = c)" if "1 \<le> l" "l \<le> 3" for l i
    using mark_set(1) [of ?l l c obj i] bitmap_words_ok [of ?l ?w] Suc(2,3,6) w that by (simp add: obj1_def b_def)
  have n1: "num_levels obj1 = num_levels obj" by (simp add: obj1_def)
  have u1: "in_use obj1 ?l ?w" using Suc(6) by (simp add: obj1_def)
  have other: "linked obj l" if "1 \<le> l" "l < num_levels obj" "l \<noteq> ?l" for l using Suc(5) that by (simp add: linked_but_def)
  have top: "linked obj1 ?l" if l: "?l < num_levels obj"
    unfolding linked_def
  proof (intro allI impI)
    fix i :: nat assume i: "i < 64 ^ ?l"
    show "mark obj1 ?l i \<longleftrightarrow> (\<exists>j<64. mark obj1 (Suc ?l) (i * 64 + j))"
      using l Suc(3,5) i mk [of ?l i] mk [of "Suc ?l"] by (cases "i = c") (simp_all add: linked_but_def)
  qed
  have rest: "linked obj1 l" if l: "1 \<le> l" "l < num_levels obj" "l \<noteq> lv" for l
  proof (cases "l = ?l")
    case False
    then have "linked obj l" using other l by blast
    then show ?thesis using mk [of l] mk [of "Suc l"] l False Suc(3) by (subst id_linked_cong [of _ l obj]) auto
  qed (use top l in simp)
  have step: "id_clear (rev [1..<Suc ?l]) c obj = (if b \<noteq> 0 then Inr obj1 else id_clear (rev [1..<Suc lv]) ?w obj1)"
    using bitmap_at_ok [of ?l ?w obj] Suc(2,3) w by (simp add: Let_def b_def obj1_def)
  have bw: "b = bitmap_word obj1 ?l ?w"
    using levels_cases [of ?l] Suc(2,3) w by (auto simp: obj1_def bitmap_word_def set_bitmap_def)
  have up: "mark obj1 lv i = mark obj lv i" if "1 \<le> lv" for i using mk [of lv i] that Suc(2,3) by auto
  have below: "(\<exists>j<64. mark obj1 ?l (i * 64 + j)) = (\<exists>j<64. mark obj ?l (i * 64 + j))" if "i \<noteq> ?w" for i
    using mk [of ?l] that Suc(2,3) by auto
  show ?case
  proof (cases "b = 0")
    case False
    have "linked obj1 lv" if l: "1 \<le> lv"
      unfolding linked_def
    proof (intro allI impI)
      fix i :: nat assume i: "i < 64 ^ lv"
      have o: "mark obj lv i \<longleftrightarrow> (\<exists>j<64. mark obj ?l (i * 64 + j))" using other [of lv] l i Suc(2) by (simp add: linked_def)
      show "mark obj1 lv i \<longleftrightarrow> (\<exists>j<64. mark obj1 ?l (i * 64 + j))"
      proof (cases "i = ?w")
        case True
        have "\<exists>j<64. mark obj1 ?l (?w * 64 + j)" using False bw word_marks [OF u1] by simp
        then show ?thesis using True o up [OF l] mk [of ?l] Suc(2,3) by auto
      qed (use o up [OF l] below in simp)
    qed
    then have "\<forall>l. 1 \<le> l \<longrightarrow> l < num_levels obj \<longrightarrow> linked obj1 l" using rest by metis
    then show ?thesis using step False mk by (auto simp: obj1_def)
  next
    case True
    have none: "\<not> mark obj1 ?l (?w * 64 + j)" if "j < 64" for j
      using True bw word_marks [OF u1] that by auto
    have "linked_but obj1 lv ?w"
      unfolding linked_but_def n1
    proof (intro conjI allI impI)
      fix i :: nat assume "1 \<le> lv" "i < 64 ^ lv" "i \<noteq> ?w"
      then show "mark obj1 lv i \<longleftrightarrow> (\<exists>j<64. mark obj1 ?l (i * 64 + j))"
        using other [of lv] Suc(2) up below by (simp add: linked_def)
    qed (use rest none in auto)
    then obtain obj' where "id_clear (rev [1..<Suc lv]) ?w obj1 = Inr obj'" "id_head obj' = id_head obj1"
      "\<forall>l. 1 \<le> l \<longrightarrow> l < num_levels obj \<longrightarrow> linked obj' l" "\<forall>i l. lv \<le> l \<longrightarrow> 1 \<le> l \<longrightarrow> l \<le> 3 \<longrightarrow> (mark obj' l i \<longleftrightarrow> mark obj1 l i \<and> \<not> (l = lv \<and> i = ?w))"
      using Suc.IH [of obj1 ?w] n1 Suc(2,3) w by (auto simp: in_use_def)
    then show ?thesis using step True mk by (auto simp: obj1_def)
  qed
qed

section \<open>Allocation and release\<close>

lemma id_headD:
  assumes "id_head obj' = id_head obj"
  shows "id_base obj' = id_base obj" "id_range obj' = id_range obj" "alloc_count obj' = alloc_count obj"
    "num_levels obj' = num_levels obj" "id_locked obj' = id_locked obj"
  using assms by (simp_all add: id_head_def)

lemma free_ids_up:
  assumes inv: "id_inv obj" and lv: "1 \<le> lv" "lv \<le> num_levels obj"
  shows "(\<exists>i<64 ^ lv. mark obj lv i) \<longleftrightarrow> free_ids obj \<noteq> {}"
  using lv(2,1)
proof (induction lv rule: inc_induct)
  case base
  then show ?case by (auto simp: free_ids_def)
next
  case (step l)
  have ln: "linked obj l" using inv step by (simp add: id_inv_def)
  have "(\<exists>i<64 ^ l. mark obj l i) \<longleftrightarrow> (\<exists>i<64 ^ Suc l. mark obj (Suc l) i)"
  proof
    assume "\<exists>i<64 ^ l. mark obj l i"
    then obtain i j where ij: "i < 64 ^ l" "j < 64" "mark obj (Suc l) (i * 64 + j)" using ln unfolding linked_def by blast
    have "i * 64 + j < (i + 1) * 64" using ij(2) by simp
    also have "\<dots> \<le> 64 ^ l * 64" using ij(1) by (intro mult_right_mono) auto
    finally have "i * 64 + j < 64 ^ Suc l" by simp
    then show "\<exists>i<64 ^ Suc l. mark obj (Suc l) i" using ij by blast
  next
    assume "\<exists>i<64 ^ Suc l. mark obj (Suc l) i"
    then obtain i where i: "i < 64 ^ Suc l" "mark obj (Suc l) (i div 64 * 64 + i mod 64)" by (auto simp only: div_mult_mod_eq)
    have "i div 64 < 64 ^ l" using div_64_less [OF i(1)] by simp
    moreover have "\<exists>j<64. mark obj (Suc l) (i div 64 * 64 + j)" using i(2) by (intro exI [of _ "i mod 64"]) simp
    ultimately show "\<exists>i<64 ^ l. mark obj l i" using ln unfolding linked_def by blast
  qed
  then show ?case using step by simp
qed

lemma root_word: "id_inv obj \<Longrightarrow> bitmap_word obj 1 0 \<noteq> 0 \<longleftrightarrow> free_ids obj \<noteq> {}"
  using free_ids_up [of obj 1] word_marks [of obj 1 0] by (simp add: id_inv_def in_use_def)

lemma id_alloc_find:
  assumes inv: "id_inv obj" and ne: "free_ids obj \<noteq> {}"
  shows "\<exists>f. id_find [1..<num_levels obj + 1] 0 0 0 obj = Inr (f, f div 64, f mod 64) \<and> f \<in> free_ids obj \<and> f = Min (free_ids obj)"
proof -
  have "\<exists>f. id_find [1..<Suc (num_levels obj)] 0 0 0 obj = Inr (f, f div 64, f mod 64) \<and> f < 64 ^ num_levels obj \<and>
      mark obj (num_levels obj) f \<and> (\<forall>i<64 ^ num_levels obj. mark obj (num_levels obj) i \<longrightarrow> f \<le> i)"
    by (rule id_find_min) (use inv root_word [OF inv] ne in \<open>auto simp: id_inv_def in_use_def\<close>)
  then obtain f where f: "id_find [1..<Suc (num_levels obj)] 0 0 0 obj = Inr (f, f div 64, f mod 64)"
      "f \<in> free_ids obj" "\<forall>i\<in>free_ids obj. f \<le> i" by (auto simp: free_ids_def)
  have "finite (free_ids obj)" by (auto simp: free_ids_def)
  then have "f = Min (free_ids obj)" using f by (intro Min_eqI [symmetric]) auto
  then show ?thesis using f by auto
qed

lemma id_alloc_spec:
  assumes inv: "id_inv obj" and ne: "free_ids obj \<noteq> {}" and cnt: "alloc_count obj \<noteq> id_range obj"
  shows "\<exists>obj'. id_alloc obj = Inr (obj', id_base obj + of_nat (Min (free_ids obj))) \<and> id_inv obj' \<and>
     id_head obj' = id_head obj \<and> free_ids obj' = free_ids obj - {Min (free_ids obj)}"
proof -
  let ?n = "num_levels obj"
  have n: "1 \<le> ?n" "?n \<le> 3" and ln: "\<And>l. 1 \<le> l \<Longrightarrow> l < ?n \<Longrightarrow> linked obj l" using inv by (auto simp: id_inv_def)
  obtain f where f: "id_find [1..<?n + 1] 0 0 0 obj = Inr (f, f div 64, f mod 64)" "f \<in> free_ids obj" "f = Min (free_ids obj)"
    using id_alloc_find [OF inv ne] by blast
  have flim: "f < 64 ^ ?n" using f(2) by (simp add: free_ids_def)
  have w: "f div 64 < 64 ^ (?n - 1)" using div_64_less [OF flim n(1)] .
  have "rev [1..<Suc ?n] = ?n # rev [1..<?n]" using n by simp
  moreover have lt: "\<not> 64 \<le> f mod 64" by (simp add: not_le)
  ultimately have run: "id_alloc obj = ebind (id_clear (rev [1..<Suc ?n]) f obj) (\<lambda>obj'. Inr (obj', id_base obj + of_nat f))"
    using inv f(1) cnt bitmap_at_ok [OF n w] lt by (simp add: id_alloc_def id_inv_def Let_def)
  have "linked_but obj ?n f" using ln by (simp add: linked_but_def)
  then obtain obj' where o': "id_clear (rev [1..<Suc ?n]) f obj = Inr obj'" "id_head obj' = id_head obj"
     "\<forall>l. 1 \<le> l \<longrightarrow> l < ?n \<longrightarrow> linked obj' l" "\<forall>i. mark obj' ?n i \<longleftrightarrow> mark obj ?n i \<and> i \<noteq> f"
    using id_clear_links [of ?n obj f] n flim mark_in_use [of obj ?n f] f(2) by (auto simp: free_ids_def)
  note h = id_headD [OF o'(2)]
  have ff: "free_ids obj' = free_ids obj - {f}" using o'(4) h(4) by (auto simp: free_ids_def)
  then have "id_inv obj'" using inv o'(3) h by (auto simp: id_inv_def)
  then show ?thesis using run o'(1,2) ff f(3) by simp
qed

text \<open>When every identifier is taken the code still walks down the tree.\<close>

lemma id_alloc_exhausted:
  assumes inv: "id_inv obj" and none: "free_ids obj = {}" and cnt: "alloc_count obj \<noteq> id_range obj"
  shows "id_alloc obj = Inl Undefined"
proof -
  have z: "bitmap_word obj 1 0 = 0" using root_word [OF inv] none by simp
  have at: "bitmap_at obj (Suc 0) 0 = Inr 0" using bitmap_at_ok [of 1 0 obj] z by simp
  have c: "ctz 0 = 64" by (simp add: ctz_def ctz64_0)
  have "num_levels obj = 1 \<or> num_levels obj = 2 \<or> num_levels obj = 3" using inv levels_cases by (simp add: id_inv_def)
  then show ?thesis
    using inv cnt at c by (elim disjE) (simp_all add: id_alloc_def id_inv_def upt_rec bitmap_at_def bitmap_words_def)
qed

section \<open>Release\<close>

lemma id_mark_links:
  assumes "lv \<le> 3" "c < 64 ^ lv" "lv = num_levels obj \<Longrightarrow> \<not> mark obj lv c" "lv \<le> num_levels obj"
    "in_use obj lv (c div 64)"
  shows "\<exists>obj'. id_mark (rev [1..<Suc lv]) c obj = Inr obj' \<and> id_head obj' = id_head obj \<and>
     (\<forall>i l. 1 \<le> l \<longrightarrow> l \<le> 3 \<longrightarrow> (mark obj' l i \<longleftrightarrow> mark obj l i \<or> l \<le> lv \<and> i = c div 64 ^ (lv - l)))"
  using assms
proof (induction lv arbitrary: c obj)
  case (Suc lv)
  let ?l = "Suc lv" and ?w = "c div 64"
  define obj1 where "obj1 = set_bitmap ?l ?w (bitmap_word obj ?l ?w OR push_bit (c mod 64) 1) obj"
  have w: "?w < 64 ^ lv" using div_64_less [OF Suc(3)] by simp
  have mk: "mark obj1 l i \<longleftrightarrow> mark obj l i \<or> (l = ?l \<and> i = c)" if "1 \<le> l" "l \<le> 3" for l i
    using mark_set(2) [of ?l l c obj i] bitmap_words_ok [of ?l ?w] Suc(2,6) w that by (simp add: obj1_def)
  have "bitmap_word obj ?l ?w AND push_bit (c mod 64) 1 \<noteq> 0 \<longleftrightarrow> mark obj ?l c"
    using and_push_bit_1_neq_0_iff [of "c mod 64" "bitmap_word obj ?l ?w"] Suc(6) by (simp add: mark_def)
  then have step: "id_mark (rev [1..<Suc ?l]) c obj = id_mark (rev [1..<Suc lv]) ?w obj1"
    using bitmap_at_ok [of ?l ?w obj] Suc(2,4) w by (auto simp: Let_def obj1_def panic_if_def)
  obtain obj' where o': "id_mark (rev [1..<Suc lv]) ?w obj1 = Inr obj'" "id_head obj' = id_head obj1"
     "\<forall>i l. 1 \<le> l \<longrightarrow> l \<le> 3 \<longrightarrow> (mark obj' l i \<longleftrightarrow> mark obj1 l i \<or> l \<le> lv \<and> i = ?w div 64 ^ (lv - l))"
    using Suc.IH [of ?w obj1] Suc(2,5) w by (auto simp: obj1_def in_use_def)
  have "mark obj' l i \<longleftrightarrow> mark obj l i \<or> l \<le> ?l \<and> i = c div 64 ^ (?l - l)" if l: "1 \<le> l" "l \<le> 3" for i l
  proof (cases "l = ?l")
    case False
    then show ?thesis using o'(3) l mk [OF l, of i] by (auto simp: le_Suc_eq Suc_diff_le div_mult2_eq)
  qed (use o'(3) l mk [OF l, of i] in auto)
  then show ?case using step o' by (auto simp: obj1_def)
qed auto

lemma id_free_spec:
  assumes inv: "id_inv obj" and i: "ident - id_base obj < id_range obj"
  shows "if unat (ident - id_base obj) \<in> free_ids obj then id_free ident obj = Inl Panic
     else \<exists>obj'. id_free ident obj = Inr obj' \<and> id_inv obj' \<and> free_ids obj' = insert (unat (ident - id_base obj)) (free_ids obj) \<and>
       id_base obj' = id_base obj \<and> id_range obj' = id_range obj \<and> alloc_count obj' = alloc_count obj - 1"
proof -
  let ?n = "num_levels obj" and ?c = "unat (ident - id_base obj)"
  have n: "1 \<le> ?n" "?n \<le> 3" and ln: "\<And>l. 1 \<le> l \<Longrightarrow> l < ?n \<Longrightarrow> linked obj l" using inv by (auto simp: id_inv_def)
  have c: "?c < unat (id_range obj)" "?c < 64 ^ ?n" using i inv by (auto simp: word_less_nat_alt id_inv_def)
  have u: "in_use obj ?n (?c div 64)"
    using le_less_trans [OF div_times_less_eq_dividend c(1), of 64] by (simp add: in_use_def)
  have run: "id_free ident obj = ebind (id_mark (rev [1..<Suc ?n]) ?c obj) (\<lambda>obj. Inr (obj\<lparr>alloc_count := alloc_count obj - 1\<rparr>))"
    using inv i [unfolded not_le [symmetric]] by (simp add: id_free_def id_inv_def Let_def panic_if_def del: id_mark.simps)
  show ?thesis
  proof (cases "?c \<in> free_ids obj")
    case True
    then have "mark obj ?n ?c" by (simp add: free_ids_def)
    then have "bitmap_word obj ?n (?c div 64) AND push_bit (?c mod 64) 1 \<noteq> 0"
      using and_push_bit_1_neq_0_iff [of "?c mod 64" "bitmap_word obj ?n (?c div 64)"] by (simp add: mark_def)
    moreover have "rev [1..<Suc ?n] = ?n # rev [1..<?n]" using n by simp
    ultimately have "id_mark (rev [1..<Suc ?n]) ?c obj = Inl Panic"
      using bitmap_at_ok [OF n div_64_less [OF c(2) n(1)]] by (simp add: Let_def)
    then show ?thesis using run True by simp
  next
    case False
    then have nm: "\<not> mark obj ?n ?c" using c(2) by (simp add: free_ids_def)
    obtain obj' where o': "id_mark (rev [1..<Suc ?n]) ?c obj = Inr obj'" "id_head obj' = id_head obj"
       "\<And>i l. 1 \<le> l \<Longrightarrow> l \<le> 3 \<Longrightarrow> mark obj' l i \<longleftrightarrow> mark obj l i \<or> l \<le> ?n \<and> i = ?c div 64 ^ (?n - l)"
      using id_mark_links [OF n(2) c(2) _ le_refl] nm u by blast
    note h = id_headD [OF o'(2)]
    have lk: "linked obj' l" if l: "1 \<le> l" "l < ?n" for l
      unfolding linked_def
    proof (intro allI impI)
      fix i :: nat assume i: "i < 64 ^ l"
      have "?n - l = Suc (?n - Suc l)" using l by simp
      then have d: "?c div 64 ^ (?n - l) = ?c div 64 ^ (?n - Suc l) div 64" by (simp add: div_mult2_eq [symmetric] mult.commute)
      have "(\<exists>j<64. i * 64 + j = ?c div 64 ^ (?n - Suc l)) \<longleftrightarrow> i = ?c div 64 ^ (?n - l)"
        unfolding d using in_word [of "?c div 64 ^ (?n - Suc l)" i] by metis
      moreover have "mark obj l i \<longleftrightarrow> (\<exists>j<64. mark obj (Suc l) (i * 64 + j))" using ln [OF l] i by (simp add: linked_def)
      ultimately show "mark obj' l i \<longleftrightarrow> (\<exists>j<64. mark obj' (Suc l) (i * 64 + j))" using o'(3) l n by auto
    qed
    define obj2 where "obj2 = obj'\<lparr>alloc_count := alloc_count obj' - 1\<rparr>"
    have m2: "mark obj2 l i = mark obj' l i" for l i by (simp add: mark_def bitmap_word_def obj2_def in_use_def)
    have ff: "free_ids obj2 = insert ?c (free_ids obj)"
    proof -
      have "num_levels obj2 = ?n" using h(4) by (simp add: obj2_def)
      moreover have "mark obj2 ?n i \<longleftrightarrow> mark obj ?n i \<or> i = ?c" for i using o'(3) [OF n, of i] by (simp add: m2)
      ultimately show ?thesis unfolding free_ids_def using c(2) by auto
    qed
    have "id_inv obj2"
      unfolding id_inv_def ff using inv lk h c(1) id_linked_cong [of obj2 _ obj'] m2 by (auto simp: id_inv_def obj2_def)
    then show ?thesis using run o'(1) False ff h by (simp add: obj2_def)
  qed
qed

section \<open>Creation\<close>

lemma bit_low: "count < 64 \<Longrightarrow> bit (push_bit count (1::ulong) - 1) j \<longleftrightarrow> j < count"
  by (simp add: push_bit_of_1 mask_eq_exp_minus_1 [symmetric] bit_mask_iff) linarith

lemma leaf_mask_bits: "j < 64 \<Longrightarrow> bit (fst (leaf_mask count)) j \<longleftrightarrow> j < count" "snd (leaf_mask count) = count - 64"
  using bit_low [of count j] by (auto simp: leaf_mask_def split: if_splits)

lemma mark_leaf:
  assumes "1 \<le> lv" "lv \<le> 3" "1 \<le> l" "l \<le> 3" "k < bitmap_words lv" "in_use obj lv k"
  shows "mark (set_bitmap lv k (fst (leaf_mask count)) obj) l i \<longleftrightarrow>
    (if l = lv \<and> i div 64 = k then i < k * 64 + count else mark obj l i)"
proof (cases "l = lv \<and> i div 64 = k")
  case True
  then have "i mod 64 < count \<longleftrightarrow> i < k * 64 + count" by (metis add.commute div_mult_mod_eq nat_add_left_cancel_less)
  then show ?thesis using True assms leaf_mask_bits(1) [of "i mod 64" count] by (simp add: mark_def bitmap_word_set)
next
  case False
  then show ?thesis using assms by (auto simp: mark_def bitmap_word_set)
qed

lemma set_root: "k < 64 \<Longrightarrow> obj\<lparr>mask1 := mask1 obj OR push_bit k 1\<rparr> =
    set_bitmap 1 (k div 64) (bitmap_word obj 1 (k div 64) OR push_bit (k mod 64) 1) obj"
  by (simp add: set_bitmap_def bitmap_word_def)

lemma create_l2_loop_marks:
  assumes "count = R - k * 64" "R \<le> 4096" "k = 0 \<or> (k - 1) * 64 < R"
    and "\<forall>i<64. mark obj 1 i \<longleftrightarrow> i < k" "\<forall>i<4096. mark obj 2 i \<longleftrightarrow> i < k * 64 \<and> i < R"
  shows "\<exists>obj'. create_l2_loop k count obj = Inr obj' \<and> id_head obj' = id_head obj \<and>
     (\<forall>i<64. mark obj' 1 i \<longleftrightarrow> i * 64 < R) \<and> (\<forall>i<4096. mark obj' 2 i \<longleftrightarrow> i < R)"
  using assms
proof (induction k count obj rule: create_l2_loop.induct)
  case (1 k count obj)
  show ?case
  proof (cases "count = 0")
    case True
    have "i < k \<longleftrightarrow> i * 64 < R" for i using 1(2,4) True by auto
    then show ?thesis using True 1(2,5,6) by (auto simp: create_l2_loop.simps)
  next
    case False
    then have k: "k < 64" using 1(2,3) by auto
    define obj1 where "obj1 = set_bitmap 2 k (fst (leaf_mask count)) obj"
    define obj2 where "obj2 = obj1\<lparr>mask1 := mask1 obj1 OR push_bit k 1\<rparr>"
    have m1: "mark obj1 l i \<longleftrightarrow> (if l = 2 \<and> i div 64 = k then i < k * 64 + count else mark obj l i)" if "1 \<le> l" "l \<le> 3" for l i
      unfolding obj1_def using that k by (intro mark_leaf) (simp_all add: bitmap_words_def)
    have m2: "mark obj2 l i \<longleftrightarrow> mark obj1 l i \<or> l = 1 \<and> i = k" if "1 \<le> l" "l \<le> 3" for l i
      unfolding obj2_def set_root [OF k] using mark_set(2) [of 1 l k obj1 i] that k by (simp add: bitmap_words_def)
    have step: "create_l2_loop k count obj = create_l2_loop (k + 1) (snd (leaf_mask count)) obj2"
      using False k by (subst create_l2_loop.simps) (simp add: bitmap_words_def Let_def case_prod_unfold obj1_def obj2_def)
    have "\<exists>obj'. create_l2_loop (k + 1) (snd (leaf_mask count)) obj2 = Inr obj' \<and> id_head obj' = id_head obj2 \<and>
       (\<forall>i<64. mark obj' 1 i \<longleftrightarrow> i * 64 < R) \<and> (\<forall>i<4096. mark obj' 2 i \<longleftrightarrow> i < R)"
    proof (rule 1(1) [OF False _ refl prod.collapse obj1_def obj2_def])
      show "\<not> bitmap_words 2 \<le> k" using k by (simp add: bitmap_words_def)
      show "snd (leaf_mask count) = R - (k + 1) * 64" using 1(2) by (simp add: leaf_mask_bits)
      show "\<forall>i<64. mark obj2 1 i \<longleftrightarrow> i < k + 1" using m1 m2 1(5) by auto
      show "\<forall>i<4096. mark obj2 2 i \<longleftrightarrow> i < (k + 1) * 64 \<and> i < R"
      proof (intro allI impI)
        fix i :: nat assume i: "i < 4096"
        show "mark obj2 2 i \<longleftrightarrow> i < (k + 1) * 64 \<and> i < R"
        proof (cases "i div 64 = k")
          case True
          then have "k * 64 \<le> i" "i < (k + 1) * 64" by auto
          then show ?thesis using True m1 [of 2 i] m2 [of 2 i] 1(2) by auto
        next
          case False
          then have "i < k * 64 \<longleftrightarrow> i < (k + 1) * 64" by auto
          then show ?thesis using False m1 [of 2 i] m2 [of 2 i] 1(6) i by auto
        qed
      qed
    qed (use 1(2,3) False in auto)
    then show ?thesis using step by (auto simp: obj2_def obj1_def id_head_def)
  qed
qed

lemma create_l3_loop_marks:
  assumes "count = R - k * 64" "R \<le> 262144" "k = 0 \<or> (k - 1) * 64 < R" "unat (id_range obj) = R"
    and "\<forall>i<64. mark obj 1 i \<longleftrightarrow> i * 64 < k" "\<forall>i<4096. mark obj 2 i \<longleftrightarrow> i < k" "\<forall>i<k * 64. mark obj 3 i \<longleftrightarrow> i < R"
  shows "\<exists>obj'. create_l3_loop k count obj = Inr obj' \<and> id_head obj' = id_head obj \<and>
     (\<forall>i<64. mark obj' 1 i \<longleftrightarrow> i * 4096 < R) \<and> (\<forall>i<4096. mark obj' 2 i \<longleftrightarrow> i * 64 < R) \<and>
     (\<forall>i<262144. mark obj' 3 i \<longleftrightarrow> i < R)"
  using assms
proof (induction k count obj rule: create_l3_loop.induct)
  case (1 k count obj)
  show ?case
  proof (cases "count = 0")
    case True
    have ik: "i < k \<longleftrightarrow> i * 64 < R" for i using 1(2,4) True by auto
    have "mark obj 3 i \<longleftrightarrow> i < R" for i
    proof (cases "i < k * 64")
      case False
      then have "R \<le> i div 64 * 64" using 1(2) True by (auto simp: div_le_mono intro: order_trans [of _ "k * 64"])
      then have "\<not> mark obj 3 i" using mark_in_use [of obj 3 i] 1(5) by (auto simp: in_use_def)
      then show ?thesis using False 1(2) True by auto
    qed (use 1(8) in blast)
    moreover have "i * 64 < k \<longleftrightarrow> i * 4096 < R" for i using ik [of "i * 64"] by (simp add: mult.assoc)
    ultimately show ?thesis using True ik 1(6,7) by (simp add: create_l3_loop.simps)
  next
    case False
    then have k: "k < 4096" "k div 64 < 64" "k * 64 < R" using 1(2,3) by auto
    define obj1 where "obj1 = set_bitmap 3 k (fst (leaf_mask count)) obj"
    define obj2 where "obj2 = set_bitmap 2 (k div 64) (mask2 obj1 (k div 64) OR push_bit (k mod 64) 1) obj1"
    define obj3 where "obj3 = obj2\<lparr>mask1 := mask1 obj2 OR push_bit (k div 64) 1\<rparr>"
    have w2: "mask2 obj1 (k div 64) = bitmap_word obj1 2 (k div 64)" by (simp add: bitmap_word_def)
    have m1: "mark obj1 l i \<longleftrightarrow> (if l = 3 \<and> i div 64 = k then i < k * 64 + count else mark obj l i)" if "1 \<le> l" "l \<le> 3" for l i
      unfolding obj1_def using that k 1(5) by (intro mark_leaf) (simp_all add: bitmap_words_def in_use_def)
    have m2: "mark obj2 l i \<longleftrightarrow> mark obj1 l i \<or> l = 2 \<and> i = k" if "1 \<le> l" "l \<le> 3" for l i
      unfolding obj2_def w2 using mark_set(2) [of 2 l k obj1 i] that k by (simp add: bitmap_words_def)
    have m3: "mark obj3 l i \<longleftrightarrow> mark obj2 l i \<or> l = 1 \<and> i = k div 64" if "1 \<le> l" "l \<le> 3" for l i
      unfolding obj3_def set_root [OF k(2)] using mark_set(2) [of 1 l "k div 64" obj2 i] that k by (simp add: bitmap_words_def)
    have step: "create_l3_loop k count obj = create_l3_loop (k + 1) (snd (leaf_mask count)) obj3"
      using False k by (subst create_l3_loop.simps) (simp add: bitmap_words_def Let_def case_prod_unfold obj1_def obj2_def obj3_def)
    have "\<exists>obj'. create_l3_loop (k + 1) (snd (leaf_mask count)) obj3 = Inr obj' \<and> id_head obj' = id_head obj3 \<and>
       (\<forall>i<64. mark obj' 1 i \<longleftrightarrow> i * 4096 < R) \<and> (\<forall>i<4096. mark obj' 2 i \<longleftrightarrow> i * 64 < R) \<and>
       (\<forall>i<262144. mark obj' 3 i \<longleftrightarrow> i < R)"
    proof (rule 1(1) [OF False _ refl prod.collapse obj1_def refl refl obj2_def obj3_def])
      show "\<not> (bitmap_words 3 \<le> k \<or> bitmap_words 2 \<le> k div 64)" using k by (simp add: bitmap_words_def)
      show "snd (leaf_mask count) = R - (k + 1) * 64" using 1(2) by (simp add: leaf_mask_bits)
      show "unat (id_range obj3) = R" using 1(5) by (simp add: obj3_def obj2_def obj1_def)
      have "i * 64 < k + 1 \<longleftrightarrow> i * 64 < k \<or> i = k div 64" if "i < 64" for i by auto
      then show "\<forall>i<64. mark obj3 1 i \<longleftrightarrow> i * 64 < k + 1" using m1 m2 m3 1(6) by auto
      show "\<forall>i<4096. mark obj3 2 i \<longleftrightarrow> i < k + 1" using m1 m2 m3 1(7) by auto
      show "\<forall>i<(k + 1) * 64. mark obj3 3 i \<longleftrightarrow> i < R"
      proof (intro allI impI)
        fix i :: nat assume i: "i < (k + 1) * 64"
        show "mark obj3 3 i \<longleftrightarrow> i < R"
        proof (cases "i div 64 = k")
          case True
          then show ?thesis using m1 [of 3 i] m2 [of 3 i] m3 [of 3 i] 1(2) k(3) by auto
        next
          case False
          then have "i < k * 64" using i by auto
          then show ?thesis using False m1 [of 3 i] m2 [of 3 i] m3 [of 3 i] 1(8) by auto
        qed
      qed
    qed (use 1(2,3) False in auto)
    then show ?thesis using step by (auto simp: obj3_def obj2_def obj1_def id_head_def)
  qed
qed

lemma marks_inv:
  assumes n: "num_levels obj = n" "1 \<le> n" "n \<le> 3" "\<not> id_locked obj" "unat (id_range obj) = R" "R \<le> 64 ^ n"
    and m: "\<And>l i. 1 \<le> l \<Longrightarrow> l \<le> n \<Longrightarrow> i < 64 ^ l \<Longrightarrow> mark obj l i \<longleftrightarrow> i * 64 ^ (n - l) < R"
  shows "id_inv obj \<and> free_ids obj = {..<R}"
proof -
  have ff: "free_ids obj = {..<R}" using n(1,2,6) m [of n] by (auto simp: free_ids_def)
  have "linked obj l" if l: "1 \<le> l" "l < n" for l
    unfolding linked_def
  proof (intro allI impI)
    fix i :: nat assume i: "i < 64 ^ l"
    have lim: "i * 64 + j < 64 ^ Suc l" if "j < 64" for j
    proof -
      have "i * 64 + j < (i + 1) * 64" using that by simp
      also have "\<dots> \<le> 64 ^ l * 64" using i by (intro mult_right_mono) auto
      finally show ?thesis by simp
    qed
    have e: "64 ^ (n - l) = 64 * (64::nat) ^ (n - Suc l)" using l by (metis Suc_diff_Suc power_Suc)
    have "(\<exists>j<64. mark obj (Suc l) (i * 64 + j)) \<longleftrightarrow> (\<exists>j<64. (i * 64 + j) * 64 ^ (n - Suc l) < R)"
      using m [of "Suc l"] l lim by auto
    also have "\<dots> \<longleftrightarrow> (i * 64 + 0) * 64 ^ (n - Suc l) < R"
    proof
      assume "\<exists>j<64. (i * 64 + j) * 64 ^ (n - Suc l) < R"
      then obtain j where j: "(i * 64 + j) * 64 ^ (n - Suc l) < R" by blast
      have "(i * 64 + 0) * 64 ^ (n - Suc l) \<le> (i * 64 + j) * 64 ^ (n - Suc l)" by (intro mult_right_mono) auto
      then show "(i * 64 + 0) * 64 ^ (n - Suc l) < R" using j by (rule le_less_trans)
    qed (intro exI [of _ 0], simp)
    also have "\<dots> \<longleftrightarrow> mark obj l i" using m [of l i] l i by (simp add: e mult.assoc)
    finally show "mark obj l i \<longleftrightarrow> (\<exists>j<64. mark obj (Suc l) (i * 64 + j))" by simp
  qed
  then show ?thesis using n ff by (simp add: id_inv_def)
qed

lemma id_alloc_create_spec:
  fixes first_id last_id :: ulong
  defines "R \<equiv> unat (last_id - first_id + 1)"
  assumes R: "R \<noteq> 64" "R \<le> 262144"
    and pg: "4096 < R \<Longrightarrow> palloc_ptr hal 64 ps = Inr (ps', ptr) \<and> ptr \<noteq> 0"
  shows "\<exists>ps'' obj. id_alloc_create hal garbage first_id last_id ps = Inr (ps'', obj) \<and> id_inv obj \<and> free_ids obj = {..<R} \<and>
     id_base obj = first_id \<and> id_range obj = last_id - first_id + 1 \<and> alloc_count obj = 0"
proof -
  define obj where "obj = \<lparr>id_base = first_id, id_range = last_id - first_id + 1, alloc_count = 0, mask1 = 0, mask2 = (\<lambda>_. 0),
                 mask3 = (\<lambda>_. 0), num_levels = 0, id_locked = False\<rparr>"
  have o: "unat (id_range obj) = R" by (simp add: obj_def R_def)
  have run: "id_alloc_create hal garbage first_id last_id ps =
      (if R \<le> 64 then ebind (create_l1 obj) (\<lambda>obj. Inr (ps, obj))
       else if R \<le> 4096 then ebind (create_l2 obj) (\<lambda>obj. Inr (ps, obj)) else create_l3 hal garbage ps obj)"
    using R(2) unfolding id_alloc_create_def R_def obj_def by (simp add: Let_def)
  have levels: "1 \<le> l \<Longrightarrow> l \<le> 3 \<Longrightarrow> l = 1 \<or> l = 2 \<or> l = (3::nat)" for l by linarith
  consider (l1) "R < 64" | (l2) "64 < R" "R \<le> 4096" | (l3) "4096 < R" using R(1) by linarith
  then show ?thesis
  proof cases
    case l1
    define obj1 where "obj1 = obj\<lparr>num_levels := 1, mask1 := push_bit R 1 - 1\<rparr>"
    have m: "mark obj1 1 i \<longleftrightarrow> i < R" if "i < 64" for i
      using that bit_low [OF l1, of i] by (simp add: mark_def obj1_def bitmap_word_def)
    have "id_inv obj1 \<and> free_ids obj1 = {..<R}"
    proof (rule marks_inv [of _ 1])
      show "mark obj1 l i \<longleftrightarrow> i * 64 ^ (1 - l) < R" if l: "1 \<le> l" "l \<le> 1" "i < 64 ^ l" for l i
      proof -
        have "l = 1" using l by simp
        then show ?thesis using m [of i] l by simp
      qed
    qed (use l1 o in \<open>simp_all add: obj1_def obj_def\<close>)
    then show ?thesis using run l1 o by (auto simp: create_l1_def low_mask_def obj1_def obj_def)
  next
    case l2
    obtain obj' where o': "create_l2 obj = Inr obj'" "id_head obj' = id_head (obj\<lparr>num_levels := 2\<rparr>)"
        "\<forall>i<64. mark obj' 1 i \<longleftrightarrow> i * 64 < R" "\<forall>i<4096. mark obj' 2 i \<longleftrightarrow> i < R"
      using create_l2_loop_marks [of R R 0 "obj\<lparr>num_levels := 2\<rparr>"] l2 o
      by (auto simp: create_l2_def mark_def bitmap_word_def obj_def)
    note h = id_headD [OF o'(2)]
    have "id_inv obj' \<and> free_ids obj' = {..<R}"
    proof (rule marks_inv [of _ 2])
      show "mark obj' l i \<longleftrightarrow> i * 64 ^ (2 - l) < R" if l: "1 \<le> l" "l \<le> 2" "i < 64 ^ l" for l i
        using levels [of l] l o'(3,4) by auto
    qed (use l2 o h in \<open>simp_all add: obj_def\<close>)
    then show ?thesis using run l2 o' h by (auto simp: obj_def)
  next
    case l3
    obtain obj' where o': "create_l3_loop 0 R (obj\<lparr>num_levels := 3, mask3 := garbage\<rparr>) = Inr obj'"
        "id_head obj' = id_head (obj\<lparr>num_levels := 3, mask3 := garbage\<rparr>)"
        "\<forall>i<64. mark obj' 1 i \<longleftrightarrow> i * 4096 < R" "\<forall>i<4096. mark obj' 2 i \<longleftrightarrow> i * 64 < R" "\<forall>i<262144. mark obj' 3 i \<longleftrightarrow> i < R"
      using create_l3_loop_marks [of R R 0 "obj\<lparr>num_levels := 3, mask3 := garbage\<rparr>"] R o
      by (auto simp: mark_def bitmap_word_def obj_def)
    note h = id_headD [OF o'(2)]
    have "id_inv obj' \<and> free_ids obj' = {..<R}"
    proof (rule marks_inv [of _ 3])
      show "mark obj' l i \<longleftrightarrow> i * 64 ^ (3 - l) < R" if l: "1 \<le> l" "l \<le> 3" "i < 64 ^ l" for l i
        using levels [OF l(1,2)] l(3) o'(3-5) by auto
    qed (use R o h in \<open>simp_all add: obj_def\<close>)
    then show ?thesis using run l3 pg o'(1) o h by (auto simp: create_l3_def obj_def)
  qed
qed

section \<open>A source of fresh names\<close>

text \<open>
  What a client of the allocator relies on: while something is available a request takes one of the
  available names away. Any number of requests then gives different names.
\<close>

fun take_all :: "('s \<Rightarrow> ('s \<times> ulong) res) \<Rightarrow> nat \<Rightarrow> 's \<Rightarrow> ('s \<times> ulong list) res" where
  "take_all request 0 s = Inr (s, [])"
| "take_all request (Suc n) s =
     ebind (request s) (\<lambda>(s, x). ebind (take_all request n s) (\<lambda>(s, xs). Inr (s, x # xs)))"

locale name_source =
  fixes ok :: "'s \<Rightarrow> bool" and avail :: "'s \<Rightarrow> ulong set" and request :: "'s \<Rightarrow> ('s \<times> ulong) res"
  assumes request_law: "ok s \<Longrightarrow> avail s \<noteq> {} \<Longrightarrow>
      \<exists>s' x. request s = Inr (s', x) \<and> ok s' \<and> x \<in> avail s \<and> avail s' = avail s - {x}"
begin

lemma take_all_law:
  "ok s \<Longrightarrow> n \<le> card (avail s) \<Longrightarrow>
   \<exists>s' xs. take_all request n s = Inr (s', xs) \<and> ok s' \<and> length xs = n \<and> distinct xs \<and> set xs \<subseteq> avail s \<and>
     avail s' = avail s - set xs"
proof (induction n arbitrary: s)
  case (Suc n)
  then have ne: "avail s \<noteq> {}" by auto
  obtain s1 x where s1: "request s = Inr (s1, x)" "ok s1" "x \<in> avail s" "avail s1 = avail s - {x}"
    using request_law [OF Suc.prems(1) ne] by blast
  have "finite (avail s)" using Suc.prems(2) by (metis card.infinite not_less_eq_eq zero_le)
  then have "n \<le> card (avail s1)" using s1 Suc.prems(2) by simp
  then obtain s2 xs where "take_all request n s1 = Inr (s2, xs)" "ok s2" "length xs = n" "distinct xs"
      "set xs \<subseteq> avail s1" "avail s2 = avail s1 - set xs" using Suc.IH [OF s1(2)] by blast
  then show ?case using s1 by auto
qed simp

end

definition id_ready :: "id_obj \<Rightarrow> bool" where
  "id_ready obj \<longleftrightarrow> id_inv obj \<and> alloc_count obj \<noteq> id_range obj"

definition avail_ids :: "id_obj \<Rightarrow> ulong set" where
  "avail_ids obj = (\<lambda>i. id_base obj + of_nat i) ` free_ids obj"

lemma ids_inj:
  assumes "id_inv obj" shows "inj_on (\<lambda>i. id_base obj + of_nat i) (free_ids obj)"
proof (rule inj_onI)
  fix i j assume ij: "i \<in> free_ids obj" "j \<in> free_ids obj" "id_base obj + of_nat i = id_base obj + (of_nat j :: ulong)"
  have lim: "k < 2 ^ 64" if "k \<in> free_ids obj" for k
  proof -
    have "k < unat (id_range obj)" using assms that by (auto simp: id_inv_def)
    also have "\<dots> < 2 ^ 64" using unsigned_less [of "id_range obj", where ?'a = nat] by simp
    finally show ?thesis .
  qed
  have "unat (of_nat i :: ulong) = unat (of_nat j :: ulong)" using ij(3) by simp
  then show "i = j" using lim [OF ij(1)] lim [OF ij(2)] by (simp add: unat_of_nat)
qed

lemma id_alloc_request:
  assumes "id_ready obj" "avail_ids obj \<noteq> {}"
  shows "\<exists>obj' x. id_alloc obj = Inr (obj', x) \<and> id_ready obj' \<and> x \<in> avail_ids obj \<and> avail_ids obj' = avail_ids obj - {x}"
proof -
  have inv: "id_inv obj" and ne: "free_ids obj \<noteq> {}" and cnt: "alloc_count obj \<noteq> id_range obj"
    using assms by (auto simp: id_ready_def avail_ids_def)
  obtain obj' where o': "id_alloc obj = Inr (obj', id_base obj + of_nat (Min (free_ids obj)))" "id_inv obj'"
     "id_head obj' = id_head obj" "free_ids obj' = free_ids obj - {Min (free_ids obj)}"
    using id_alloc_spec [OF inv ne cnt] by blast
  have "finite (free_ids obj)" by (auto simp: free_ids_def)
  then have m: "Min (free_ids obj) \<in> free_ids obj" using ne by simp
  have "avail_ids obj' = avail_ids obj - {id_base obj + of_nat (Min (free_ids obj))}"
    using o'(4) id_headD(1) [OF o'(3)] inj_on_image_set_diff [OF ids_inj [OF inv], of "free_ids obj" "{Min (free_ids obj)}"] m
    by (simp add: avail_ids_def)
  then show ?thesis using o' id_headD [OF o'(3)] cnt m by (auto simp: id_ready_def avail_ids_def)
qed

interpretation ids: name_source id_ready avail_ids id_alloc
  by unfold_locales (rule id_alloc_request)

section \<open>Address space identifiers\<close>

definition asid_ready :: "asid_state \<Rightarrow> bool" where
  "asid_ready s \<longleftrightarrow> supports_asid s \<and> id_ready (asid_alloc s) \<and> avail_ids (asid_alloc s) \<subseteq> {x. 0 < sint x}"

definition avail_asids :: "asid_state \<Rightarrow> ulong set" where
  "avail_asids s = avail_ids (asid_alloc s)"

interpretation asids: name_source asid_ready avail_asids alloc_asid
proof unfold_locales
  fix s assume s: "asid_ready s" "avail_asids s \<noteq> {}"
  then obtain obj x where "id_alloc (asid_alloc s) = Inr (obj, x)" "id_ready obj" "x \<in> avail_ids (asid_alloc s)"
      "avail_ids obj = avail_ids (asid_alloc s) - {x}"
    using ids.request_law [of "asid_alloc s"] by (auto simp: asid_ready_def avail_asids_def)
  then show "\<exists>s' x. alloc_asid s = Inr (s', x) \<and> asid_ready s' \<and> x \<in> avail_asids s \<and> avail_asids s' = avail_asids s - {x}"
    using s by (auto simp: alloc_asid_def asid_ready_def avail_asids_def panic_if_def)
qed

lemma init_asid_ready:
  assumes lim: "2 \<le> unat limit" "unat limit \<le> 262145" "unat limit \<noteq> 65"
    and pg: "4097 < unat limit \<Longrightarrow> palloc_ptr hal 64 ps = Inr (ps', ptr) \<and> ptr \<noteq> 0"
  shows "\<exists>ps'' s'. init_asid hal garbage limit ps s = Inr (ps'', s') \<and> asid_ready s' \<and> avail_asids s' = {1..<limit}"
proof -
  have R: "unat (limit - 1 - 1 + 1 :: ulong) = unat limit - 1"
    using lim(1) unat_minus_one [of limit] by (cases "limit = 0") auto
  have r: "unat limit - 1 \<noteq> 64" "unat limit - 1 \<le> 262144" using lim by linarith+
  obtain ps'' obj where c: "id_alloc_create hal garbage 1 (limit - 1) ps = Inr (ps'', obj)" "id_inv obj"
     "free_ids obj = {..<unat limit - 1}" "id_base obj = 1" "id_range obj = limit - 1" "alloc_count obj = 0"
    using id_alloc_create_spec [of "limit - 1" 1 hal ps ps' ptr garbage] R r pg by auto
  have av: "avail_ids obj = {1..<limit}"
  proof (rule set_eqI, rule iffI)
    fix x assume "x \<in> avail_ids obj"
    then obtain i where i: "i < unat limit - 1" "x = 1 + of_nat i" using c by (auto simp: avail_ids_def)
    then have "unat x = Suc i" using lim(2) by (simp add: unat_word_ariths unat_of_nat)
    then show "x \<in> {1..<limit}" using i(1) by (simp add: word_le_nat_alt word_less_nat_alt)
  next
    fix x assume "x \<in> {1..<limit}"
    then have x: "1 \<le> unat x" "unat x < unat limit" by (auto simp: word_le_nat_alt word_less_nat_alt)
    then have "x = 1 + of_nat (unat x - 1)" by (simp add: of_nat_diff)
    moreover have "unat x - 1 < unat limit - 1" using x by linarith
    ultimately show "x \<in> avail_ids obj" using c by (auto simp: avail_ids_def)
  qed
  have "0 < sint x" if "x \<in> {1..<limit}" for x
  proof -
    have x: "1 \<le> unat x" "unat x < 262145" using that lim(2) by (auto simp: word_le_nat_alt word_less_nat_alt)
    have "int (unat x) = uint x" by simp
    then have u: "0 < uint x" "uint x < 262145" using x by linarith+
    have "sint x = signed_take_bit 63 (uint x)" by (simp add: sint_uint)
    also have "\<dots> = uint x" by (rule signed_take_bit_int_eq_self) (use u in simp_all)
    finally show ?thesis using u by simp
  qed
  moreover have "limit \<noteq> 0" "limit - 1 \<noteq> 0" using lim(1) by auto
  ultimately show ?thesis using c av by (auto simp: init_asid_def asid_ready_def avail_asids_def id_ready_def)
qed

lemma card_below_word: "card {1..<limit :: ulong} = unat limit - 1"
proof -
  have "unat ` {1..<limit} = {1..<unat limit}"
  proof (rule set_eqI, rule iffI)
    fix k assume k: "k \<in> {1..<unat limit}"
    then have "k < 2 ^ 64" using unsigned_less [of limit, where ?'a = nat] by simp
    then have "unat (of_nat k :: ulong) = k" by (simp add: unat_of_nat)
    then show "k \<in> unat ` {1..<limit}" using k by (intro image_eqI [of _ _ "of_nat k"]) (auto simp: word_le_nat_alt word_less_nat_alt)
  qed (auto simp: word_le_nat_alt word_less_nat_alt)
  moreover have "card (unat ` {1..<limit}) = card {1..<limit}" by (rule card_image) (rule inj_onI, simp add: word_unat_eq_iff)
  ultimately show ?thesis by simp
qed

lemma asid_exhausted:
  assumes "avail_asids s = {}" "asid_ready s"
  shows "alloc_asid s = Inl Undefined"
proof -
  have "free_ids (asid_alloc s) = {}" using assms(1) by (simp add: avail_asids_def avail_ids_def)
  then have "id_alloc (asid_alloc s) = Inl Undefined"
    using id_alloc_exhausted assms(2) by (simp add: asid_ready_def id_ready_def)
  then show ?thesis using assms(2) by (simp add: alloc_asid_def asid_ready_def)
qed

section \<open>Properties\<close>

text \<open>
  C11: Creating an identifier allocator for a range of up to 262144 identifiers builds a consistent tree
  of bitmaps in which exactly the identifiers of the range are free, for one, two and three levels and
  whatever the freshly allocated third level contained. A range of exactly 64 identifiers is undefined
  behaviour, since its mask is computed with a shift by 64.
\<close>

theorem id_alloc_create_correct:
  assumes "unat (last_id - first_id + 1) \<le> MAX_NUM_BITS_L3"
    and "MAX_NUM_BITS_L2 < unat (last_id - first_id + 1) \<Longrightarrow> palloc_ptr hal 64 ps = Inr (ps', ptr) \<and> ptr \<noteq> 0"
  shows "if unat (last_id - first_id + 1) = 64 then id_alloc_create hal garbage first_id last_id ps = Inl Undefined
     else \<exists>ps'' obj. id_alloc_create hal garbage first_id last_id ps = Inr (ps'', obj) \<and> id_inv obj \<and>
       free_ids obj = {..<unat (last_id - first_id + 1)} \<and> id_base obj = first_id \<and>
       id_range obj = last_id - first_id + 1 \<and> alloc_count obj = 0"
proof (cases "unat (last_id - first_id + 1) = 64")
  case True
  then show ?thesis by (simp add: id_alloc_create_def Let_def create_l1_def low_mask_def)
next
  case False
  show ?thesis unfolding if_not_P [OF False] by (rule id_alloc_create_spec [OF False assms])
qed

theorem id_alloc_create_correct_witness:
  "(\<exists>ps obj. id_alloc_create (\<lambda>p. p + 1) (\<lambda>_. 7) 1 99 demo_palloc = Inr (ps, obj) \<and> free_ids obj = {..<99}) \<and>
   id_alloc_create (\<lambda>p. p + 1) (\<lambda>_. 7) 1 64 demo_palloc = Inl Undefined"
proof
  show "\<exists>ps obj. id_alloc_create (\<lambda>p. p + 1) (\<lambda>_. 7) 1 99 demo_palloc = Inr (ps, obj) \<and> free_ids obj = {..<99}"
    using id_alloc_create_correct [of 99 1 "\<lambda>p. p + 1" demo_palloc demo_palloc 1 "\<lambda>_. 7"] by (simp, blast)
  show "id_alloc_create (\<lambda>p. p + 1) (\<lambda>_. 7) 1 64 demo_palloc = Inl Undefined"
    using id_alloc_create_correct [of 64 1 "\<lambda>p. p + 1" demo_palloc demo_palloc 1 "\<lambda>_. 7"] by simp
qed

text \<open>
  C10: As long as an identifier is free, \<^verbatim>\<open>id_alloc\<close> returns the lowest free one and removes exactly that
  one from the free identifiers. When none is free it does not return -1 as intended: \<^verbatim>\<open>alloc_count\<close>
  is never incremented, so the test for exhaustion does not fire and the walk down the empty tree is
  undefined behaviour.
\<close>

theorem id_alloc_correct:
  assumes "id_inv obj" "alloc_count obj \<noteq> id_range obj"
  shows "if free_ids obj = {} then id_alloc obj = Inl Undefined
     else \<exists>obj'. id_alloc obj = Inr (obj', id_base obj + of_nat (Min (free_ids obj))) \<and> id_inv obj' \<and>
       alloc_count obj' = alloc_count obj \<and> free_ids obj' = free_ids obj - {Min (free_ids obj)}"
proof (cases "free_ids obj = {}")
  case True
  then show ?thesis using id_alloc_exhausted [OF assms(1) _ assms(2)] by simp
next
  case False
  then show ?thesis using id_alloc_spec [OF assms(1) False assms(2)] id_headD(3) unfolding if_not_P [OF False] by blast
qed

definition demo_id :: id_obj where
  "demo_id = \<lparr>id_base = 5, id_range = 3, alloc_count = 0, mask1 = 6, mask2 = (\<lambda>_. 0), mask3 = (\<lambda>_. 0), num_levels = 1,
     id_locked = False\<rparr>"

lemma demo_id_free: "free_ids demo_id = {1, 2}"
proof -
  have "mark demo_id 1 i \<longleftrightarrow> i = 1 \<or> i = 2" if "i < 64" for i
  proof -
    have six: "(6::ulong) = 2 ^ 1 OR 2 ^ 2" by simp
    have "bit (6::ulong) i \<longleftrightarrow> i = 1 \<or> i = 2" using that by (simp only: six bit_or_iff bit_exp_iff) auto
    then show ?thesis using that by (simp add: mark_def demo_id_def bitmap_word_def in_use_def)
  qed
  then show ?thesis by (auto simp: free_ids_def demo_id_def)
qed

lemma demo_id_inv: "id_inv demo_id"
  using demo_id_free by (auto simp: id_inv_def, auto simp: demo_id_def)

theorem id_alloc_correct_witness: "\<exists>obj. id_alloc demo_id = Inr (obj, 6) \<and> free_ids obj = {2}"
proof -
  have "alloc_count demo_id \<noteq> id_range demo_id" "id_base demo_id = 5" by (simp_all add: demo_id_def)
  then show ?thesis using id_alloc_correct [OF demo_id_inv] by (auto simp: demo_id_free)
qed

text \<open>
  C12: Releasing any identifier: one outside the range of the allocator panics, one that is already free
  panics, and any other one becomes free, with every other free identifier kept and the tree of bitmaps
  consistent. In particular an identifier that was just allocated can be released, which restores the
  free identifiers.
\<close>

theorem id_free_correct:
  assumes "id_inv obj"
  shows "(let i = unat (ident - id_base obj) in
      if unat (id_range obj) \<le> i \<or> i \<in> free_ids obj then id_free ident obj = Inl Panic
      else \<exists>obj'. id_free ident obj = Inr obj' \<and> id_inv obj' \<and> free_ids obj' = insert i (free_ids obj) \<and>
        id_base obj' = id_base obj \<and> id_range obj' = id_range obj) \<and>
    (\<forall>obj1 x. alloc_count obj \<noteq> id_range obj \<and> id_alloc obj = Inr (obj1, x) \<longrightarrow>
      (\<exists>obj2. id_free x obj1 = Inr obj2 \<and> id_inv obj2 \<and> free_ids obj2 = free_ids obj))"
proof (intro conjI allI impI)
  show "let i = unat (ident - id_base obj) in
      if unat (id_range obj) \<le> i \<or> i \<in> free_ids obj then id_free ident obj = Inl Panic
      else \<exists>obj'. id_free ident obj = Inr obj' \<and> id_inv obj' \<and> free_ids obj' = insert i (free_ids obj) \<and>
        id_base obj' = id_base obj \<and> id_range obj' = id_range obj"
  proof (cases "ident - id_base obj < id_range obj")
    case True
    then have "\<not> unat (id_range obj) \<le> unat (ident - id_base obj)" by (simp add: word_less_nat_alt)
    then show ?thesis using id_free_spec [OF assms True] unfolding Let_def by (simp split: if_splits) blast
  next
    case False
    then have le: "id_range obj \<le> ident - id_base obj" by simp
    then have "id_free ident obj = Inl Panic" by (simp add: id_free_def panic_if_def Let_def)
    moreover have "unat (id_range obj) \<le> unat (ident - id_base obj)" using le by (simp add: word_le_nat_alt)
    ultimately show ?thesis by (simp add: Let_def)
  qed
next
  fix obj1 x assume a: "alloc_count obj \<noteq> id_range obj \<and> id_alloc obj = Inr (obj1, x)"
  then have cnt: "alloc_count obj \<noteq> id_range obj" and run: "id_alloc obj = Inr (obj1, x)" by blast+
  have ne: "free_ids obj \<noteq> {}" using id_alloc_exhausted [OF assms _ cnt] run by auto
  define f where "f = Min (free_ids obj)"
  have "finite (free_ids obj)" by (auto simp: free_ids_def)
  then have f: "f \<in> free_ids obj" using ne by (simp add: f_def)
  then have fr: "f < unat (id_range obj)" using assms by (auto simp: id_inv_def)
  have o1: "x = id_base obj + of_nat f" "id_inv obj1" "id_head obj1 = id_head obj" "free_ids obj1 = free_ids obj - {f}"
    using id_alloc_spec [OF assms ne cnt] run by (auto simp: f_def)
  note h = id_headD [OF o1(3)]
  have "f < 2 ^ 64" using fr unsigned_less [of "id_range obj", where ?'a = nat] by simp
  then have u: "unat (x - id_base obj1) = f" using o1(1) h by (simp add: unat_of_nat)
  have lt: "x - id_base obj1 < id_range obj1" using fr u h by (simp add: word_less_nat_alt)
  obtain obj2 where "id_free x obj1 = Inr obj2" "id_inv obj2" "free_ids obj2 = insert f (free_ids obj1)"
    using id_free_spec [OF o1(2) lt] o1(4) u by auto
  then show "\<exists>obj2. id_free x obj1 = Inr obj2 \<and> id_inv obj2 \<and> free_ids obj2 = free_ids obj" using o1(4) f by auto
qed

text \<open>Of the identifiers 5 to 7, 6 and 7 are free: 5 can be released, 6 and 8 cannot.\<close>

theorem id_free_correct_witness:
  "(\<exists>obj. id_free 5 demo_id = Inr obj \<and> free_ids obj = {0, 1, 2}) \<and> id_free 6 demo_id = Inl Panic \<and> id_free 8 demo_id = Inl Panic"
proof -
  have b: "id_base demo_id = 5" "id_range demo_id = 3" by (simp_all add: demo_id_def)
  have "\<exists>obj. id_free 5 demo_id = Inr obj \<and> free_ids obj = {0, 1, 2}"
    using id_free_correct [OF demo_id_inv, of 5, THEN conjunct1] by (auto simp: b demo_id_free Let_def)
  moreover have "id_free 6 demo_id = Inl Panic" "id_free 8 demo_id = Inl Panic"
    using id_free_correct [OF demo_id_inv, of 6, THEN conjunct1] id_free_correct [OF demo_id_inv, of 8, THEN conjunct1]
    by (simp_all add: b demo_id_free Let_def)
  ultimately show ?thesis by blast
qed

text \<open>
  C13: Address space identifiers, for every limit \<open>L\<close> that the hardware can report. With \<open>L = 0\<close> they are switched
  off and every request gives 0. A limit of 65 is undefined behaviour, since 64 identifiers are the case in
  which the mask is computed with a shift by 64, and a limit above 262145 panics. Every other limit from 2
  on works, provided the page allocator has the 64 pages that the third level needs when \<open>L > 4097\<close>: \<open>L - 1\<close>
  requests succeed and give different identifiers between 1 and \<open>L - 1\<close>; one request more is undefined
  behaviour, since exhaustion is not detected.
\<close>

theorem asids_distinct:
  assumes "4097 < unat limit \<and> unat limit \<le> 262145 \<Longrightarrow> palloc_ptr hal 64 ps = Inr (ps', ptr) \<and> ptr \<noteq> 0"
  shows "(limit = 0 \<longrightarrow> (\<exists>s1. init_asid hal garbage limit ps s = Inr (ps, s1) \<and> \<not> asid_supported s1 \<and> alloc_asid s1 = Inr (s1, 0))) \<and>
    (limit = 65 \<longrightarrow> init_asid hal garbage limit ps s = Inl Undefined) \<and>
    (262145 < unat limit \<longrightarrow> init_asid hal garbage limit ps s = Inl Panic) \<and>
    (2 \<le> unat limit \<and> unat limit \<le> 262145 \<and> limit \<noteq> 65 \<longrightarrow>
      (\<exists>ps'' s1. init_asid hal garbage limit ps s = Inr (ps'', s1) \<and> asid_supported s1 \<and>
        (\<forall>n<unat limit. \<exists>s2 xs. take_all alloc_asid n s1 = Inr (s2, xs) \<and> length xs = n \<and> distinct xs \<and> set xs \<subseteq> {1..<limit} \<and>
           (n = unat limit - 1 \<longrightarrow> alloc_asid s2 = Inl Undefined))))"
proof (intro conjI impI)
  show "\<exists>s1. init_asid hal garbage limit ps s = Inr (ps, s1) \<and> \<not> asid_supported s1 \<and> alloc_asid s1 = Inr (s1, 0)" if "limit = 0"
    using that by (simp add: init_asid_def asid_supported_def alloc_asid_def)
  show "init_asid hal garbage limit ps s = Inl Undefined" if "limit = 65"
    using that by (simp add: init_asid_def id_alloc_create_def Let_def create_l1_def low_mask_def)
  show "init_asid hal garbage limit ps s = Inl Panic" if l: "262145 < unat limit"
  proof -
    have "limit \<noteq> 0" using l by auto
    then have "unat (limit - 1) = unat limit - 1" by (simp add: unat_minus_one)
    then have "262144 < unat (limit - 1)" using l by linarith
    then show ?thesis using l \<open>limit \<noteq> 0\<close> by (simp add: init_asid_def id_alloc_create_def Let_def)
  qed
  assume l: "2 \<le> unat limit \<and> unat limit \<le> 262145 \<and> limit \<noteq> 65"
  then have "unat limit \<noteq> 65" by (simp add: word_unat_eq_iff)
  then obtain ps'' s1 where s1: "init_asid hal garbage limit ps s = Inr (ps'', s1)" "asid_ready s1" "avail_asids s1 = {1..<limit}"
    using init_asid_ready [of limit hal ps ps' ptr garbage s] l assms by auto
  have "\<exists>s2 xs. take_all alloc_asid n s1 = Inr (s2, xs) \<and> length xs = n \<and> distinct xs \<and> set xs \<subseteq> {1..<limit} \<and>
      (n = unat limit - 1 \<longrightarrow> alloc_asid s2 = Inl Undefined)" if n: "n < unat limit" for n
  proof -
    have card: "card (avail_asids s1) = unat limit - 1" using s1(3) card_below_word [of limit] by simp
    then have "n \<le> card (avail_asids s1)" using n by simp
    then obtain s2 xs where x: "take_all alloc_asid n s1 = Inr (s2, xs)" "asid_ready s2" "length xs = n" "distinct xs" "set xs \<subseteq> avail_asids s1"
        "avail_asids s2 = avail_asids s1 - set xs" using asids.take_all_law [OF s1(2)] by blast
    have "alloc_asid s2 = Inl Undefined" if "n = unat limit - 1"
    proof -
      have "set xs = avail_asids s1" using card_subset_eq [OF _ x(5)] x(3,4) card that by (simp add: distinct_card s1(3))
      then have "avail_asids s2 = {}" using x(6) by simp
      then show ?thesis using x(2) by (rule asid_exhausted)
    qed
    then show ?thesis using x s1(3) by auto
  qed
  then show "\<exists>ps'' s1. init_asid hal garbage limit ps s = Inr (ps'', s1) \<and> asid_supported s1 \<and>
        (\<forall>n<unat limit. \<exists>s2 xs. take_all alloc_asid n s1 = Inr (s2, xs) \<and> length xs = n \<and> distinct xs \<and> set xs \<subseteq> {1..<limit} \<and>
           (n = unat limit - 1 \<longrightarrow> alloc_asid s2 = Inl Undefined))"
    using s1 by (auto simp: asid_ready_def asid_supported_def)
qed

theorem asids_distinct_witness:
  "(\<exists>ps s1 s2 xs. init_asid (\<lambda>p. p) (\<lambda>_. 0) 256 demo_palloc \<lparr>supports_asid = False, asid_alloc = demo_id\<rparr> = Inr (ps, s1) \<and>
     take_all alloc_asid 255 s1 = Inr (s2, xs) \<and> length xs = 255 \<and> distinct xs \<and> alloc_asid s2 = Inl Undefined) \<and>
   init_asid (\<lambda>p. p) (\<lambda>_. 0) 65 demo_palloc \<lparr>supports_asid = False, asid_alloc = demo_id\<rparr> = Inl Undefined"
proof -
  let ?s = "\<lparr>supports_asid = False, asid_alloc = demo_id\<rparr>"
  have "2 \<le> unat (256 :: ulong) \<and> unat (256 :: ulong) \<le> 262145 \<and> (256 :: ulong) \<noteq> 65 \<longrightarrow>
      (\<exists>ps'' s1. init_asid (\<lambda>p. p) (\<lambda>_. 0) 256 demo_palloc ?s = Inr (ps'', s1) \<and> asid_supported s1 \<and>
        (\<forall>n<unat (256 :: ulong). \<exists>s2 xs. take_all alloc_asid n s1 = Inr (s2, xs) \<and> length xs = n \<and> distinct xs \<and> set xs \<subseteq> {1..<256} \<and>
           (n = unat (256 :: ulong) - 1 \<longrightarrow> alloc_asid s2 = Inl Undefined)))"
    by (rule asids_distinct [where limit = 256 and ps' = demo_palloc and ptr = 1, THEN conjunct2, THEN conjunct2, THEN conjunct2]) simp
  moreover have "2 \<le> unat (256 :: ulong) \<and> unat (256 :: ulong) \<le> 262145 \<and> (256 :: ulong) \<noteq> 65" by simp
  ultimately obtain ps s1 where r: "init_asid (\<lambda>p. p) (\<lambda>_. 0) 256 demo_palloc ?s = Inr (ps, s1)"
      "\<forall>n<unat (256 :: ulong). \<exists>s2 xs. take_all alloc_asid n s1 = Inr (s2, xs) \<and> length xs = n \<and> distinct xs \<and> set xs \<subseteq> {1..<256} \<and>
         (n = unat (256 :: ulong) - 1 \<longrightarrow> alloc_asid s2 = Inl Undefined)"
    by blast
  have "255 < unat (256 :: ulong)" "255 = unat (256 :: ulong) - 1" by simp_all
  then have "\<exists>s2 xs. take_all alloc_asid 255 s1 = Inr (s2, xs) \<and> length xs = 255 \<and> distinct xs \<and> alloc_asid s2 = Inl Undefined"
    using r(2) by blast
  moreover note r(1)
  moreover have "init_asid (\<lambda>p. p) (\<lambda>_. 0) 65 demo_palloc ?s = Inl Undefined"
    using asids_distinct [where limit = 65 and ps' = demo_palloc and ptr = 1, THEN conjunct2, THEN conjunct1] by force
  ultimately show ?thesis by blast
qed

end
