(* ===== verification/Spinlock.thy ===== *)
theory Spinlock
  imports Prelude
begin

text \<open>
  Spin locks, \<^verbatim>\<open>kernel/atomic/spinlock.c\<close>, on any number of processors. Every read, write and
  compare-and-swap of the lock word, and every change of a processor's interrupt state, is one step;
  the steps of different processors interleave in any order. The memory is sequentially consistent,
  which the barriers in the code ask for.

  A processor's program counter names the access it is about to make and carries the local variables
  that are still needed. Processors are numbered by natural numbers. A processor makes its next call
  when the previous one is over: a lock that is taken again by its owner, or by an interrupt handler on
  the owner's processor, never comes free, and such runs are outside the model.
\<close>

section \<open>State\<close>

record spinlock_t =
  locked :: bool
  int_enabled :: bool

definition spinlock_init :: spinlock_t where
  "spinlock_init = \<lparr>locked = False, int_enabled = False\<rparr>"

definition spinlock_init_locked :: spinlock_t where
  "spinlock_init_locked = \<lparr>locked = True, int_enabled = False\<rparr>"

definition spinlock_is_locked :: "spinlock_t \<Rightarrow> bool" where
  "spinlock_is_locked lock = locked lock"

text \<open>
  The argument \<open>irq\<close> distinguishes the variants that disable interrupts; their local variable
  \<^verbatim>\<open>enabled\<close> is kept in the processor's record. \<open>Failed\<close> is a processor whose \<^verbatim>\<open>trylock\<close> has returned -1.
\<close>

datatype lock_pc =
  Outside
| Lock_read bool
| Lock_cas bool spinlock_t
| Try_read bool
| Try_cas bool spinlock_t
| Save_read
| Save_cas spinlock_t
| Inside bool
| Unlock_store bool
| Restore
| Failed bool

record cpu =
  pc :: lock_pc
  int_on :: bool
  enabled :: bool

definition cas_bool :: "spinlock_t \<Rightarrow> spinlock_t \<Rightarrow> spinlock_t \<Rightarrow> spinlock_t \<times> bool" where
  "cas_bool lock old_val new_val = (if lock = old_val then (new_val, True) else (lock, False))"

section \<open>Operations\<close>

text \<open>Where a call starts; the \<open>irq\<close> variants disable interrupts first.\<close>

definition disable_local_int :: "cpu \<Rightarrow> cpu \<times> bool" where
  "disable_local_int c = (c\<lparr>int_on := False\<rparr>, int_on c)"

definition restore_local_int :: "bool \<Rightarrow> cpu \<Rightarrow> cpu res" where
  "restore_local_int en c =
     (if int_on c then assert_that en (Inr c) else if en then Inr (c\<lparr>int_on := True\<rparr>) else Inr c)"

definition spinlock_lock :: "cpu \<Rightarrow> cpu" where
  "spinlock_lock c = c\<lparr>pc := Lock_read False\<rparr>"

definition spinlock_lock_int :: "cpu \<Rightarrow> cpu" where
  "spinlock_lock_int c = (let (c, en) = disable_local_int c in c\<lparr>enabled := en, pc := Lock_read True\<rparr>)"

definition spinlock_trylock :: "cpu \<Rightarrow> cpu" where
  "spinlock_trylock c = c\<lparr>pc := Try_read False\<rparr>"

definition spinlock_trylock_int :: "cpu \<Rightarrow> cpu" where
  "spinlock_trylock_int c = (let (c, en) = disable_local_int c in c\<lparr>enabled := en, pc := Try_read True\<rparr>)"

text \<open>
  One access of a running call. Taking the lock leads to the critical section, in the \<open>irq\<close> variants
  after the saved interrupt state has been stored in the lock word. Leaving it asserts that the lock is
  locked and, in the \<open>irq\<close> variant, first reads the saved state back.
\<close>

fun spin_step :: "spinlock_t \<Rightarrow> cpu \<Rightarrow> (spinlock_t \<times> cpu) res" where
  "spin_step lock c =
     (case pc c of
        Outside \<Rightarrow> Inr (lock, c)
      | Lock_read irq \<Rightarrow> Inr (lock, c\<lparr>pc := if locked lock then Lock_read irq else Lock_cas irq lock\<rparr>)
      | Lock_cas irq old_val \<Rightarrow>
          let (lock, ok) = cas_bool lock old_val \<lparr>locked = True, int_enabled = False\<rparr>
          in Inr (lock, c\<lparr>pc := if \<not> ok then Lock_read irq else if irq then Save_read else Inside False\<rparr>)
      | Try_read irq \<Rightarrow> Inr (lock, c\<lparr>pc := if locked lock then Failed irq else Try_cas irq lock\<rparr>)
      | Try_cas irq old_val \<Rightarrow>
          let (lock, ok) = cas_bool lock old_val \<lparr>locked = True, int_enabled = False\<rparr>
          in Inr (lock, c\<lparr>pc := if \<not> ok then Failed irq else if irq then Save_read else Inside False\<rparr>)
      | Save_read \<Rightarrow> assert_that (locked lock) (Inr (lock, c\<lparr>pc := Save_cas lock\<rparr>))
      | Save_cas old_val \<Rightarrow>
          let (lock, success) = cas_bool lock old_val \<lparr>locked = True, int_enabled = enabled c\<rparr>
          in assert_that success (Inr (lock, c\<lparr>pc := Inside True\<rparr>))
      | Inside irq \<Rightarrow> Inr (lock, if irq then c\<lparr>enabled := int_enabled lock, pc := Unlock_store irq\<rparr> else c\<lparr>pc := Unlock_store irq\<rparr>)
      | Unlock_store irq \<Rightarrow>
          assert_that (locked lock)
            (Inr (spinlock_init, c\<lparr>pc := if irq then Restore else Outside\<rparr>))
      | Restore \<Rightarrow> ebind (restore_local_int (enabled c) c) (\<lambda>c. Inr (lock, c\<lparr>pc := Outside\<rparr>))
      | Failed irq \<Rightarrow> Inr (lock, c\<lparr>pc := Outside\<rparr>))"

declare spin_step.simps [simp del]

section \<open>Interleaving\<close>

type_synonym sys = "spinlock_t \<times> (nat \<Rightarrow> cpu)"

inductive spin_sys :: "sys \<Rightarrow> sys \<Rightarrow> bool" where
  call: "pc (cs i) = Outside \<Longrightarrow> op \<in> {spinlock_lock, spinlock_lock_int, spinlock_trylock, spinlock_trylock_int} \<Longrightarrow>
    spin_sys (lock, cs) (lock, cs(i := op (cs i)))"
| access: "pc (cs i) \<noteq> Outside \<Longrightarrow> spin_step lock (cs i) = Inr (lock', c') \<Longrightarrow> spin_sys (lock, cs) (lock', cs(i := c'))"

inductive spin_reach :: "sys \<Rightarrow> bool" where
  start: "(\<And>i. pc (cs i) = Outside) \<Longrightarrow> spin_reach (spinlock_init, cs)"
| step: "spin_reach s \<Longrightarrow> spin_sys s s' \<Longrightarrow> spin_reach s'"

inductive_cases spin_sysE: "spin_sys s s'"

section \<open>Mutual exclusion\<close>

text \<open>A processor owns the lock from its successful compare-and-swap to the store that unlocks it.\<close>

definition owns :: "cpu \<Rightarrow> bool" where
  "owns c \<longleftrightarrow> (case pc c of Save_read \<Rightarrow> True | Save_cas _ \<Rightarrow> True | Inside _ \<Rightarrow> True | Unlock_store _ \<Rightarrow> True | _ \<Rightarrow> False)"

text \<open>
  What an owner knows about the lock word: it has read what is there, and once the saved interrupt
  state is stored the word holds it. Interrupts are off from the call to the restore.
\<close>

definition knows :: "spinlock_t \<Rightarrow> cpu \<Rightarrow> bool" where
  "knows lock c \<longleftrightarrow>
     (case pc c of
        Save_cas old_val \<Rightarrow> old_val = lock
      | Inside irq \<Rightarrow> irq \<longrightarrow> int_enabled lock = enabled c
      | _ \<Rightarrow> True)"

definition irq_pc :: "lock_pc \<Rightarrow> bool" where
  "irq_pc p \<longleftrightarrow> (case p of Lock_read irq \<Rightarrow> irq | Lock_cas irq _ \<Rightarrow> irq | Try_read irq \<Rightarrow> irq | Try_cas irq _ \<Rightarrow> irq |
     Save_read \<Rightarrow> True | Save_cas _ \<Rightarrow> True | Inside irq \<Rightarrow> irq | Unlock_store irq \<Rightarrow> irq | Restore \<Rightarrow> True | _ \<Rightarrow> False)"

definition unlocked_old :: "lock_pc \<Rightarrow> bool" where
  "unlocked_old p \<longleftrightarrow> (case p of Lock_cas _ old_val \<Rightarrow> \<not> locked old_val | Try_cas _ old_val \<Rightarrow> \<not> locked old_val | _ \<Rightarrow> True)"

definition spin_inv :: "sys \<Rightarrow> bool" where
  "spin_inv s \<longleftrightarrow> (case s of (lock, cs) \<Rightarrow>
     (\<forall>i j. owns (cs i) \<longrightarrow> owns (cs j) \<longrightarrow> i = j) \<and> (locked lock \<longleftrightarrow> (\<exists>i. owns (cs i))) \<and>
     (\<forall>i. owns (cs i) \<longrightarrow> knows lock (cs i)) \<and> (\<forall>i. unlocked_old (pc (cs i))) \<and>
     (\<forall>i. irq_pc (pc (cs i)) \<longrightarrow> \<not> int_on (cs i)))"

lemmas spin_defs = owns_def knows_def irq_pc_def unlocked_old_def cas_bool_def disable_local_int_def restore_local_int_def
  spinlock_init_def

text \<open>One processor's step: what it does to the lock word and to its own claims.\<close>

lemma spin_step_local:
  assumes "spin_step lock c = Inr (lock', c')" "unlocked_old (pc c)" "irq_pc (pc c) \<longrightarrow> \<not> int_on c"
    "owns c \<longrightarrow> locked lock \<and> knows lock c" "pc c \<noteq> Outside"
  shows "unlocked_old (pc c') \<and> (irq_pc (pc c') \<longrightarrow> \<not> int_on c') \<and> (owns c' \<longrightarrow> knows lock' c') \<and>
    (if owns c then locked lock' = owns c' else if owns c' then \<not> locked lock \<and> locked lock' else lock' = lock)"
  using assms by (cases "pc c") (auto simp: spin_step.simps spin_defs assert_that_def Let_def split: if_splits)

lemma spin_step_no_fault:
  assumes "owns c \<longrightarrow> locked lock \<and> knows lock c" "irq_pc (pc c) \<longrightarrow> \<not> int_on c" shows "\<exists>r. spin_step lock c = Inr r"
  using assms by (cases "pc c") (auto simp: spin_step.simps spin_defs Let_def split: prod.split)

lemma spin_inv_step:
  assumes inv: "spin_inv s" and st: "spin_sys s s'" shows "spin_inv s'"
  using st
proof cases
  case (call cs i op lock)
  have new: "\<not> owns (op (cs i))" "unlocked_old (pc (op (cs i)))" "irq_pc (pc (op (cs i))) \<longrightarrow> \<not> int_on (op (cs i))" "\<not> owns (cs i)"
    using call(3,4) by (auto simp: spin_defs spinlock_lock_def spinlock_lock_int_def spinlock_trylock_def spinlock_trylock_int_def)
  have "owns ((cs(i := op (cs i))) j) = owns (cs j)" for j using new by simp
  moreover have "knows lock ((cs(i := op (cs i))) j)" if "owns (cs j)" for j
    using inv call(1) new that by (auto simp: spin_inv_def)
  ultimately show ?thesis using inv call(1,2) new unfolding spin_inv_def by auto
next
  case (access cs i lock lock' c')
  have I: "\<forall>i j. owns (cs i) \<longrightarrow> owns (cs j) \<longrightarrow> i = j" "locked lock \<longleftrightarrow> (\<exists>i. owns (cs i))"
      "\<forall>i. owns (cs i) \<longrightarrow> knows lock (cs i)" "\<forall>i. unlocked_old (pc (cs i))" "\<forall>i. irq_pc (pc (cs i)) \<longrightarrow> \<not> int_on (cs i)"
    using inv access(1) by (auto simp: spin_inv_def)
  have L: "unlocked_old (pc c')" "irq_pc (pc c') \<longrightarrow> \<not> int_on c'" "owns c' \<longrightarrow> knows lock' c'"
      "if owns (cs i) then locked lock' = owns c' else if owns c' then \<not> locked lock \<and> locked lock' else lock' = lock"
    using spin_step_local [OF access(4)] I access(3) by blast+
  have ow: "owns ((cs(i := c')) j) \<longleftrightarrow> (if j = i then owns c' else owns (cs j))" for j by simp
  have kn: "knows lock' (cs j)" if "j \<noteq> i" "owns (cs j)" for j
  proof -
    have "\<not> owns (cs i)" using I(1) that by blast
    then have "lock' = lock" using L(4) I(2) that by (auto split: if_splits)
    then show ?thesis using I(3) that by blast
  qed
  have one: "\<forall>j k. owns ((cs(i := c')) j) \<longrightarrow> owns ((cs(i := c')) k) \<longrightarrow> j = k"
    unfolding ow using I(1,2) L(4) by (auto split: if_splits)
  have lk: "locked lock' \<longleftrightarrow> (\<exists>j. owns ((cs(i := c')) j))"
    unfolding ow using I(1,2) L(4) by (auto split: if_splits)
  have "\<forall>j. owns ((cs(i := c')) j) \<longrightarrow> knows lock' ((cs(i := c')) j)" using L(3) kn by simp
  moreover have "\<forall>j. unlocked_old (pc ((cs(i := c')) j))" "\<forall>j. irq_pc (pc ((cs(i := c')) j)) \<longrightarrow> \<not> int_on ((cs(i := c')) j)"
    using L(1,2) I(4,5) by simp_all
  ultimately show ?thesis unfolding access(2) spin_inv_def prod.case using one lk by blast
qed

lemma spin_reach_inv: "spin_reach s \<Longrightarrow> spin_inv s"
proof (induction rule: spin_reach.induct)
  case (start cs)
  then show ?case by (auto simp: spin_inv_def spin_defs)
next
  case (step s s')
  then show ?case using spin_inv_step by blast
qed

section \<open>Progress\<close>

definition reaches :: "sys \<Rightarrow> sys \<Rightarrow> bool" where
  "reaches = rtranclp spin_sys"

lemma reaches_access:
  "pc (cs i) \<noteq> Outside \<Longrightarrow> spin_step lock (cs i) = Inr (lock', c') \<Longrightarrow> reaches (lock', cs(i := c')) s' \<Longrightarrow> reaches (lock, cs) s'"
  unfolding reaches_def using spin_sys.access by (rule converse_rtranclp_into_rtranclp)

lemma reaches_refl [simp]: "reaches s s"
  by (simp add: reaches_def)

lemma reaches_trans: "reaches s s' \<Longrightarrow> reaches s' s'' \<Longrightarrow> reaches s s''"
  unfolding reaches_def by (rule rtranclp_trans)

text \<open>The owner can always go on to release the lock.\<close>

lemma owner_releases:
  assumes inv: "spin_inv (lock, cs)" and own: "owns (cs j)"
  shows "\<exists>lock' c'. reaches (lock, cs) (lock', cs(j := c')) \<and> \<not> locked lock'"
proof -
  have lk: "locked lock" using inv own by (auto simp: spin_inv_def)
  have unl: "\<exists>lock' c'. reaches (lock, cs) (lock', cs(j := c')) \<and> \<not> locked lock'"
    if "pc (cs j) = Unlock_store irq" "locked lock" for lock cs irq
  proof -
    have "spin_step lock (cs j) = Inr (spinlock_init, (cs j)\<lparr>pc := if irq then Restore else Outside\<rparr>)"
      using that by (simp add: spin_step.simps)
    then have "reaches (lock, cs) (spinlock_init, cs(j := (cs j)\<lparr>pc := if irq then Restore else Outside\<rparr>))"
      using that reaches_access [of cs j lock] by simp
    then show ?thesis by (auto simp: spinlock_init_def)
  qed
  have ins: "\<exists>lock' c'. reaches (lock, cs) (lock', cs(j := c')) \<and> \<not> locked lock'"
    if p: "pc (cs j) = Inside irq" "locked lock" for lock cs irq
  proof -
    define c1 where "c1 = (if irq then (cs j)\<lparr>enabled := int_enabled lock, pc := Unlock_store irq\<rparr> else (cs j)\<lparr>pc := Unlock_store irq\<rparr>)"
    have "spin_step lock (cs j) = Inr (lock, c1)" "pc c1 = Unlock_store irq" using p by (simp_all add: spin_step.simps c1_def)
    then show ?thesis using unl [of "cs(j := c1)" irq lock] p reaches_access [of cs j lock lock c1] by auto
  qed
  have sav: "\<exists>lock' c'. reaches (lock, cs) (lock', cs(j := c')) \<and> \<not> locked lock'"
    if p: "pc (cs j) = Save_cas lock" "locked lock" for lock cs
  proof -
    define c1 where "c1 = (cs j)\<lparr>pc := Inside True\<rparr>"
    define l1 where "l1 = \<lparr>locked = True, int_enabled = enabled (cs j)\<rparr>"
    have "spin_step lock (cs j) = Inr (l1, c1)" "pc c1 = Inside True" "locked l1" using p by (simp_all add: spin_step.simps c1_def l1_def cas_bool_def)
    then show ?thesis using ins [of "cs(j := c1)" True l1] p reaches_access [of cs j lock l1 c1] by auto
  qed
  have rd: "\<exists>lock' c'. reaches (lock, cs) (lock', cs(j := c')) \<and> \<not> locked lock'"
    if p: "pc (cs j) = Save_read" "locked lock" for lock cs
  proof -
    define c1 where "c1 = (cs j)\<lparr>pc := Save_cas lock\<rparr>"
    have "spin_step lock (cs j) = Inr (lock, c1)" "pc c1 = Save_cas lock" using p by (simp_all add: spin_step.simps c1_def)
    then show ?thesis using sav [of "cs(j := c1)" lock] p reaches_access [of cs j lock lock c1] by auto
  qed
  have "knows lock (cs j)" using inv own by (auto simp: spin_inv_def)
  then show ?thesis using own lk unl ins sav rd by (cases "pc (cs j)") (auto simp: owns_def knows_def)
qed

lemma spinner_acquires:
  assumes "\<not> locked lock" "pc (cs i) = Lock_read irq"
  shows "\<exists>s'. reaches (lock, cs) s' \<and> owns (snd s' i)"
proof -
  define c1 where "c1 = (cs i)\<lparr>pc := Lock_cas irq lock\<rparr>"
  define c2 where "c2 = c1\<lparr>pc := if irq then Save_read else Inside False\<rparr>"
  define l2 where "l2 = \<lparr>locked = True, int_enabled = False\<rparr>"
  have "spin_step lock (cs i) = Inr (lock, c1)" "spin_step lock c1 = Inr (l2, c2)" "pc c1 \<noteq> Outside" "owns c2"
    using assms by (simp_all add: spin_step.simps c1_def c2_def l2_def cas_bool_def owns_def)
  then have "reaches (lock, cs) (l2, cs(i := c1, i := c2))"
    using assms reaches_access [of cs i lock lock c1] reaches_access [of "cs(i := c1)" i lock l2 c2] by auto
  then show ?thesis using \<open>owns c2\<close> by force
qed

section \<open>The interrupt state across a critical section\<close>

text \<open>
  Runs that remember, for every processor, the interrupt state at its latest call. The memory is not
  part of the program.
\<close>

inductive spin_hist :: "sys \<Rightarrow> (nat \<Rightarrow> bool) \<Rightarrow> bool" where
  start: "(\<And>i. pc (cs i) = Outside) \<Longrightarrow> spin_hist (spinlock_init, cs) g"
| call: "spin_hist (lock, cs) g \<Longrightarrow> pc (cs i) = Outside \<Longrightarrow> op \<in> {spinlock_lock, spinlock_lock_int, spinlock_trylock, spinlock_trylock_int} \<Longrightarrow>
    spin_hist (lock, cs(i := op (cs i))) (g(i := int_on (cs i)))"
| access: "spin_hist (lock, cs) g \<Longrightarrow> pc (cs i) \<noteq> Outside \<Longrightarrow> spin_step lock (cs i) = Inr (lock', c') \<Longrightarrow>
    spin_hist (lock', cs(i := c')) g"

lemma spin_hist_reach: "spin_hist s g \<Longrightarrow> spin_reach s"
  by (induction rule: spin_hist.induct) (auto intro: spin_reach.intros spin_sys.intros)

text \<open>
  Where the saved interrupt state is: in the local variable up to the store into the lock word, in the
  lock word during the critical section, and in the local variable of \<^verbatim>\<open>spinlock_unlock_int\<close> afterwards.
  The plain variants leave the processor's state as it was.
\<close>

definition saved :: "spinlock_t \<Rightarrow> cpu \<Rightarrow> bool \<Rightarrow> bool" where
  "saved lock c on \<longleftrightarrow>
     (if pc c = Outside then True
      else if pc c = Inside True then int_enabled lock = on
      else if pc c = Failed True then \<not> int_on c
      else if irq_pc (pc c) then enabled c = on
      else int_on c = on)"

lemma saved_call:
  assumes "op \<in> {spinlock_lock, spinlock_lock_int, spinlock_trylock, spinlock_trylock_int}"
  shows "saved lock (op c) (int_on c)"
  using assms by (auto simp: saved_def irq_pc_def disable_local_int_def
    spinlock_lock_def spinlock_lock_int_def spinlock_trylock_def spinlock_trylock_int_def)

lemma saved_step:
  assumes "spin_step lock c = Inr (lock', c')" "saved lock c on" "irq_pc (pc c) \<longrightarrow> \<not> int_on c" "pc c \<noteq> Outside"
  shows "saved lock' c' on"
  using assms by (cases "pc c") (auto simp: spin_step.simps saved_def irq_pc_def cas_bool_def restore_local_int_def assert_that_def
    Let_def split: if_splits)

lemma saved_other:
  assumes "saved lock c on" "owns c \<longrightarrow> lock' = lock"
  shows "saved lock' c on"
  using assms by (cases "pc c") (auto simp: saved_def owns_def irq_pc_def)

lemma spin_hist_saved: "spin_hist s g \<Longrightarrow> \<forall>i. saved (fst s) (snd s i) (g i)"
proof (induction rule: spin_hist.induct)
  case (start cs g)
  then show ?case by (simp add: saved_def)
next
  case (call lock cs g i op)
  then show ?case using saved_call [OF call(3), of lock "cs i"] by simp
next
  case (access lock cs g i lock' c')
  have inv: "spin_inv (lock, cs)" using spin_reach_inv spin_hist_reach access(1) by blast
  have I: "\<forall>i j. owns (cs i) \<longrightarrow> owns (cs j) \<longrightarrow> i = j" "locked lock \<longleftrightarrow> (\<exists>i. owns (cs i))"
      "\<forall>i. owns (cs i) \<longrightarrow> knows lock (cs i)" "\<forall>i. unlocked_old (pc (cs i))" "\<forall>i. irq_pc (pc (cs i)) \<longrightarrow> \<not> int_on (cs i)"
    using inv by (auto simp: spin_inv_def)
  have L: "if owns (cs i) then locked lock' = owns c' else if owns c' then \<not> locked lock \<and> locked lock' else lock' = lock"
    using spin_step_local [OF access(3)] I access(2) by blast
  have "saved lock' c' (g i)" using saved_step [OF access(3)] access(2,4) I(5) by simp
  moreover have "saved lock' (cs j) (g j)" if "j \<noteq> i" for j
  proof (rule saved_other)
    show "saved lock (cs j) (g j)" using access(4) by simp
    show "owns (cs j) \<longrightarrow> lock' = lock"
    proof
      assume "owns (cs j)"
      then have "\<not> owns (cs i)" "locked lock" using I(1,2) that by blast+
      then show "lock' = lock" using L by (auto split: if_splits)
    qed
  qed
  ultimately show ?case by simp
qed

section \<open>Properties\<close>

text \<open>
  C14: Spin locks exclude each other on any number of processors, for the plain, the trylock and the
  interrupt-disabling variants together: in every reachable state at most one processor owns the lock,
  the lock word says locked exactly when someone owns it, no assertion of the code can fail in the next
  step of any processor, and a processor in a critical section entered by \<^verbatim>\<open>spinlock_lock_int\<close> has its
  interrupts disabled.
\<close>

theorem spinlock_mutual_exclusion:
  assumes "spin_reach (lock, cs)"
  shows "(\<forall>i j. owns (cs i) \<longrightarrow> owns (cs j) \<longrightarrow> i = j) \<and> (spinlock_is_locked lock \<longleftrightarrow> (\<exists>i. owns (cs i))) \<and>
     (\<forall>i. \<exists>r. spin_step lock (cs i) = Inr r) \<and> (\<forall>i. pc (cs i) = Inside True \<longrightarrow> \<not> int_on (cs i))"
proof -
  have inv: "spin_inv (lock, cs)" using spin_reach_inv [OF assms] .
  have "\<exists>r. spin_step lock (cs i) = Inr r" for i
    by (rule spin_step_no_fault) (use inv in \<open>auto simp: spin_inv_def\<close>)
  moreover have "\<not> int_on (cs i)" if "pc (cs i) = Inside True" for i
    using inv that unfolding spin_inv_def irq_pc_def by force
  ultimately show ?thesis using inv unfolding spin_inv_def spinlock_is_locked_def by blast
qed

definition demo_cpu :: cpu where
  "demo_cpu = \<lparr>pc = Outside, int_on = True, enabled = False\<rparr>"

lemma demo_start: "spin_reach (spinlock_init, \<lambda>_. demo_cpu)"
  by (rule spin_reach.start) (simp add: demo_cpu_def)

text \<open>Processor 0 has called \<^verbatim>\<open>spinlock_lock_int\<close> and taken the lock.\<close>

definition demo_owner :: sys where
  "demo_owner = (\<lparr>locked = True, int_enabled = False\<rparr>, (\<lambda>_. demo_cpu)(0 := \<lparr>pc = Save_read, int_on = False, enabled = True\<rparr>))"

lemma demo_owner_reach: "spin_reach demo_owner"
proof -
  define c1 where "c1 = spinlock_lock_int demo_cpu"
  define c2 where "c2 = c1\<lparr>pc := Lock_cas True spinlock_init\<rparr>"
  define c3 where "c3 = c1\<lparr>pc := Save_read\<rparr>"
  define l3 where "l3 = \<lparr>locked = True, int_enabled = False\<rparr>"
  note d = spinlock_lock_int_def disable_local_int_def demo_cpu_def spin_step.simps cas_bool_def spinlock_init_def
  have st: "pc c1 \<noteq> Outside" "pc c2 \<noteq> Outside" "spin_step spinlock_init c1 = Inr (spinlock_init, c2)" "spin_step spinlock_init c2 = Inr (l3, c3)"
    by (simp_all add: c1_def c2_def c3_def l3_def d)
  have "spin_sys (spinlock_init, \<lambda>_. demo_cpu) (spinlock_init, (\<lambda>_. demo_cpu)(0 := c1))"
    unfolding c1_def by (rule spin_sys.call) (simp_all add: demo_cpu_def)
  moreover have "spin_sys (spinlock_init, (\<lambda>_. demo_cpu)(0 := c1)) (spinlock_init, (\<lambda>_. demo_cpu)(0 := c2))"
    using spin_sys.access [of "(\<lambda>_. demo_cpu)(0 := c1)" 0] st by simp
  moreover have "spin_sys (spinlock_init, (\<lambda>_. demo_cpu)(0 := c2)) (l3, (\<lambda>_. demo_cpu)(0 := c3))"
    using spin_sys.access [of "(\<lambda>_. demo_cpu)(0 := c2)" 0] st by simp
  ultimately have "spin_reach (l3, (\<lambda>_. demo_cpu)(0 := c3))"
    using spin_reach.step demo_start by metis
  moreover have "c3 = \<lparr>pc = Save_read, int_on = False, enabled = True\<rparr>" by (simp add: c3_def c1_def d)
  ultimately show ?thesis by (simp add: demo_owner_def l3_def)
qed

theorem spinlock_mutual_exclusion_witness:
  "spinlock_is_locked (fst demo_owner) \<and> {i. owns (snd demo_owner i)} = {0}"
proof -
  have "spin_reach (fst demo_owner, snd demo_owner)" using demo_owner_reach by simp
  moreover have "owns (snd demo_owner 0)" by (simp add: demo_owner_def owns_def)
  ultimately show ?thesis using spinlock_mutual_exclusion [of "fst demo_owner" "snd demo_owner"] by blast
qed

text \<open>
  C15: Waiting for a spin lock is never a deadlock: from every reachable state in which a processor spins
  on the lock there is a way to continue that ends with this processor owning it, whoever owns it now
  being able to go on and release it.
\<close>

theorem spinlock_no_deadlock:
  assumes "spin_reach (lock, cs)" "pc (cs i) = Lock_read irq"
  shows "\<exists>s'. reaches (lock, cs) s' \<and> owns (snd s' i)"
proof (cases "locked lock")
  case True
  have inv: "spin_inv (lock, cs)" using spin_reach_inv [OF assms(1)] .
  then obtain j where j: "owns (cs j)" using True by (auto simp: spin_inv_def)
  then have "j \<noteq> i" using assms(2) by (auto simp: owns_def)
  obtain lock' c' where r: "reaches (lock, cs) (lock', cs(j := c'))" "\<not> locked lock'"
    using owner_releases [OF inv j] by blast
  have "pc ((cs(j := c')) i) = Lock_read irq" using assms(2) \<open>j \<noteq> i\<close> by simp
  then obtain s' where "reaches (lock', cs(j := c')) s'" "owns (snd s' i)"
    using spinner_acquires [OF r(2)] by blast
  then show ?thesis using reaches_trans [OF r(1)] by blast
qed (use spinner_acquires assms(2) in blast)

text \<open>Processor 1 spins while processor 0 owns the lock.\<close>

definition demo_spinner :: "nat \<Rightarrow> cpu" where
  "demo_spinner = (snd demo_owner)(1 := spinlock_lock demo_cpu)"

lemma demo_spinner_reach: "spin_reach (fst demo_owner, demo_spinner)"
proof -
  have "spin_sys demo_owner (fst demo_owner, demo_spinner)"
    using spin_sys.call [of "snd demo_owner" 1 spinlock_lock "fst demo_owner"]
    by (simp add: demo_spinner_def) (simp add: demo_owner_def demo_cpu_def)
  then show ?thesis using spin_reach.step [OF demo_owner_reach] by blast
qed

theorem spinlock_no_deadlock_witness: "\<exists>s'. reaches (fst demo_owner, demo_spinner) s' \<and> owns (snd s' 1)"
  by (rule spinlock_no_deadlock [OF demo_spinner_reach, of _ False]) (simp add: demo_spinner_def spinlock_lock_def)

text \<open>
  Processor 0 alone, from its call of \<^verbatim>\<open>spinlock_lock_int\<close> to the end of \<^verbatim>\<open>spinlock_unlock_int\<close>, and processor 1 trying
  in the middle of it.
\<close>

lemma hist_alone:
  "spin_hist (lock, (\<lambda>_. demo_cpu)(0 := c)) g \<Longrightarrow> pc c \<noteq> Outside \<Longrightarrow> spin_step lock c = Inr (lock', c') \<Longrightarrow>
   spin_hist (lock', (\<lambda>_. demo_cpu)(0 := c')) g"
  using spin_hist.access [of lock "(\<lambda>_. demo_cpu)(0 := c)" g 0 lock' c'] by simp

lemma demo_locked_hist:
  "spin_hist (\<lparr>locked = True, int_enabled = False\<rparr>, (\<lambda>_. demo_cpu)(0 := \<lparr>pc = Save_read, int_on = False, enabled = True\<rparr>)) (\<lambda>_. True)"
proof -
  have "spin_hist (spinlock_init, \<lambda>_. demo_cpu) (\<lambda>_. True)" by (rule spin_hist.start) (simp add: demo_cpu_def)
  then have "spin_hist (spinlock_init, (\<lambda>_. demo_cpu)(0 := spinlock_lock_int demo_cpu)) ((\<lambda>_. True)(0 := int_on demo_cpu))"
    by (rule spin_hist.call) (simp_all add: demo_cpu_def)
  then have "spin_hist (spinlock_init, (\<lambda>_. demo_cpu)(0 := \<lparr>pc = Lock_read True, int_on = False, enabled = True\<rparr>)) (\<lambda>_. True)"
    by (simp add: spinlock_lock_int_def disable_local_int_def demo_cpu_def fun_upd_idem)
  then have "spin_hist (spinlock_init, (\<lambda>_. demo_cpu)(0 := \<lparr>pc = Lock_cas True spinlock_init, int_on = False, enabled = True\<rparr>)) (\<lambda>_. True)"
    by (rule hist_alone) (simp_all add: spin_step.simps spinlock_init_def)
  then show ?thesis by (rule hist_alone) (simp_all add: spin_step.simps cas_bool_def)
qed

lemma demo_failed: "\<exists>lock cs g. spin_hist (lock, cs) g \<and> pc (cs 1) = Failed True \<and> g 1"
proof -
  let ?l = "\<lparr>locked = True, int_enabled = False\<rparr>" and ?cs = "(\<lambda>_. demo_cpu)(0 :: nat := \<lparr>pc = Save_read, int_on = False, enabled = True\<rparr>)"
  have "spin_hist (?l, ?cs(1 := spinlock_trylock_int (?cs 1))) ((\<lambda>_. True)(1 := int_on (?cs 1)))"
    by (rule spin_hist.call [OF demo_locked_hist, of 1 spinlock_trylock_int]) (simp_all add: demo_cpu_def)
  then have "spin_hist (?l, (?cs(1 := spinlock_trylock_int (?cs 1)))(1 := \<lparr>pc = Failed True, int_on = False, enabled = True\<rparr>)) ((\<lambda>_. True)(1 := int_on (?cs 1)))"
    by (rule spin_hist.access) (simp_all add: spinlock_trylock_int_def disable_local_int_def demo_cpu_def spin_step.simps)
  moreover have "((\<lambda>_. True)(1 := int_on (?cs 1))) 1" by (simp add: demo_cpu_def)
  ultimately show ?thesis by fastforce
qed

lemma demo_restore: "\<exists>lock cs g. spin_hist (lock, cs) g \<and> pc (cs 0) = Restore \<and> g 0"
proof -
  let ?l = "\<lparr>locked = True, int_enabled = False\<rparr>" and ?l2 = "\<lparr>locked = True, int_enabled = True\<rparr>"
  let ?cs = "\<lambda>p. (\<lambda>_. demo_cpu)(0 := \<lparr>pc = p, int_on = False, enabled = True\<rparr>)"
  have "spin_hist (?l, ?cs (Save_cas ?l)) (\<lambda>_. True)"
    using demo_locked_hist by (rule hist_alone) (simp_all add: spin_step.simps)
  then have "spin_hist (?l2, ?cs (Inside True)) (\<lambda>_. True)"
    by (rule hist_alone) (simp_all add: spin_step.simps cas_bool_def)
  then have "spin_hist (?l2, ?cs (Unlock_store True)) (\<lambda>_. True)" by (rule hist_alone) (simp_all add: spin_step.simps)
  then have "spin_hist (spinlock_init, ?cs Restore) (\<lambda>_. True)" by (rule hist_alone) (simp_all add: spin_step.simps)
  then show ?thesis by fastforce
qed



end
