(* ===== verification/Kstring.thy ===== *)
theory Kstring
  imports Prelude "HOL-Library.Sublist"
begin

text \<open>
  The string and memory routines of \<^verbatim>\<open>libk/lib/string.c\<close> on a byte-addressed memory in which only some
  addresses belong to an object: the model of the routines, what a terminated string in memory is, and
  the lemmas and properties about each routine.

  The loops that stop at a terminator need not stop, so they are partial functions: \<open>None\<close> is a loop that
  runs forever. Loops that count are total. Whether the C type \<^verbatim>\<open>char\<close> is signed depends on the processor;
  the routines for which it matters take it as their first argument.
\<close>

section \<open>Memory\<close>

type_synonym memory = "ulong \<Rightarrow> u8 option"

definition load_byte :: "memory \<Rightarrow> ulong \<Rightarrow> u8 res" where
  "load_byte m p = (if p = 0 then Inl Undefined else case m p of None \<Rightarrow> Inl Undefined | Some b \<Rightarrow> Inr b)"

definition store_byte :: "memory \<Rightarrow> ulong \<Rightarrow> u8 \<Rightarrow> memory res" where
  "store_byte m p b = (if p = 0 \<or> m p = None then Inl Undefined else Inr (m(p := Some b)))"

definition char_int :: "bool \<Rightarrow> u8 \<Rightarrow> int" where
  "char_int signed_char b = (if signed_char then sint b else uint b)"

text \<open>A step of a loop that may not return: continue with the value, or end with the fault.\<close>

definition and_then :: "'a res \<Rightarrow> ('a \<Rightarrow> 'b res option) \<Rightarrow> 'b res option" where
  "and_then r k = (case r of Inl f \<Rightarrow> Some (Inl f) | Inr x \<Rightarrow> k x)"

lemma and_then_simps [simp]: "and_then (Inr x) k = k x" "and_then (Inl f) k = Some (Inl f)"
  by (simp_all add: and_then_def)

lemma and_then_mono [partial_function_mono]:
  assumes "\<And>y. monotone (fun_ord option_ord) option_ord (\<lambda>f. k f y)"
  shows "monotone (fun_ord option_ord) option_ord (\<lambda>f. and_then r (k f))"
proof (cases r)
  case (Inl e)
  then show ?thesis by (simp add: monotone_def flat_ord_def)
qed (use assms in simp)

definition return :: "'a \<Rightarrow> 'a res option" where
  "return x = Some (Inr x)"

section \<open>Strings\<close>

partial_function (option) strcpy_loop :: "memory \<Rightarrow> ulong \<Rightarrow> ulong \<Rightarrow> u8 \<Rightarrow> memory res option" where
  "strcpy_loop m dest src ch =
     (if ch \<noteq> 0
      then and_then (store_byte m dest ch) (\<lambda>m. and_then (load_byte m (src + 1)) (\<lambda>ch. strcpy_loop m (dest + 1) (src + 1) ch))
      else and_then (store_byte m dest 0) return)"

definition strcpy :: "memory \<Rightarrow> ulong \<Rightarrow> ulong \<Rightarrow> (memory \<times> ulong) res option" where
  "strcpy m dest src =
     and_then (load_byte m src) (\<lambda>ch. case strcpy_loop m dest src ch of
       None \<Rightarrow> None | Some r \<Rightarrow> Some (ebind r (\<lambda>m. Inr (m, dest))))"

function strncpy_loop :: "memory \<Rightarrow> ulong \<Rightarrow> ulong \<Rightarrow> u8 \<Rightarrow> ulong \<Rightarrow> ulong \<Rightarrow> (memory \<times> ulong \<times> ulong) res" where
  "strncpy_loop m dest src ch i n =
     (if ch \<noteq> 0 \<and> i < n
      then ebind (store_byte m dest ch) (\<lambda>m. ebind (load_byte m (src + 1)) (\<lambda>ch. strncpy_loop m (dest + 1) (src + 1) ch (i + 1) n))
      else Inr (m, dest, i))"
  by pat_completeness auto

definition count_up :: "ulong \<Rightarrow> ulong \<Rightarrow> nat" where
  "count_up i n = unat n - unat i"

lemma unat_Suc_less: "i < n \<Longrightarrow> unat (i + 1 :: ulong) = Suc (unat i)"
proof -
  assume "i < n"
  then have "Suc (unat i) < 2 ^ 64" using unsigned_less [of n, where ?'a = nat] by (simp add: word_less_nat_alt)
  then show ?thesis by (simp add: unat_word_ariths)
qed

lemma count_up_less: "i < n \<Longrightarrow> count_up (i + 1) n < count_up i n"
  by (simp add: count_up_def unat_Suc_less word_less_nat_alt)

termination strncpy_loop
  by (relation "measure (\<lambda>(_, _, _, _, i, n). count_up i n)") (auto intro: count_up_less)

definition strncpy :: "memory \<Rightarrow> ulong \<Rightarrow> ulong \<Rightarrow> ulong \<Rightarrow> (memory \<times> ulong) res" where
  "strncpy m dest src n =
     ebind (load_byte m src) (\<lambda>ch. ebind (strncpy_loop m dest src ch 0 n) (\<lambda>(m, end, i).
       if i < n then ebind (store_byte m end 0) (\<lambda>m. Inr (m, dest)) else Inr (m, dest)))"

definition char_order :: "bool \<Rightarrow> u8 \<Rightarrow> u8 \<Rightarrow> int" where
  "char_order sc a b = (if char_int sc a > char_int sc b then 1 else -1)"

partial_function (option) strcmp_loop :: "bool \<Rightarrow> memory \<Rightarrow> ulong \<Rightarrow> ulong \<Rightarrow> int res option" where
  "strcmp_loop sc m s1 s2 =
     and_then (load_byte m s1) (\<lambda>a. and_then (load_byte m s2) (\<lambda>b.
       if a \<noteq> 0 \<or> b \<noteq> 0
       then if a \<noteq> b then return (char_order sc a b) else strcmp_loop sc m (s1 + 1) (s2 + 1)
       else return 0))"

definition strcmp :: "bool \<Rightarrow> memory \<Rightarrow> ulong \<Rightarrow> ulong \<Rightarrow> int res option" where
  "strcmp sc m s1 s2 = (if s1 = 0 \<and> s2 = 0 then return 0 else strcmp_loop sc m s1 s2)"

function strncmp_loop :: "bool \<Rightarrow> memory \<Rightarrow> ulong \<Rightarrow> ulong \<Rightarrow> ulong \<Rightarrow> int res" where
  "strncmp_loop sc m s1 s2 n =
     (if n \<noteq> 0
      then ebind (load_byte m s1) (\<lambda>a. ebind (load_byte m s2) (\<lambda>b.
        if a \<noteq> 0 \<or> b \<noteq> 0
        then if a \<noteq> b then Inr (char_order sc a b) else strncmp_loop sc m (s1 + 1) (s2 + 1) (n - 1)
        else Inr 0))
      else Inr 0)"
  by pat_completeness auto

lemma unat_pred_less: "n \<noteq> 0 \<Longrightarrow> unat (n - 1 :: ulong) < unat n"
  using measure_unat by blast

termination strncmp_loop
  by (relation "measure (\<lambda>(_, _, _, _, n). unat n)") (auto intro: unat_pred_less)

definition strncmp :: "bool \<Rightarrow> memory \<Rightarrow> ulong \<Rightarrow> ulong \<Rightarrow> ulong \<Rightarrow> int res" where
  "strncmp sc m s1 s2 n = (if s1 = 0 \<and> s2 = 0 then Inr 0 else strncmp_loop sc m s1 s2 n)"

text \<open>The counter of \<^verbatim>\<open>strlen\<close> is an \<^verbatim>\<open>int\<close>, whose overflow is undefined.\<close>

partial_function (option) strlen_loop :: "memory \<Rightarrow> ulong \<Rightarrow> int \<Rightarrow> ulong res option" where
  "strlen_loop m s len =
     and_then (load_byte m s) (\<lambda>c.
       if c \<noteq> 0
       then if len + 1 < 2 ^ 31 then strlen_loop m (s + 1) (len + 1) else Some (Inl Undefined)
       else return (of_int len))"

definition strlen :: "memory \<Rightarrow> ulong \<Rightarrow> ulong res option" where
  "strlen m s = strlen_loop m s 0"

partial_function (option) strpbrk_inner :: "memory \<Rightarrow> ulong \<Rightarrow> ulong \<Rightarrow> bool res option" where
  "strpbrk_inner m str1 cmp =
     and_then (load_byte m cmp) (\<lambda>b.
       if b \<noteq> 0
       then and_then (load_byte m str1) (\<lambda>a. if b = a then return True else strpbrk_inner m str1 (cmp + 1))
       else return False)"

partial_function (option) strpbrk_loop :: "memory \<Rightarrow> ulong \<Rightarrow> ulong \<Rightarrow> ulong res option" where
  "strpbrk_loop m str1 str2 =
     and_then (load_byte m str1) (\<lambda>a.
       if a \<noteq> 0
       then (case strpbrk_inner m str1 str2 of
               None \<Rightarrow> None
             | Some r \<Rightarrow> and_then r (\<lambda>found. if found then return str1 else strpbrk_loop m (str1 + 1) str2))
       else return 0)"

definition strpbrk :: "memory \<Rightarrow> ulong \<Rightarrow> ulong \<Rightarrow> ulong res option" where
  "strpbrk m str1 str2 = (if str1 = 0 \<or> str2 = 0 then return 0 else strpbrk_loop m str1 str2)"

partial_function (option) strchr_loop :: "bool \<Rightarrow> memory \<Rightarrow> ulong \<Rightarrow> int \<Rightarrow> ulong res option" where
  "strchr_loop sc m str c =
     and_then (load_byte m str) (\<lambda>a.
       if a \<noteq> 0 then if char_int sc a = c then return str else strchr_loop sc m (str + 1) c else return 0)"

definition strchr :: "bool \<Rightarrow> memory \<Rightarrow> ulong \<Rightarrow> int \<Rightarrow> ulong res option" where
  "strchr sc m str c = (if str = 0 then return 0 else strchr_loop sc m str c)"

section \<open>Memory blocks\<close>

function memcpy_loop :: "memory \<Rightarrow> ulong \<Rightarrow> ulong \<Rightarrow> ulong \<Rightarrow> ulong \<Rightarrow> memory res" where
  "memcpy_loop m d s i count =
     (if i < count
      then ebind (load_byte m (s + i)) (\<lambda>b. ebind (store_byte m (d + i) b) (\<lambda>m. memcpy_loop m d s (i + 1) count))
      else Inr m)"
  by pat_completeness auto

termination memcpy_loop
  by (relation "measure (\<lambda>(_, _, _, i, n). count_up i n)") (auto intro: count_up_less)

definition memcpy :: "memory \<Rightarrow> ulong \<Rightarrow> ulong \<Rightarrow> ulong \<Rightarrow> (memory \<times> ulong) res" where
  "memcpy m dest src count = ebind (memcpy_loop m dest src 0 count) (\<lambda>m. Inr (m, dest))"

function memset_loop :: "memory \<Rightarrow> ulong \<Rightarrow> u8 \<Rightarrow> ulong \<Rightarrow> ulong \<Rightarrow> memory res" where
  "memset_loop m ptr val8 i len =
     (if i < len then ebind (store_byte m (ptr + i) val8) (\<lambda>m. memset_loop m ptr val8 (i + 1) len) else Inr m)"
  by pat_completeness auto

termination memset_loop
  by (relation "measure (\<lambda>(_, _, _, i, n). count_up i n)") (auto intro: count_up_less)

definition memset :: "memory \<Rightarrow> ulong \<Rightarrow> int \<Rightarrow> ulong \<Rightarrow> (memory \<times> ulong) res" where
  "memset m src val len = ebind (memset_loop m src (word_of_int val) 0 len) (\<lambda>m. Inr (m, src))"

definition memzero :: "memory \<Rightarrow> ulong \<Rightarrow> ulong \<Rightarrow> (memory \<times> ulong) res" where
  "memzero m src len = memset m src 0 len"

function memcmp_loop :: "memory \<Rightarrow> ulong \<Rightarrow> ulong \<Rightarrow> ulong \<Rightarrow> ulong \<Rightarrow> int res" where
  "memcmp_loop m cmp1 cmp2 i len =
     (if i < len
      then ebind (load_byte m (cmp1 + i)) (\<lambda>a. ebind (load_byte m (cmp2 + i)) (\<lambda>b.
        if a > b then Inr 1 else if a < b then Inr (-1) else memcmp_loop m cmp1 cmp2 (i + 1) len))
      else Inr 0)"
  by pat_completeness auto

termination memcmp_loop
  by (relation "measure (\<lambda>(_, _, _, i, n). count_up i n)") (auto intro: count_up_less)

definition memcmp :: "memory \<Rightarrow> ulong \<Rightarrow> ulong \<Rightarrow> ulong \<Rightarrow> int res" where
  "memcmp m src1 src2 len = memcmp_loop m src1 src2 0 len"

function memchr_loop :: "bool \<Rightarrow> memory \<Rightarrow> ulong \<Rightarrow> int \<Rightarrow> ulong \<Rightarrow> ulong \<Rightarrow> ulong res" where
  "memchr_loop sc m s c i len =
     (if i < len then ebind (load_byte m s) (\<lambda>a. if char_int sc a = c then Inr s else memchr_loop sc m (s + 1) c (i + 1) len)
      else Inr 0)"
  by pat_completeness auto

termination memchr_loop
  by (relation "measure (\<lambda>(_, _, _, _, i, n). count_up i n)") (auto intro: count_up_less)

definition memchr :: "bool \<Rightarrow> memory \<Rightarrow> ulong \<Rightarrow> int \<Rightarrow> ulong \<Rightarrow> ulong res" where
  "memchr sc m blk c len = (if blk = 0 then Inr 0 else memchr_loop sc m blk c 0 len)"

function memstr_loop :: "memory \<Rightarrow> ulong \<Rightarrow> ulong \<Rightarrow> u8 \<Rightarrow> ulong \<Rightarrow> ulong \<Rightarrow> ulong \<Rightarrow> ulong res" where
  "memstr_loop m s needle first l i len =
     (if i < len
      then ebind (load_byte m s) (\<lambda>a.
        if a = first
        then ebind (memcmp m s needle l) (\<lambda>r. if r = 0 then Inr s else memstr_loop m (s + 1) needle first l (i + 1) len)
        else memstr_loop m (s + 1) needle first l (i + 1) len)
      else Inr 0)"
  by pat_completeness auto

termination memstr_loop
  by (relation "measure (\<lambda>(_, _, _, _, _, i, n). count_up i n)") (auto intro: count_up_less)

definition memstr :: "memory \<Rightarrow> ulong \<Rightarrow> ulong \<Rightarrow> ulong \<Rightarrow> ulong res option" where
  "memstr m blk needle len =
     (if blk = 0 \<or> needle = 0 then return 0
      else and_then (load_byte m needle) (\<lambda>first. if first = 0 then return 0
      else case strlen m needle of None \<Rightarrow> None | Some r \<Rightarrow> and_then r (\<lambda>l. if len < l then return 0
      else Some (memstr_loop m blk needle first l 0 (len - (l - 1))))))"

partial_function (option) strstr_loop :: "memory \<Rightarrow> ulong \<Rightarrow> ulong \<Rightarrow> u8 \<Rightarrow> ulong \<Rightarrow> ulong res option" where
  "strstr_loop m str needle first len =
     and_then (load_byte m str) (\<lambda>a. if a \<noteq> 0
       then (case strlen m str of None \<Rightarrow> None | Some r \<Rightarrow> and_then r (\<lambda>remain_len.
         if remain_len < len then return 0
         else if a = first
         then and_then (memcmp m str needle len) (\<lambda>r. if r = 0 then return str else strstr_loop m (str + 1) needle first len)
         else strstr_loop m (str + 1) needle first len))
       else return 0)"

definition strstr :: "memory \<Rightarrow> ulong \<Rightarrow> ulong \<Rightarrow> ulong res option" where
  "strstr m str needle =
     (if str = 0 \<or> needle = 0 then return 0
      else and_then (load_byte m needle) (\<lambda>first. if first = 0 then return 0
      else case strlen m needle of None \<Rightarrow> None | Some r \<Rightarrow> and_then r (\<lambda>len. strstr_loop m str needle first len)))"

section \<open>Numbers\<close>

text \<open>The character constants are ASCII codes.\<close>

definition isdigit :: "int \<Rightarrow> bool" where
  "isdigit ch \<longleftrightarrow> ch \<noteq> 0 \<and> (ch \<ge> 48 \<and> ch \<le> 57)"

definition isxdigit :: "int \<Rightarrow> bool" where
  "isxdigit ch \<longleftrightarrow> ch \<noteq> 0 \<and> ((ch \<ge> 48 \<and> ch \<le> 57) \<or> (ch \<ge> 97 \<and> ch \<le> 102) \<or> (ch \<ge> 65 \<and> ch \<le> 70))"

definition stou64_digit :: "int \<Rightarrow> int \<Rightarrow> u64 \<Rightarrow> u64" where
  "stou64_digit base ch num =
     (let num = (if base = 16 then num * 16 else num * 10)
      in if ch \<ge> 48 \<and> ch \<le> 57 then num + word_of_int (ch - 48)
         else if base = 16 \<and> ch \<ge> 97 \<and> ch \<le> 102 then num + word_of_int (ch - 97 + 10)
         else if base = 16 \<and> ch \<ge> 65 \<and> ch \<le> 70 then num + word_of_int (ch - 65 + 10)
         else num)"

partial_function (option) stou64_loop :: "bool \<Rightarrow> memory \<Rightarrow> int \<Rightarrow> ulong \<Rightarrow> u8 \<Rightarrow> u64 \<Rightarrow> u64 res option" where
  "stou64_loop sc m base str ch num =
     (if isxdigit (char_int sc ch)
      then and_then (load_byte m (str + 1)) (\<lambda>ch'. stou64_loop sc m base (str + 1) ch' (stou64_digit base (char_int sc ch) num))
      else return num)"

definition stou64_prefix :: "memory \<Rightarrow> ulong \<Rightarrow> int \<Rightarrow> (ulong \<times> int) res" where
  "stou64_prefix m str base =
     (if base = 0 \<or> base = 16
      then ebind (load_byte m str) (\<lambda>c0. if c0 = 48
        then ebind (load_byte m (str + 1)) (\<lambda>c1. if c1 = 120 \<or> c1 = 88 then Inr (str + 2, 16) else Inr (str, base))
        else Inr (str, base))
      else Inr (str, base))"

definition stou64 :: "bool \<Rightarrow> memory \<Rightarrow> ulong \<Rightarrow> int \<Rightarrow> u64 res option" where
  "stou64 sc m str base =
     (if str = 0 then return 0
      else and_then (load_byte m str) (\<lambda>ch. if ch = 0 then return 0
      else let neg = (ch = 45); str = (if neg then str + 1 else str)
        in and_then (stou64_prefix m str base) (\<lambda>(str, base).
           and_then (load_byte m str) (\<lambda>ch.
             case stou64_loop sc m base str ch 0 of None \<Rightarrow> None
             | Some r \<Rightarrow> and_then r (\<lambda>num. return (if neg then - num else num))))))"

definition stou32 :: "bool \<Rightarrow> memory \<Rightarrow> ulong \<Rightarrow> int \<Rightarrow> u32 res option" where
  "stou32 sc m str base = map_option (\<lambda>r. ebind r (\<lambda>n. Inr (ucast n))) (stou64 sc m str base)"

definition stoul :: "bool \<Rightarrow> memory \<Rightarrow> ulong \<Rightarrow> int \<Rightarrow> ulong res option" where
  "stoul sc m str base = stou64 sc m str base"

definition stoi :: "bool \<Rightarrow> memory \<Rightarrow> ulong \<Rightarrow> int \<Rightarrow> int res option" where
  "stoi sc m str base = map_option (\<lambda>r. ebind r (\<lambda>n. Inr (sint (ucast n :: u32)))) (stou64 sc m str base)"

definition atoi :: "bool \<Rightarrow> memory \<Rightarrow> ulong \<Rightarrow> int res option" where
  "atoi sc m str = stoi sc m str 10"

lemmas [simp del] = strncpy_loop.simps strncmp_loop.simps memcpy_loop.simps memset_loop.simps memcmp_loop.simps
  memchr_loop.simps memstr_loop.simps

section \<open>Strings in memory\<close>

fun bytes_at :: "memory \<Rightarrow> ulong \<Rightarrow> u8 list \<Rightarrow> bool" where
  "bytes_at m p [] \<longleftrightarrow> True"
| "bytes_at m p (b # bs) \<longleftrightarrow> p \<noteq> 0 \<and> m p = Some b \<and> bytes_at m (p + 1) bs"

text \<open>A string: its characters and the terminator.\<close>

definition cstr :: "memory \<Rightarrow> ulong \<Rightarrow> u8 list \<Rightarrow> bool" where
  "cstr m p s \<longleftrightarrow> 0 \<notin> set s \<and> bytes_at m p (s @ [0])"

lemma cstr_simps [simp]:
  "cstr m p [] \<longleftrightarrow> p \<noteq> 0 \<and> m p = Some 0"
  "cstr m p (c # s) \<longleftrightarrow> p \<noteq> 0 \<and> m p = Some c \<and> c \<noteq> 0 \<and> cstr m (p + 1) s"
  by (auto simp: cstr_def)

lemma cstr_not_null: "cstr m p s \<Longrightarrow> p \<noteq> 0"
  by (cases s) simp_all

lemma load_byte_Some [simp]: "p \<noteq> 0 \<Longrightarrow> m p = Some b \<Longrightarrow> load_byte m p = Inr b"
  by (simp add: load_byte_def)

lemma store_byte_Some [simp]: "p \<noteq> 0 \<Longrightarrow> m p = Some b \<Longrightarrow> store_byte m p c = Inr (m(p := Some c))"
  by (simp add: store_byte_def)

lemma bytes_at_append: "bytes_at m p (xs @ ys) \<longleftrightarrow> bytes_at m p xs \<and> bytes_at m (p + of_nat (length xs)) ys"
  by (induction xs arbitrary: p) (simp_all add: ac_simps)

lemma bytes_at_nth: "bytes_at m p xs \<Longrightarrow> i < length xs \<Longrightarrow> p + of_nat i \<noteq> 0 \<and> m (p + of_nat i) = Some (xs ! i)"
proof (induction xs arbitrary: p i)
  case (Cons b xs)
  show ?case
  proof (cases i)
    case (Suc k)
    then show ?thesis using Cons.IH [of "p + 1" k] Cons.prems by (simp add: add.assoc)
  qed (use Cons.prems in simp)
qed simp

lemma cstr_drop: "cstr m p s \<Longrightarrow> i \<le> length s \<Longrightarrow> cstr m (p + of_nat i) (drop i s)"
  using bytes_at_append [of m p "take i s" "drop i s @ [0]"] in_set_dropD [of 0 i s]
  by (auto simp: cstr_def min_absorb2 simp flip: append_assoc)

section \<open>Reading\<close>

lemma strlen_loop_cstr:
  "cstr m p s \<Longrightarrow> 0 \<le> len \<Longrightarrow> len + int (length s) < 2 ^ 31 \<Longrightarrow> strlen_loop m p len = return (of_int (len + int (length s)))"
proof (induction s arbitrary: p len)
  case Nil
  then show ?case by (simp add: strlen_loop.simps)
next
  case (Cons c s)
  then have "strlen_loop m (p + 1) (len + 1) = return (of_int (len + 1 + int (length s)))" by simp
  then show ?case using Cons.prems by (subst strlen_loop.simps) (simp add: ac_simps)
qed

lemma strlen_cstr: "cstr m p s \<Longrightarrow> length s < 2 ^ 31 \<Longrightarrow> strlen m p = return (of_nat (length s))"
  using strlen_loop_cstr [of m p s 0] by (simp add: strlen_def)

fun first_diff :: "bool \<Rightarrow> u8 list \<Rightarrow> u8 list \<Rightarrow> int" where
  "first_diff sc (a # as) (b # bs) = (if a \<noteq> b then char_order sc a b else first_diff sc as bs)"
| "first_diff sc [] [] = 0"
| "first_diff sc (a # as) [] = char_order sc a 0"
| "first_diff sc [] (b # bs) = char_order sc 0 b"

lemma strcmp_loop_cstr: "cstr m p a \<Longrightarrow> cstr m q b \<Longrightarrow> strcmp_loop sc m p q = return (first_diff sc a b)"
proof (induction sc a b arbitrary: p q rule: first_diff.induct)
  case (1 sc a as b bs)
  then show ?case by (subst strcmp_loop.simps) simp
qed (subst strcmp_loop.simps, simp)+

lemma char_int_inj [simp]: "char_int sc a = char_int sc b \<longleftrightarrow> a = b"
  by (auto simp: char_int_def intro: signed_word_eqI simp flip: word_uint_eq_iff)

definition char_less :: "bool \<Rightarrow> (u8 \<times> u8) set" where
  "char_less sc = {(a, b). char_int sc a < char_int sc b}"

lemma first_diff_order:
  assumes "0 \<notin> set a" "0 \<notin> set b"
  shows "first_diff sc a b = (if a = b then 0 else if (a @ [0], b @ [0]) \<in> lexord (char_less sc) then -1 else 1)"
  using assms
proof (induction sc a b rule: first_diff.induct)
  case (1 sc a as b bs)
  then show ?case by (auto simp: char_order_def char_less_def)
next
  case (3 sc a as)
  then show ?case by (auto simp: char_order_def char_less_def)
next
  case (4 sc b bs)
  then have "char_int sc 0 \<noteq> char_int sc b" by (subst char_int_inj) simp
  then show ?case by (auto simp: char_order_def char_less_def)
qed simp

lemma strchr_loop_cstr:
  "cstr m p s \<Longrightarrow> strchr_loop sc m p c =
     return (if c \<in> char_int sc ` set s then p + of_nat (length (takeWhile (\<lambda>x. char_int sc x \<noteq> c) s)) else 0)"
proof (induction s arbitrary: p)
  case (Cons a s)
  then show ?case by (subst strchr_loop.simps) (auto simp: ac_simps)
qed (subst strchr_loop.simps, simp)

lemma strpbrk_inner_cstr:
  "cstr m q t \<Longrightarrow> p \<noteq> 0 \<Longrightarrow> m p = Some a \<Longrightarrow> strpbrk_inner m p q = return (a \<in> set t)"
proof (induction t arbitrary: q)
  case (Cons b t)
  then show ?case by (subst strpbrk_inner.simps) auto
qed (subst strpbrk_inner.simps, simp)

lemma strpbrk_loop_cstr:
  "cstr m p s \<Longrightarrow> cstr m q t \<Longrightarrow> strpbrk_loop m p q =
     return (if set s \<inter> set t \<noteq> {} then p + of_nat (length (takeWhile (\<lambda>x. x \<notin> set t) s)) else 0)"
proof (induction s arbitrary: p)
  case (Cons c s)
  then have "strpbrk_inner m p q = return (c \<in> set t)" using strpbrk_inner_cstr by simp
  then show ?case using Cons by (subst strpbrk_loop.simps) (auto simp: return_def ac_simps)
qed (subst strpbrk_loop.simps, simp)

section \<open>Blocks\<close>

text \<open>The addresses of \<open>n\<close> bytes from \<open>p\<close>, and the memory after bytes have been written from there on.\<close>

definition span :: "ulong \<Rightarrow> nat \<Rightarrow> ulong set" where
  "span p n = (\<lambda>i. p + of_nat i) ` {..<n}"

definition writable :: "memory \<Rightarrow> ulong \<Rightarrow> nat \<Rightarrow> bool" where
  "writable m p n \<longleftrightarrow> n \<le> 2 ^ 64 \<and> (\<forall>a\<in>span p n. a \<noteq> 0 \<and> m a \<noteq> None)"

fun fill :: "memory \<Rightarrow> ulong \<Rightarrow> u8 list \<Rightarrow> memory" where
  "fill m p [] = m"
| "fill m p (b # bs) = fill (m(p := Some b)) (p + 1) bs"

lemma span_0 [simp]: "span p 0 = {}"
  by (simp add: span_def)

lemma span_Suc: "span p (Suc n) = insert p (span (p + 1) n)"
  unfolding span_def lessThan_Suc_eq_insert_0 by (auto simp: image_iff add.assoc)

lemma span_head_fresh: "n < 2 ^ 64 \<Longrightarrow> p \<notin> span (p + 1) n"
proof
  assume n: "n < 2 ^ 64" and "p \<in> span (p + 1) n"
  then obtain i where "i < n" "p = p + 1 + of_nat i" by (auto simp: span_def)
  then have "of_nat (Suc i) = (0 :: ulong)" by (simp add: add.assoc)
  then have "(2::nat) ^ 64 dvd Suc i" unfolding word_of_nat_eq_0_iff by simp
  then show False using n \<open>i < n\<close> by (auto dest: dvd_imp_le)
qed

lemma fill_outside: "a \<notin> span p (length bs) \<Longrightarrow> fill m p bs a = m a"
  by (induction bs arbitrary: m p) (simp_all add: span_Suc)

lemma fill_bytes: "writable m p (length bs) \<Longrightarrow> bytes_at (fill m p bs) p bs"
proof (induction bs arbitrary: m p)
  case (Cons b bs)
  have w: "writable (m(p := Some b)) (p + 1) (length bs)" "p \<noteq> 0" "length bs < 2 ^ 64"
    using Cons.prems by (auto simp: writable_def span_Suc)
  then have "fill (m(p := Some b)) (p + 1) bs p = Some b"
    using fill_outside [OF span_head_fresh [of "length bs" p]] by simp
  then show ?case using Cons.IH [OF w(1)] w(2) by (simp del: fun_upd_apply)
qed simp

lemma bytes_at_cong: "(\<And>a. a \<in> span p (length bs) \<Longrightarrow> m' a = m a) \<Longrightarrow> bytes_at m' p bs \<longleftrightarrow> bytes_at m p bs"
  by (induction bs arbitrary: p) (simp_all add: span_Suc)

lemma writable_upd: "writable m p n \<Longrightarrow> m a \<noteq> None \<Longrightarrow> writable (m(a := Some b)) p n"
  by (auto simp: writable_def)

lemma strcpy_loop_cstr:
  assumes "bytes_at m (src + 1) (s @ [0])" "0 \<notin> set s" "writable m dest (length s + 2)"
    "span dest (length s + 2) \<inter> span (src + 1) (length s + 1) = {}" "c \<noteq> 0"
  shows "strcpy_loop m dest src c = return (fill m dest (c # s @ [0]))"
  using assms
proof (induction s arbitrary: m dest src c)
  case Nil
  then have d: "dest \<noteq> 0" "m dest \<noteq> None" "dest + 1 \<noteq> 0" "m (dest + 1) \<noteq> None" "src + 1 \<noteq> dest"
    by (auto simp: writable_def span_Suc numeral_2_eq_2)
  then show ?case using Nil
    by (subst strcpy_loop.simps) (simp add: store_byte_def load_byte_def, subst strcpy_loop.simps, auto simp: store_byte_def)
next
  case (Cons a s)
  define m1 where "m1 = m(dest := Some c)"
  have d: "dest \<noteq> 0" "m dest \<noteq> None" and w: "writable m (dest + 1) (length s + 2)"
    using Cons.prems(3) by (auto simp: writable_def span_Suc)
  have dis: "span (dest + 1) (length s + 2) \<inter> span (src + 1 + 1) (length s + 1) = {}" "dest \<notin> span (src + 1) (length s + 2)"
    using Cons.prems(4) by (auto simp: span_Suc)
  have "bytes_at m1 (src + 1) ((a # s) @ [0])"
    using Cons.prems(1) dis(2) unfolding m1_def by (subst bytes_at_cong [of _ _ _ m]) auto
  then have b: "bytes_at m1 (src + 1 + 1) (s @ [0])" "load_byte m1 (src + 1) = Inr a" by simp_all
  have "writable m1 (dest + 1) (length s + 2)" unfolding m1_def using writable_upd [OF w d(2)] .
  then have "strcpy_loop m1 (dest + 1) (src + 1) a = return (fill m1 (dest + 1) (a # s @ [0]))"
    using Cons.IH [OF b(1)] Cons.prems(2) dis(1) by simp
  moreover have "store_byte m dest c = Inr m1" using d by (simp add: store_byte_def m1_def)
  moreover have "fill m dest (c # (a # s) @ [0]) = fill m1 (dest + 1) (a # s @ [0])" by (simp add: m1_def)
  ultimately show ?case using b(2) Cons.prems(5) by (subst strcpy_loop.simps) simp
qed

lemma strcpy_cstr:
  assumes "cstr m src s" "writable m dest (length s + 1)" "span dest (length s + 1) \<inter> span src (length s + 1) = {}"
  shows "strcpy m dest src = return (fill m dest (s @ [0]), dest)"
proof (cases s)
  case Nil
  then show ?thesis using assms
    by (auto simp: strcpy_def strcpy_loop.simps [of _ _ _ 0] store_byte_def writable_def span_Suc return_def)
next
  case (Cons c t)
  have "strcpy_loop m dest src c = return (fill m dest (c # t @ [0]))"
    by (rule strcpy_loop_cstr) (use assms Cons in \<open>auto simp: cstr_def span_Suc\<close>)
  then show ?thesis using assms Cons by (simp add: strcpy_def return_def)
qed

lemma count_up_Suc: "count_up i n = Suc k \<Longrightarrow> i < n \<and> count_up (i + 1) n = k"
proof -
  assume a: "count_up i n = Suc k"
  then have "i < n" by (simp add: count_up_def word_less_nat_alt)
  then show ?thesis using a unat_Suc_less [of i n] by (simp add: count_up_def)
qed

lemma count_up_0: "count_up i n = 0 \<Longrightarrow> \<not> i < n"
  by (simp add: count_up_def word_less_nat_alt)

lemma memcpy_loop_bytes:
  assumes "bytes_at m (s + i) bs" "writable m (d + i) (length bs)" "span (d + i) (length bs) \<inter> span (s + i) (length bs) = {}"
    "count_up i count = length bs"
  shows "memcpy_loop m d s i count = Inr (fill m (d + i) bs)"
  using assms
proof (induction bs arbitrary: m i)
  case Nil
  then show ?case using count_up_0 by (simp add: memcpy_loop.simps [of _ _ _ i])
next
  case (Cons b bs)
  define m1 where "m1 = m(d + i := Some b)"
  have c: "i < count" "count_up (i + 1) count = length bs" using count_up_Suc Cons.prems(4) by auto
  have d: "d + i \<noteq> 0" "m (d + i) \<noteq> None" and w: "writable m (d + (i + 1)) (length bs)"
    using Cons.prems(2) by (auto simp: writable_def span_Suc add.assoc)
  have dis: "span (d + (i + 1)) (length bs) \<inter> span (s + (i + 1)) (length bs) = {}" "d + i \<notin> span (s + i) (length (b # bs))"
    using Cons.prems(3) by (auto simp: span_Suc add.assoc)
  have "bytes_at m1 (s + i) (b # bs)"
    using Cons.prems(1) dis(2) unfolding m1_def by (subst bytes_at_cong [of _ _ _ m]) auto
  then have b: "bytes_at m1 (s + (i + 1)) bs" "load_byte m (s + i) = Inr b"
    using Cons.prems(1) by (simp_all add: add.assoc)
  have "writable m1 (d + (i + 1)) (length bs)" unfolding m1_def using writable_upd [OF w d(2)] .
  then have "memcpy_loop m1 d s (i + 1) count = Inr (fill m1 (d + (i + 1)) bs)"
    using Cons.IH [OF b(1)] dis(1) c(2) by simp
  moreover have "store_byte m (d + i) b = Inr m1" using d by (simp add: store_byte_def m1_def)
  moreover have "fill m (d + i) (b # bs) = fill m1 (d + (i + 1)) bs" by (simp add: m1_def add.assoc)
  ultimately show ?case using b(2) c(1) by (subst memcpy_loop.simps) simp
qed

lemma memset_loop_fill:
  assumes "writable m (p + i) n" "count_up i len = n"
  shows "memset_loop m p v i len = Inr (fill m (p + i) (replicate n v))"
  using assms
proof (induction n arbitrary: m i)
  case 0
  then show ?case using count_up_0 by (simp add: memset_loop.simps [of _ _ _ i])
next
  case (Suc n)
  define m1 where "m1 = m(p + i := Some v)"
  have c: "i < len" "count_up (i + 1) len = n" using count_up_Suc Suc.prems(2) by auto
  have d: "p + i \<noteq> 0" "m (p + i) \<noteq> None" and w: "writable m (p + (i + 1)) n"
    using Suc.prems(1) by (auto simp: writable_def span_Suc add.assoc)
  have "writable m1 (p + (i + 1)) n" unfolding m1_def using writable_upd [OF w d(2)] .
  then have "memset_loop m1 p v (i + 1) len = Inr (fill m1 (p + (i + 1)) (replicate n v))" using Suc.IH c(2) by simp
  moreover have "store_byte m (p + i) v = Inr m1" using d by (simp add: store_byte_def m1_def)
  moreover have "fill m (p + i) (replicate (Suc n) v) = fill m1 (p + (i + 1)) (replicate n v)" by (simp add: m1_def add.assoc)
  ultimately show ?case using c(1) by (subst memset_loop.simps) simp
qed

lemma memcmp_loop_bytes:
  assumes "bytes_at m (p + i) a" "bytes_at m (q + i) b" "count_up i len = length a" "length b = length a"
  shows "memcmp_loop m p q i len = Inr (first_diff False a b)"
  using assms
proof (induction a arbitrary: b i)
  case Nil
  then show ?case using count_up_0 by (simp add: memcmp_loop.simps [of _ _ _ i])
next
  case (Cons x a)
  then obtain y b' where b: "b = y # b'" by (cases b) auto
  have c: "i < len" "count_up (i + 1) len = length a" using count_up_Suc Cons.prems(3) by auto
  have ih: "memcmp_loop m p q (i + 1) len = Inr (first_diff False a b')"
    using Cons.IH [of "i + 1" b'] Cons.prems b c(2) by (simp add: add.assoc)
  have o: "x > y \<longleftrightarrow> char_int False x > char_int False y" by (simp add: char_int_def word_less_alt)
  show ?case using Cons.prems(1,2) b c(1) ih o
    by (subst memcmp_loop.simps) (auto simp: char_order_def)
qed

lemma memcmp_bytes:
  "bytes_at m p a \<Longrightarrow> bytes_at m q b \<Longrightarrow> length a = unat len \<Longrightarrow> length b = unat len \<Longrightarrow> memcmp m p q len = Inr (first_diff False a b)"
  using memcmp_loop_bytes [of m p 0 a q b len] by (simp add: memcmp_def count_up_def)

lemma first_diff_eq_0: "length a = length b \<Longrightarrow> first_diff sc a b = 0 \<longleftrightarrow> a = b"
  by (induction sc a b rule: first_diff.induct) (auto simp: char_order_def)

lemma memchr_loop_bytes:
  "bytes_at m s bs \<Longrightarrow> count_up i len = length bs \<Longrightarrow> memchr_loop sc m s c i len =
     Inr (if c \<in> char_int sc ` set bs then s + of_nat (length (takeWhile (\<lambda>x. char_int sc x \<noteq> c) bs)) else 0)"
proof (induction bs arbitrary: s i)
  case Nil
  then show ?case using count_up_0 by (simp add: memchr_loop.simps [of _ _ _ _ i])
next
  case (Cons b bs)
  have c: "i < len" "count_up (i + 1) len = length bs" using count_up_Suc Cons.prems(2) by auto
  then show ?case using Cons.IH [of "s + 1" "i + 1"] Cons.prems(1) by (subst memchr_loop.simps) (auto simp: add.assoc)
qed

text \<open>The first place where a list occurs in another.\<close>

fun find_sub :: "'a list \<Rightarrow> 'a list \<Rightarrow> nat option" where
  "find_sub needle [] = None"
| "find_sub needle (c # hay) = (if prefix needle (c # hay) then Some 0 else map_option Suc (find_sub needle hay))"

lemma find_sub_short: "length hay < length needle \<Longrightarrow> find_sub needle hay = None"
  by (induction hay) (auto dest: prefix_length_le)

lemma find_sub_Some: "find_sub needle hay = Some i \<Longrightarrow> prefix needle (drop i hay) \<and> (\<forall>j<i. \<not> prefix needle (drop j hay))"
proof (induction hay arbitrary: i)
  case (Cons c hay)
  show ?case
  proof (cases "prefix needle (c # hay)")
    case True
    then show ?thesis using Cons.prems by simp
  next
    case False
    then obtain k where k: "i = Suc k" "find_sub needle hay = Some k" using Cons.prems by auto
    have "\<not> prefix needle (drop j (c # hay))" if "j < i" for j
      using that False Cons.IH [OF k(2)] k(1) by (cases j) auto
    then show ?thesis using Cons.IH [OF k(2)] k(1) by simp
  qed
qed simp

lemma find_sub_None: "needle \<noteq> [] \<Longrightarrow> find_sub needle hay = None \<longleftrightarrow> \<not> sublist needle hay"
  by (induction hay) (auto simp: sublist_Cons_right)

definition place :: "ulong \<Rightarrow> nat option \<Rightarrow> ulong" where
  "place p f = (case f of None \<Rightarrow> 0 | Some i \<Rightarrow> p + of_nat i)"

lemma place_simps [simp]: "place p None = 0" "place p (Some 0) = p" "place p (map_option Suc f) = place (p + 1) f"
  by (simp_all add: place_def option.case_eq_if option.map_sel ac_simps)

lemma unat_of_nat_64: "n < 2 ^ 64 \<Longrightarrow> unat (of_nat n :: ulong) = n"
  by (simp add: unat_of_nat)

lemma occurs_here:
  assumes "bytes_at m p hay" "bytes_at m q needle" "length needle \<le> length hay" "length needle < 2 ^ 64"
  shows "memcmp m p q (of_nat (length needle)) = Inr (if prefix needle hay then 0 else first_diff False (take (length needle) hay) needle)"
    "prefix needle hay \<longleftrightarrow> first_diff False (take (length needle) hay) needle = 0"
proof -
  have "bytes_at m p (take (length needle) hay)"
    using assms(1) bytes_at_append [of m p "take (length needle) hay" "drop (length needle) hay"] by simp
  then have r: "memcmp m p q (of_nat (length needle)) = Inr (first_diff False (take (length needle) hay) needle)"
    using assms by (intro memcmp_bytes) (simp_all add: unat_of_nat_64)
  show *: "prefix needle hay \<longleftrightarrow> first_diff False (take (length needle) hay) needle = 0"
    using assms(3) take_is_prefix [of "length needle" hay]
    by (subst first_diff_eq_0) (auto simp: prefix_def min_absorb2)
  then show "memcmp m p q (of_nat (length needle)) = Inr (if prefix needle hay then 0 else first_diff False (take (length needle) hay) needle)"
    using r by simp
qed

lemma strstr_loop_cstr:
  assumes "cstr m p hay" "cstr m q (first # rest)" "length hay < 2 ^ 31" "length rest + 1 < 2 ^ 31"
  shows "strstr_loop m p q first (of_nat (length rest + 1)) = return (place p (find_sub (first # rest) hay))"
  using assms(1,3)
proof (induction hay arbitrary: p)
  case Nil
  then show ?case by (subst strstr_loop.simps) simp
next
  case (Cons c hay)
  let ?n = "first # rest" and ?len = "of_nat (length rest + 1) :: ulong"
  have len: "strlen m p = return (of_nat (length (c # hay)))" using Cons.prems strlen_cstr by blast
  have short: "(of_nat (length (c # hay)) :: ulong) < ?len \<longleftrightarrow> length (c # hay) < length ?n"
    using unat_of_nat_64 [of "length (c # hay)"] unat_of_nat_64 [of "length rest + 1"] Cons.prems(2) assms(4)
    by (simp only: word_less_nat_alt) simp
  have ih: "strstr_loop m (p + 1) q first ?len = return (place (p + 1) (find_sub ?n hay))" using Cons by simp
  show ?case
  proof (cases "length (c # hay) < length ?n")
    case True
    then show ?thesis using Cons.prems(1) len short find_sub_short [OF True]
      by (subst strstr_loop.simps) (simp add: return_def)
  next
    case False
    have "bytes_at m p (c # hay)" "bytes_at m q ?n"
      using Cons.prems(1) assms(2) bytes_at_append [of m p "c # hay" "[0]"] bytes_at_append [of m q ?n "[0]"]
      by (auto simp: cstr_def)
    then have cmp: "memcmp m p q ?len = Inr (if prefix ?n (c # hay) then 0 else first_diff False (take (length ?n) (c # hay)) ?n)"
      and pre: "prefix ?n (c # hay) \<longleftrightarrow> first_diff False (take (length ?n) (c # hay)) ?n = 0"
      using occurs_here [of m p "c # hay" q ?n] False assms(4) by auto
    show ?thesis
    proof (cases "prefix ?n (c # hay)")
      case True
      then show ?thesis using Cons.prems(1) len short False cmp
        by (subst strstr_loop.simps) (auto simp: return_def)
    next
      case no: False
      then show ?thesis using Cons.prems(1) len short False cmp pre ih
        by (subst strstr_loop.simps) (auto simp: return_def)
    qed
  qed
qed

lemma memstr_loop_bytes:
  assumes "bytes_at m p hay" "bytes_at m q (first # rest)" "length rest + 1 < 2 ^ 64" "count_up i len = length hay - length rest"
  shows "memstr_loop m p q first (of_nat (length rest + 1)) i len = Inr (place p (find_sub (first # rest) hay))"
  using assms(1,4)
proof (induction hay arbitrary: p i)
  case Nil
  then show ?case using count_up_0 by (simp add: memstr_loop.simps [of _ _ _ _ _ i])
next
  case (Cons c hay)
  let ?n = "first # rest" and ?len = "of_nat (length rest + 1) :: ulong"
  show ?case
  proof (cases "length (c # hay) < length ?n")
    case True
    then show ?thesis using Cons.prems(2) count_up_0 find_sub_short [OF True]
      by (simp add: memstr_loop.simps [of _ _ _ _ _ i])
  next
    case False
    then have "count_up i len = Suc (length hay - length rest)" using Cons.prems(2) by simp
    then have i: "i < len" and "count_up (i + 1) len = length hay - length rest" using count_up_Suc by auto
    then have ih: "memstr_loop m (p + 1) q first ?len (i + 1) len = Inr (place (p + 1) (find_sub ?n hay))"
      using Cons.IH Cons.prems(1) by simp
    have cmp: "memcmp m p q ?len = Inr (if prefix ?n (c # hay) then 0 else first_diff False (take (length ?n) (c # hay)) ?n)"
      and pre: "prefix ?n (c # hay) \<longleftrightarrow> first_diff False (take (length ?n) (c # hay)) ?n = 0"
      using occurs_here [of m p "c # hay" q ?n] False assms(2,3) Cons.prems(1) by auto
    show ?thesis
    proof (cases "prefix ?n (c # hay)")
      case True
      then show ?thesis using Cons.prems(1) i cmp by (subst memstr_loop.simps) auto
    next
      case no: False
      then show ?thesis using Cons.prems(1) i cmp pre ih by (subst memstr_loop.simps) auto
    qed
  qed
qed

section \<open>Bounded copies and comparisons\<close>

lemma strncpy_loop_cstr:
  assumes "cstr m src s" "ch = hd (s @ [0])" "count_up i n = k" "writable m dest (min (length s) k)"
    "span dest (min (length s) k) \<inter> span src (length s + 1) = {}"
  shows "strncpy_loop m dest src ch i n = Inr (fill m dest (take k s), dest + of_nat (min (length s) k), i + of_nat (min (length s) k))"
  using assms
proof (induction s arbitrary: m dest src ch i k)
  case Nil
  then show ?case by (subst strncpy_loop.simps) simp
next
  case (Cons c s)
  show ?case
  proof (cases k)
    case 0
    then show ?thesis using Cons.prems count_up_0 by (subst strncpy_loop.simps) auto
  next
    case (Suc l)
    define m1 where "m1 = m(dest := Some c)"
    have i: "i < n" "count_up (i + 1) n = l" using count_up_Suc Cons.prems(3) Suc by auto
    have d: "dest \<noteq> 0" "m dest \<noteq> None" and w: "writable m (dest + 1) (min (length s) l)"
      using Cons.prems(4) Suc by (auto simp: writable_def span_Suc)
    have dis: "span (dest + 1) (min (length s) l) \<inter> span (src + 1) (length s + 1) = {}" "dest \<notin> span (src + 1) (length s + 1)"
      using Cons.prems(5) Suc by (auto simp: span_Suc)
    have "bytes_at m1 (src + 1) (s @ [0])"
      using Cons.prems(1) dis(2) unfolding m1_def by (subst bytes_at_cong [of _ _ _ m]) (auto simp: cstr_def)
    then have str: "cstr m1 (src + 1) s" using Cons.prems(1) by (simp add: cstr_def)
    then have ld: "load_byte m1 (src + 1) = Inr (hd (s @ [0]))" by (cases s) simp_all
    have "writable m1 (dest + 1) (min (length s) l)" unfolding m1_def using writable_upd [OF w d(2)] .
    note ih = Cons.IH [OF str refl i(2) this dis(1)]
    have "store_byte m dest c = Inr m1" using d by (simp add: store_byte_def m1_def)
    moreover have "fill m dest (take k (c # s)) = fill m1 (dest + 1) (take l s)" using Suc by (simp add: m1_def)
    ultimately show ?thesis using ih ld i(1) Cons.prems(1,2) Suc by (subst strncpy_loop.simps) (simp add: add.assoc)
  qed
qed

lemma strncmp_loop_cstr:
  "cstr m p a \<Longrightarrow> cstr m q b \<Longrightarrow> strncmp_loop sc m p q n = Inr (first_diff sc (take (unat n) a) (take (unat n) b))"
proof (induction sc a b arbitrary: p q n rule: first_diff.induct)
  case (1 sc a as b bs)
  show ?case
  proof (cases "n = 0")
    case False
    then have "unat n = Suc (unat (n - 1))" by (simp add: unat_minus_one unat_gt_0)
    then show ?thesis using 1 False by (subst strncmp_loop.simps) simp
  qed (simp add: strncmp_loop.simps)
next
  case (3 sc a as)
  then show ?case by (subst strncmp_loop.simps) (cases "unat n"; auto simp: unat_eq_0)
next
  case (4 sc b bs)
  then show ?case by (subst strncmp_loop.simps) (cases "unat n"; auto simp: unat_eq_0)
qed (subst strncmp_loop.simps, simp)

section \<open>Every routine returns\<close>

text \<open>
  No object lies at the null address, and addresses wrap around: a scan that finds no terminator ends there at the latest.
\<close>

lemma address_induct:
  assumes "P 0" "\<And>p. p \<noteq> 0 \<Longrightarrow> P (p + 1) \<Longrightarrow> P p" shows "P (p :: ulong)"
proof (induction "unat (- p)" arbitrary: p rule: less_induct)
  case less
  show ?case
  proof (cases "p = 0")
    case False
    then have "unat (- (p + 1)) < unat (- p)" using measure_unat [of "- p"] by simp
    then show ?thesis using less.hyps assms(2) False by blast
  qed (use assms(1) in simp)
qed

lemma load_byte_0 [simp]: "load_byte m 0 = Inl Undefined"
  by (simp add: load_byte_def)

definition returns :: "'a option \<Rightarrow> bool" where
  "returns r \<longleftrightarrow> r \<noteq> None"

lemma returns_simps [simp]:
  "returns (Some x)" "returns (return y)" "returns (and_then r k) \<longleftrightarrow> (\<forall>x. r = Inr x \<longrightarrow> returns (k x))"
  "returns (case q of None \<Rightarrow> None | Some x \<Rightarrow> f x) \<longleftrightarrow> (\<exists>x. q = Some x \<and> returns (f x))"
  by (auto simp: returns_def return_def and_then_def split: sum.split option.split)

lemma returnsE: "returns r \<Longrightarrow> \<exists>x. r = Some x"
  by (simp add: returns_def)

lemma strcpy_loop_returns: "returns (strcpy_loop m dest src ch)"
proof -
  have "\<forall>m dest ch. returns (strcpy_loop m dest (q - 1) ch)" for q
  proof (induction q rule: address_induct)
    case 1
    show ?case by (intro allI, subst strcpy_loop.simps) auto
  next
    case (2 q)
    then show ?case by (intro allI, subst strcpy_loop.simps) auto
  qed
  then have "returns (strcpy_loop m dest (src + 1 - 1) ch)" by blast
  then show ?thesis by simp
qed

lemma stou64_loop_returns: "returns (stou64_loop sc m base str ch num)"
proof -
  have "\<forall>ch num. returns (stou64_loop sc m base (q - 1) ch num)" for q
  proof (induction q rule: address_induct)
    case 1
    show ?case by (intro allI, subst stou64_loop.simps) auto
  next
    case (2 q)
    then show ?case by (intro allI, subst stou64_loop.simps) auto
  qed
  then have "returns (stou64_loop sc m base (str + 1 - 1) ch num)" by blast
  then show ?thesis by simp
qed

lemma strcmp_loop_returns: "returns (strcmp_loop sc m p q)"
proof -
  have "\<forall>q. returns (strcmp_loop sc m p q)"
    by (induction p rule: address_induct; intro allI; subst strcmp_loop.simps) auto
  then show ?thesis by blast
qed

lemma strlen_returns: "returns (strlen m p)"
proof -
  have "\<forall>len. returns (strlen_loop m p len)"
    by (induction p rule: address_induct; intro allI; subst strlen_loop.simps) auto
  then show ?thesis by (simp add: strlen_def)
qed

lemma strpbrk_inner_returns: "returns (strpbrk_inner m p q)"
  by (induction q rule: address_induct; subst strpbrk_inner.simps) auto

lemma strpbrk_loop_returns: "returns (strpbrk_loop m p q)"
proof (induction p rule: address_induct)
  case (2 p)
  obtain r where "strpbrk_inner m p q = Some r" using strpbrk_inner_returns returnsE by blast
  then show ?case using 2 by (subst strpbrk_loop.simps) auto
qed (subst strpbrk_loop.simps, simp)

lemma strchr_loop_returns: "returns (strchr_loop sc m p c)"
  by (induction p rule: address_induct; subst strchr_loop.simps) auto

lemma strstr_loop_returns: "returns (strstr_loop m p q first len)"
proof (induction p rule: address_induct)
  case (2 p)
  obtain r where "strlen m p = Some r" using strlen_returns returnsE by blast
  then show ?case using 2 by (subst strstr_loop.simps) auto
qed (subst strstr_loop.simps, simp)

section \<open>Numbers\<close>

text \<open>The digits of a number, and the characters they are written with.\<close>

fun digits :: "nat \<Rightarrow> nat \<Rightarrow> nat list" where
  "digits b n = (if b < 2 \<or> n < b then [n] else digits b (n div b) @ [n mod b])"

declare digits.simps [simp del]

definition digit_char :: "nat \<Rightarrow> u8" where
  "digit_char d = of_nat (if d < 10 then 48 + d else 87 + d)"

lemma less_16_cases: "(d :: nat) < 16 \<Longrightarrow> d \<in> {0, 1, 2, 3, 4, 5, 6, 7, 8, 9, 10, 11, 12, 13, 14, 15}"
  by (simp, presburger)

lemma char_int_digit: "d < 16 \<Longrightarrow> char_int sc (digit_char d) = (if d < 10 then 48 + int d else 87 + int d)"
  by (drule less_16_cases) (auto simp: char_int_def digit_char_def)

lemma isxdigit_digit: "d < 16 \<Longrightarrow> isxdigit (char_int sc (digit_char d))"
  by (auto simp: isxdigit_def char_int_digit)

lemma stou64_digit_eq:
  assumes "d < 16"
  shows "stou64_digit base (char_int sc (digit_char d)) num =
    num * (if base = 16 then 16 else 10) + (if base = 16 \<or> d < 10 then of_nat d else 0)"
  using assms by (auto simp: stou64_digit_def char_int_digit Let_def)

lemma stou64_loop_digits:
  assumes "bytes_at m (str + 1) (tl (map digit_char ds @ [0]))" "ch = hd (map digit_char ds @ [0])" "\<forall>d\<in>set ds. d < 16"
  shows "stou64_loop sc m base str ch num = return (foldl (\<lambda>num d. num * (if base = 16 then 16 else 10) +
    (if base = 16 \<or> d < 10 then of_nat d else 0)) num ds)"
  using assms
proof (induction ds arbitrary: str ch num)
  case Nil
  then show ?case by (subst stou64_loop.simps) (simp add: isxdigit_def char_int_def)
next
  case (Cons d ds)
  have d: "d < 16" and ds: "\<forall>d\<in>set ds. d < 16" using Cons.prems(3) by auto
  have ld: "load_byte m (str + 1) = Inr (hd (map digit_char ds @ [0]))"
    and tl: "bytes_at m (str + 1 + 1) (tl (map digit_char ds @ [0]))"
    using Cons.prems(1) by (cases ds; simp)+
  show ?case using Cons.IH [OF tl refl ds] Cons.prems(2) ld isxdigit_digit [OF d] stou64_digit_eq [OF d]
    by (subst stou64_loop.simps) simp
qed

lemma digits_less: "2 \<le> b \<Longrightarrow> \<forall>d\<in>set (digits b n). d < b"
proof (induction b n rule: digits.induct)
  case (1 b n)
  then show ?case by (subst digits.simps) auto
qed

lemma foldl_digits:
  assumes "2 \<le> b" shows "foldl (\<lambda>num d. num * of_nat b + of_nat d) 0 (digits b n) = (of_nat n :: u64)"
  using assms
proof (induction b n rule: digits.induct)
  case (1 b n)
  show ?case
  proof (cases "n < b")
    case False
    then have "foldl (\<lambda>num d. num * of_nat b + of_nat d) 0 (digits b n) = (of_nat (n div b) * of_nat b + of_nat (n mod b) :: u64)"
      using 1 by (subst digits.simps) simp
    also have "\<dots> = of_nat (n div b * b + n mod b)" by (simp only: of_nat_add of_nat_mult)
    finally show ?thesis by (simp only: div_mult_mod_eq)
  qed (subst digits.simps, simp)
qed

lemma digits_not_Nil: "digits b n \<noteq> []"
  by (subst digits.simps) simp

lemma foldl_cong_set: "(\<And>x a. x \<in> set xs \<Longrightarrow> f a x = g a x) \<Longrightarrow> foldl f a xs = foldl g a xs"
  by (induction xs arbitrary: a) auto

lemma stou64_loop_number:
  assumes "bytes_at m str (map digit_char (digits b n) @ [0])" "b = (if base = 16 then 16 else 10)"
  shows "\<exists>ch. load_byte m str = Inr ch \<and> stou64_loop sc m base str ch 0 = return (of_nat n)"
proof -
  obtain d ds where dd: "digits b n = d # ds" using digits_not_Nil [of b n] by (cases "digits b n") auto
  have b: "2 \<le> b" "b \<le> 16" using assms(2) by auto
  have small: "\<forall>d\<in>set (digits b n). d < b" using digits_less [OF b(1)] .
  have "stou64_loop sc m base str (digit_char d) 0 = return (foldl (\<lambda>num d. num * (if base = 16 then 16 else 10) +
      (if base = 16 \<or> d < 10 then of_nat d else 0)) 0 (digits b n))"
    by (rule stou64_loop_digits) (use assms(1) dd small b(2) in auto)
  also have "\<dots> = return (foldl (\<lambda>num d. num * of_nat b + of_nat d) 0 (digits b n))"
    by (intro arg_cong [where f = return] foldl_cong_set) (use small assms(2) in auto)
  finally show ?thesis using foldl_digits [OF b(1), of n] assms(1) dd by simp
qed

text \<open>A number as it is written: a sign, the prefix of hexadecimal numbers, and the digits.\<close>

definition numeral_string :: "bool \<Rightarrow> bool \<Rightarrow> nat \<Rightarrow> u8 list" where
  "numeral_string neg hex n =
     (if neg then [45] else []) @ (if hex then [48, 120] else []) @ map digit_char (digits (if hex then 16 else 10) n)"

lemma digit_char_cases: "d < 10 \<Longrightarrow> digit_char d \<in> {48, 49, 50, 51, 52, 53, 54, 55, 56, 57}"
  using less_16_cases [of d] by (auto simp: digit_char_def)

lemma decimal_no_prefix:
  assumes "bytes_at m str (map digit_char (digits 10 n) @ [0])" "base \<noteq> 16"
  shows "stou64_prefix m str base = Inr (str, base)"
proof -
  obtain d ds where dd: "digits 10 n = d # ds" using digits_not_Nil [of 10 n] by (cases "digits 10 n") auto
  have small: "\<forall>d\<in>set (digits 10 n). d < 10" using digits_less [of 10 n] by simp
  have "load_byte m str = Inr (digit_char d)" using assms(1) dd by simp
  moreover have "\<exists>c. load_byte m (str + 1) = Inr c \<and> c \<noteq> 120 \<and> c \<noteq> 88"
  proof (cases ds)
    case (Cons e es)
    then have "e < 10" using small dd by simp
    then have "digit_char e \<noteq> 120" "digit_char e \<noteq> 88" using digit_char_cases [of e] by auto
    then show ?thesis using assms(1) dd Cons by simp
  qed (use assms(1) dd in simp)
  ultimately show ?thesis using assms(2) by (auto simp: stou64_prefix_def)
qed

lemma stou64_number:
  assumes s: "cstr m p (numeral_string neg hex n)" and base: "if hex then base = 0 \<or> base = 16 else base \<noteq> 16"
  shows "stou64 sc m p base = return (if neg then - of_nat n else of_nat n)"
proof -
  define str where "str = (if neg then p + 1 else p)"
  define b :: nat where "b = (if hex then 16 else 10)"
  have p: "p \<noteq> 0" using cstr_not_null [OF s] .
  have tail: "bytes_at m str ((if hex then [48, 120] else []) @ map digit_char (digits b n) @ [0])"
    using s by (auto simp: cstr_def numeral_string_def str_def b_def)
  obtain d ds where dd: "digits b n = d # ds" using digits_not_Nil [of b n] by (cases "digits b n") auto
  have "d < 16" using digits_less [of b n] dd by (auto simp: b_def split: if_splits)
  then have first: "digit_char d \<noteq> 0" "digit_char d \<noteq> 45"
    using isxdigit_digit [of d False] by (auto simp: isxdigit_def char_int_def)
  have head: "\<exists>ch. load_byte m p = Inr ch \<and> ch \<noteq> 0 \<and> (ch = 45 \<longleftrightarrow> neg)"
    using s first dd by (auto simp: cstr_def numeral_string_def b_def split: if_splits)
  define str' where "str' = (if hex then str + 2 else str)"
  define base' where "base' = (if hex then 16 else base)"
  have digs: "bytes_at m str' (map digit_char (digits b n) @ [0])"
    using tail by (auto simp: str'_def add.assoc split: if_splits)
  have pre: "stou64_prefix m str base = Inr (str', base')"
  proof (cases hex)
    case True
    then show ?thesis using tail base by (auto simp: stou64_prefix_def str'_def base'_def)
  next
    case False
    then show ?thesis using decimal_no_prefix [of m str n base] tail base by (simp add: b_def str'_def base'_def)
  qed
  have "b = (if base' = 16 then 16 else 10)" using base by (auto simp: b_def base'_def)
  then obtain ch' where "load_byte m str' = Inr ch'" "stou64_loop sc m base' str' ch' 0 = return (of_nat n)"
    using stou64_loop_number [OF digs] by blast
  then show ?thesis using head p pre by (auto simp: stou64_def Let_def return_def str_def)
qed

lemma sint_narrow:
  assumes "- (2 ^ 31) \<le> k" "k < 2 ^ 31" shows "sint (ucast (word_of_int k :: u64) :: u32) = k"
proof -
  have "ucast (word_of_int k :: u64) = (word_of_int k :: u32)" by (rule ucast_down_wi) (simp add: is_down)
  then show ?thesis using assms by (simp add: signed_of_int signed_take_bit_int_eq_self)
qed

lemma atoi_number:
  assumes "cstr m p (numeral_string (k < 0) False (nat \<bar>k\<bar>))" "- (2 ^ 31) \<le> k" "k < 2 ^ 31"
  shows "atoi sc m p = return k"
proof -
  have "(if k < 0 then - of_nat (nat \<bar>k\<bar>) else of_nat (nat \<bar>k\<bar>)) = (word_of_int k :: u64)"
    by simp
  then have "stou64 sc m p 10 = return (word_of_int k)" using stou64_number [OF assms(1), of 10 sc] by simp
  then show ?thesis using sint_narrow [OF assms(2,3)] by (simp add: atoi_def stoi_def return_def)
qed

section \<open>Writes stay in bounds\<close>

lemma strncpy_loop_bounds:
  assumes "strncpy_loop m dest src ch i n = Inr (m', e, j)" "count_up i n = k" "a \<notin> span dest k"
  shows "m' a = m a \<and> (j < n \<longrightarrow> e \<in> span dest k)"
  using assms
proof (induction k arbitrary: m dest src ch i)
  case 0
  then have "(m', e, j) = (m, dest, i)" using count_up_0 [of i n] strncpy_loop.simps [of m dest src ch i n] by simp
  then show ?case using 0 count_up_0 [of i n] by simp
next
  case (Suc k)
  have c: "i < n" "count_up (i + 1) n = k" using count_up_Suc [OF Suc.prems(2)] by auto
  show ?case
  proof (cases "ch = 0")
    case True
    then have "(m', e, j) = (m, dest, i)" using Suc.prems(1) strncpy_loop.simps [of m dest src ch i n] by simp
    then show ?thesis by (simp add: span_Suc)
  next
    case False
    then obtain m1 ch' where s: "store_byte m dest ch = Inr m1" "strncpy_loop m1 (dest + 1) (src + 1) ch' (i + 1) n = Inr (m', e, j)"
      using Suc.prems(1) c(1) strncpy_loop.simps [of m dest src ch i n] by (auto simp: ebind_eq_Inr_iff)
    have "a \<noteq> dest" "a \<notin> span (dest + 1) k" using Suc.prems(3) by (auto simp: span_Suc)
    moreover have "m1 a = m a" using s(1) \<open>a \<noteq> dest\<close> by (auto simp: store_byte_def split: if_splits)
    ultimately show ?thesis using Suc.IH [OF s(2) c(2)] by (simp add: span_Suc)
  qed
qed

lemma span_Suc_end: "span p (n + 1) = insert (p + of_nat n) (span p n)"
  by (auto simp: span_def lessThan_Suc)

lemma strncpy_loop_overread:
  assumes "bytes_at m src (c # s)" "0 \<notin> set (c # s)" "m (src + of_nat (length (c # s))) = None" "count_up i n = length (c # s)"
    "span dest (length (c # s)) \<inter> span src (length (c # s) + 1) = {}"
  shows "strncpy_loop m dest src c i n = Inl Undefined"
  using assms
proof (induction s arbitrary: m dest src c i)
  case Nil
  have "i < n" using count_up_Suc Nil(4) by auto
  moreover have "src + 1 \<noteq> dest" using Nil(5) by (auto simp: span_Suc)
  ultimately show ?case using Nil by (subst strncpy_loop.simps) (auto simp: store_byte_def load_byte_def)
next
  case (Cons d s)
  have c: "i < n" "count_up (i + 1) n = length (d # s)" using count_up_Suc Cons.prems(4) by auto
  show ?case
  proof (cases "dest = 0 \<or> m dest = None")
    case False
    define m1 where "m1 = m(dest := Some c)"
    have dis: "span (dest + 1) (length (d # s)) \<inter> span (src + 1) (length (d # s) + 1) = {}" "dest \<notin> span (src + 1) (length (d # s) + 1)"
      using Cons.prems(5) by (auto simp: span_Suc)
    have out: "dest \<notin> span (src + 1) (length (d # s))" "dest \<noteq> src + 1 + of_nat (length (d # s))"
      using dis(2) unfolding span_Suc_end by auto
    have "bytes_at m1 (src + 1) (d # s)"
      using Cons.prems(1) out(1) unfolding m1_def by (subst bytes_at_cong [of _ _ _ m]) auto
    moreover have "m1 (src + 1 + of_nat (length (d # s))) = None"
      using Cons.prems(3) out(2) by (simp add: m1_def add.assoc)
    ultimately have "strncpy_loop m1 (dest + 1) (src + 1) d (i + 1) n = Inl Undefined" "load_byte m1 (src + 1) = Inr d"
      using Cons.IH [of m1 "src + 1" d "i + 1" "dest + 1"] Cons.prems(2) c(2) dis(1) by auto
    moreover have "store_byte m dest c = Inr m1" using False by (simp add: store_byte_def m1_def)
    ultimately show ?thesis using c(1) Cons.prems(2) by (subst strncpy_loop.simps) simp
  qed (use c(1) Cons.prems(2) in \<open>auto simp: strncpy_loop.simps [of m dest] store_byte_def\<close>)
qed

section \<open>Properties\<close>

text \<open>
  C23: \<^verbatim>\<open>strcpy\<close> copies: given a terminated string at \<^verbatim>\<open>src\<close> and room for it at \<^verbatim>\<open>dest\<close> that does not overlap
  it, the call returns \<^verbatim>\<open>dest\<close>, both places hold the string afterwards, and no byte outside the string
  and its terminator at \<^verbatim>\<open>dest\<close> has changed.
\<close>

theorem strcpy_copies:
  assumes "cstr m src s" "writable m dest (length s + 1)" "span dest (length s + 1) \<inter> span src (length s + 1) = {}"
  shows "\<exists>m'. strcpy m dest src = Some (Inr (m', dest)) \<and> cstr m' dest s \<and> cstr m' src s \<and>
    (\<forall>a. a \<notin> span dest (length s + 1) \<longrightarrow> m' a = m a)"
proof -
  define m' where "m' = fill m dest (s @ [0])"
  have out: "\<forall>a. a \<notin> span dest (length s + 1) \<longrightarrow> m' a = m a" using fill_outside [of _ dest "s @ [0]" m] by (simp add: m'_def)
  have "bytes_at m' src (s @ [0]) \<longleftrightarrow> bytes_at m src (s @ [0])" by (rule bytes_at_cong) (use out assms(3) in auto)
  moreover have "bytes_at m' dest (s @ [0])" unfolding m'_def by (rule fill_bytes) (use assms(2) in simp)
  ultimately show ?thesis using strcpy_cstr [OF assms] out assms(1) by (auto simp: m'_def cstr_def return_def)
qed

text \<open>A memory with two strings and free room.\<close>

definition demo_memory :: memory where
  "demo_memory = (\<lambda>a. if a < 64 then Some 0 else None)
     (16 := Some 97, 17 := Some 98, 24 := Some 97, 25 := Some 98, 26 := Some 97, 27 := Some 98, 28 := Some 99,
      40 := Some 45, 41 := Some 50, 42 := Some 49, 44 := Some 48, 45 := Some 120, 46 := Some 102)"

lemma span_numeral [simp]: "span p (numeral k) = insert p (span (p + 1) (pred_numeral k))"
  by (simp add: numeral_eq_Suc span_Suc)

lemma demo_strings:
  "cstr demo_memory 16 [97, 98]" "cstr demo_memory 24 [97, 98, 97, 98, 99]" "cstr demo_memory 26 [97, 98, 99]"
  "cstr demo_memory 40 [45, 50, 49]" "cstr demo_memory 44 [48, 120, 102]"
  by (simp_all add: demo_memory_def)

lemma demo_room: "writable demo_memory 48 3" "span 48 3 \<inter> span 16 3 = {}"
  by (simp_all add: writable_def demo_memory_def span_Suc)

theorem strcpy_copies_witness: "\<exists>m'. strcpy demo_memory 48 16 = Some (Inr (m', 48)) \<and> cstr m' 48 [97, 98]"
proof -
  have l: "length [97, 98 :: u8] + 1 = 3" by simp
  show ?thesis using strcpy_copies [OF demo_strings(1), of 48, unfolded l] demo_room by blast
qed

text \<open>
  C25: \<^verbatim>\<open>strcmp\<close> orders strings: on two terminated strings it returns 0 when they are equal, and otherwise -1
  or 1 as the first is less or greater in the lexicographic order of the characters' values followed by
  the terminator, where the values are signed or unsigned as \<^verbatim>\<open>char\<close> is on the processor.
\<close>

theorem strcmp_orders:
  assumes "cstr m s1 a" "cstr m s2 b"
  shows "strcmp sc m s1 s2 =
    Some (Inr (if a = b then 0 else if (a @ [0], b @ [0]) \<in> lexord {(x, y). char_int sc x < char_int sc y} then -1 else 1))"
  using strcmp_loop_cstr [OF assms] first_diff_order [of a b sc] cstr_not_null [OF assms(1)] assms
  by (auto simp: strcmp_def return_def cstr_def char_less_def)

theorem strcmp_orders_witness: "strcmp True demo_memory 16 24 = Some (Inr (-1)) \<and> strcmp True demo_memory 24 24 = Some (Inr 0)"
  using strcmp_orders [OF demo_strings(1,2), of True] strcmp_orders [OF demo_strings(2,2), of True] by (simp add: char_int_def)

text \<open>
  C24: \<^verbatim>\<open>strstr\<close> finds the first occurrence: for a string \<open>hay\<close> and a non-empty string \<open>needle\<close>, both shorter
  than the range of \<^verbatim>\<open>int\<close>, it returns NULL exactly when \<open>needle\<close> does not occur in \<open>hay\<close>, and otherwise the
  address of the least position at which it does.
\<close>

theorem strstr_first_occurrence:
  assumes "cstr m str hay" "cstr m ndl needle" "needle \<noteq> []" "length hay < 2 ^ 31" "length needle < 2 ^ 31"
  shows "if sublist needle hay
    then \<exists>i. strstr m str ndl = Some (Inr (str + of_nat i)) \<and> prefix needle (drop i hay) \<and> (\<forall>j<i. \<not> prefix needle (drop j hay))
    else strstr m str ndl = Some (Inr 0)"
proof -
  obtain c rest where n: "needle = c # rest" using assms(3) by (cases needle) auto
  have "strlen m ndl = return (of_nat (length rest + 1))" using strlen_cstr [OF assms(2,5)] n by simp
  then have r: "strstr m str ndl = return (place str (find_sub needle hay))"
    using strstr_loop_cstr [of m str hay ndl c rest] assms n cstr_not_null
    by (simp add: strstr_def return_def)
  show ?thesis
  proof (cases "find_sub needle hay")
    case None
    then have "\<not> sublist needle hay" using find_sub_None [OF assms(3)] by blast
    then show ?thesis using r None by (simp add: return_def)
  next
    case (Some i)
    then have "sublist needle hay" using find_sub_None [OF assms(3), of hay] by auto
    then show ?thesis using r Some find_sub_Some [OF Some] by (auto simp: return_def place_def)
  qed
qed

theorem strstr_first_occurrence_witness: "\<exists>i. strstr demo_memory 24 26 = Some (Inr (24 + of_nat i)) \<and> prefix [97, 98, 99] (drop i [97, 98, 97, 98, 99 :: u8])"
proof -
  have "sublist [97, 98, 99] [97, 98, 97, 98, 99 :: u8]" by (simp add: sublist_Cons_right)
  then show ?thesis using strstr_first_occurrence [OF demo_strings(2,3)] by auto
qed

text \<open>
  C26: The string routines return on every memory and every argument, also when a string has no
  terminator: the scan then ends in a fault at the latest where the addresses wrap around to the null
  address.
\<close>

theorem string_routines_return:
  "strlen m p \<noteq> None \<and> strcpy m p q \<noteq> None \<and> strcmp sc m p q \<noteq> None \<and> strchr sc m p c \<noteq> None \<and> strpbrk m p q \<noteq> None \<and>
   strstr m p q \<noteq> None \<and> memstr m p q len \<noteq> None \<and> stou64 sc m p base \<noteq> None"
proof -
  have "returns (strcpy m p q)" using strcpy_loop_returns [of m p q] by (auto simp: strcpy_def returnsE)
  moreover have "returns (strcmp sc m p q)" using strcmp_loop_returns by (simp add: strcmp_def)
  moreover have "returns (strchr sc m p c)" using strchr_loop_returns by (simp add: strchr_def)
  moreover have "returns (strpbrk m p q)" using strpbrk_loop_returns by (simp add: strpbrk_def)
  moreover obtain r where "strlen m q = Some r" using strlen_returns returnsE by blast
  then have "returns (strstr m p q)" "returns (memstr m p q len)" using strstr_loop_returns by (simp_all add: strstr_def memstr_def)
  moreover have "returns (stou64 sc m p base)" using stou64_loop_returns by (auto simp: stou64_def Let_def returnsE split: prod.split)
  ultimately show ?thesis using strlen_returns [of m p] unfolding returns_def by blast
qed

text \<open>
  C27: Numbers survive writing and reading: \<^verbatim>\<open>atoi\<close> of the decimal notation of any value of type \<^verbatim>\<open>int\<close> is that
  value, and \<^verbatim>\<open>stou64\<close> with base 0 or 16 of the hexadecimal notation of a 64-bit value is that value.
\<close>

theorem number_roundtrip:
  assumes "cstr m p (numeral_string (k < 0) False (nat \<bar>k\<bar>))" "- (2 ^ 31) \<le> k" "k < 2 ^ 31"
    "cstr m q (numeral_string False True (unat v))" "base = 0 \<or> base = 16"
  shows "atoi sc m p = Some (Inr k) \<and> stou64 sc m q base = Some (Inr v)"
  using atoi_number [OF assms(1,2,3)] stou64_number [OF assms(4), of base] assms(5) by (simp add: return_def)

theorem number_roundtrip_witness: "atoi True demo_memory 40 = Some (Inr (-21)) \<and> stou64 True demo_memory 44 0 = Some (Inr 15)"
proof -
  have d: "digits 10 2 = [2]" "digits 16 15 = [15]" "digits 10 21 = [2, 1]" by (simp_all add: digits.simps)
  have "cstr demo_memory 40 (numeral_string True False 21)" "cstr demo_memory 44 (numeral_string False True 15)"
    using demo_strings(4,5) by (simp_all add: numeral_string_def d digit_char_def)
  then show ?thesis using number_roundtrip [of demo_memory 40 "-21" 44 15 0 True] by simp
qed

text \<open>
  C28: \<^verbatim>\<open>strncpy\<close> stays in bounds on the side it writes and not on the side it reads: whatever the memory
  holds, a call that returns has changed nothing outside the \<^verbatim>\<open>n\<close> bytes at \<^verbatim>\<open>dest\<close>; but when the source is
  an array of exactly \<^verbatim>\<open>n\<close> characters without terminator, which the function is meant for, it reads the
  byte behind the array, which is undefined when no object lies there.
\<close>

theorem strncpy_bounds:
  "(strncpy m dest src n = Inr (m', d) \<longrightarrow> a \<notin> span dest (unat n) \<longrightarrow> m' a = m a) \<and>
   (bytes_at m src s \<and> s \<noteq> [] \<and> 0 \<notin> set s \<and> length s = unat n \<and> m (src + n) = None \<and> span dest (unat n) \<inter> span src (unat n + 1) = {} \<longrightarrow>
      strncpy m dest src n = Inl Undefined)"
proof (intro conjI impI)
  assume r: "strncpy m dest src n = Inr (m', d)" and a: "a \<notin> span dest (unat n)"
  then obtain ch m1 e j where l: "strncpy_loop m dest src ch 0 n = Inr (m1, e, j)"
      "(if j < n then ebind (store_byte m1 e 0) (\<lambda>m. Inr (m, dest)) else Inr (m1, dest)) = Inr (m', d)"
    by (auto simp: strncpy_def ebind_eq_Inr_iff)
  have "m1 a = m a \<and> (j < n \<longrightarrow> e \<in> span dest (unat n))"
    using strncpy_loop_bounds [OF l(1) _ a] by (simp add: count_up_def)
  then show "m' a = m a" using l(2) a by (auto simp: ebind_eq_Inr_iff store_byte_def split: if_splits)
next
  assume p: "bytes_at m src s \<and> s \<noteq> [] \<and> 0 \<notin> set s \<and> length s = unat n \<and> m (src + n) = None \<and> span dest (unat n) \<inter> span src (unat n + 1) = {}"
  then obtain c t where s: "s = c # t" by (cases s) auto
  have "of_nat (length s) = n" using p by simp
  then have "strncpy_loop m dest src c 0 n = Inl Undefined"
    by (intro strncpy_loop_overread [of m src c t]) (use p s in \<open>auto simp: count_up_def\<close>)
  then show "strncpy m dest src n = Inl Undefined" using p s by (simp add: strncpy_def)
qed

theorem strncpy_bounds_witness: "strncpy (demo_memory(18 := None)) 48 16 2 = Inl Undefined"
  by (rule strncpy_bounds [of _ _ _ _ _ _ 0 "[97, 98]", THEN conjunct2, THEN mp])
    (simp add: demo_memory_def span_Suc)

end
