(* ===== verification/Atomic.thy ===== *)
theory Atomic
  imports Prelude
begin

text \<open>
  Lock-free updates of a shared word, \<^verbatim>\<open>common/include/atomic.h\<close>, and the reference counts of
  \<^verbatim>\<open>common/include/refcount.h\<close> that are built on them. Every read and every compare-and-swap of the word is
  one step of a processor; the steps of any number of processors interleave in any order. The
  compare-and-swap is atomic, as the x86 port writes it with a locked instruction and most other ports
  with a pair of linked load and conditional store. The Alpha port has a plain load, test and store
  instead, to which the theorem below does not apply.
\<close>

section \<open>Read-modify-write loops\<close>

definition atomic_cas_val :: "ulong \<Rightarrow> ulong \<Rightarrow> ulong \<Rightarrow> ulong \<times> ulong" where
  "atomic_cas_val val old_val new_val = (if val = old_val then new_val else val, val)"

definition atomic_cas_bool :: "ulong \<Rightarrow> ulong \<Rightarrow> ulong \<Rightarrow> ulong \<times> bool" where
  "atomic_cas_bool val old_val new_val =
     (let (val, read_val) = atomic_cas_val val old_val new_val in (val, read_val = old_val))"

text \<open>The four loops differ in the new value and in the value they return.\<close>

datatype rmw =
  atomic_fetch_and_add ulong
| atomic_fetch_and_sub ulong
| atomic_add_and_fetch ulong
| atomic_sub_and_fetch ulong

primrec new_value :: "rmw \<Rightarrow> ulong \<Rightarrow> ulong" where
  "new_value (atomic_fetch_and_add n) old_val = old_val + n"
| "new_value (atomic_fetch_and_sub n) old_val = old_val - n"
| "new_value (atomic_add_and_fetch n) old_val = old_val + n"
| "new_value (atomic_sub_and_fetch n) old_val = old_val - n"

primrec returned :: "rmw \<Rightarrow> ulong \<Rightarrow> ulong \<Rightarrow> ulong" where
  "returned (atomic_fetch_and_add n) ret_val new_val = ret_val"
| "returned (atomic_fetch_and_sub n) ret_val new_val = ret_val"
| "returned (atomic_add_and_fetch n) ret_val new_val = new_val"
| "returned (atomic_sub_and_fetch n) ret_val new_val = new_val"

text \<open>Where a processor is in the loop, with the local variables that are still needed.\<close>

datatype rmw_pc = Idle | Load rmw | Swap rmw ulong ulong | Returned rmw ulong

fun rmw_step :: "ulong \<Rightarrow> rmw_pc \<Rightarrow> ulong \<times> rmw_pc" where
  "rmw_step val Idle = (val, Idle)"
| "rmw_step val (Load op) = (val, Swap op val (new_value op val))"
| "rmw_step val (Swap op old_val new_val) =
     (let (val, ret_val) = atomic_cas_val val old_val new_val
      in (val, if ret_val \<noteq> old_val then Load op else Returned op (returned op ret_val new_val)))"
| "rmw_step val (Returned op r) = (val, Idle)"

definition atomic_inc :: rmw where
  "atomic_inc = atomic_fetch_and_add 1"

definition atomic_dec :: rmw where
  "atomic_dec = atomic_fetch_and_sub 1"

section \<open>Reference counts\<close>

definition ref_count_init :: "ulong \<Rightarrow> ulong" where
  "ref_count_init val = val"

definition ref_count_read :: "ulong \<Rightarrow> ulong" where
  "ref_count_read rc = rc"

definition ref_count_is_zero :: "ulong \<Rightarrow> bool" where
  "ref_count_is_zero rc \<longleftrightarrow> \<not> rc \<noteq> 0"

definition ref_count_inc :: rmw where
  "ref_count_inc = atomic_inc"

definition ref_count_dec :: rmw where
  "ref_count_dec = atomic_dec"

definition ref_count_add :: "ulong \<Rightarrow> rmw" where
  "ref_count_add num = atomic_fetch_and_add num"

definition ref_count_sub :: "ulong \<Rightarrow> rmw" where
  "ref_count_sub num = atomic_fetch_and_sub num"

section \<open>Interleaving\<close>

text \<open>
  The third component of a state is the trace of what happened: calls, changes of the word by a
  compare-and-swap that found the value it expected, with the word before and after, and returns with
  their result. It is not part of the program.
\<close>

datatype rmw_event = Called nat rmw | Changed nat rmw ulong ulong | Finished nat rmw ulong

type_synonym rmw_sys = "ulong \<times> (nat \<Rightarrow> rmw_pc) \<times> rmw_event list"

fun observed :: "nat \<Rightarrow> ulong \<Rightarrow> rmw_pc \<Rightarrow> ulong \<Rightarrow> rmw_event list" where
  "observed i val (Swap op old_val new_val) val' = (if val = old_val then [Changed i op val val'] else [])"
| "observed i val (Returned op r) val' = [Finished i op r]"
| "observed i val _ val' = []"

inductive rmw_sys :: "rmw_sys \<Rightarrow> rmw_sys \<Rightarrow> bool" where
  call: "cs i = Idle \<Longrightarrow> rmw_sys (val, cs, tr) (val, cs(i := Load op), tr @ [Called i op])"
| access: "cs i \<noteq> Idle \<Longrightarrow> rmw_step val (cs i) = (val', c') \<Longrightarrow>
    rmw_sys (val, cs, tr) (val', cs(i := c'), tr @ observed i val (cs i) val')"

inductive rmw_reach :: "ulong \<Rightarrow> rmw_sys \<Rightarrow> bool" for init where
  start: "rmw_reach init (ref_count_init init, \<lambda>_. Idle, [])"
| step: "rmw_reach init s \<Longrightarrow> rmw_sys s s' \<Longrightarrow> rmw_reach init s'"

section \<open>Every operation takes effect at once\<close>

text \<open>
  The specification, in integers: what an operation does to the word and what it returns, as a
  relation between the word before, the word after and the result.
\<close>

fun meets :: "rmw \<Rightarrow> ulong \<Rightarrow> ulong \<Rightarrow> ulong \<Rightarrow> bool" where
  "meets (atomic_fetch_and_add n) before after r \<longleftrightarrow> uint after = (uint before + uint n) mod 2 ^ 64 \<and> r = before"
| "meets (atomic_fetch_and_sub n) before after r \<longleftrightarrow> uint after = (uint before - uint n) mod 2 ^ 64 \<and> r = before"
| "meets (atomic_add_and_fetch n) before after r \<longleftrightarrow> uint after = (uint before + uint n) mod 2 ^ 64 \<and> r = after"
| "meets (atomic_sub_and_fetch n) before after r \<longleftrightarrow> uint after = (uint before - uint n) mod 2 ^ 64 \<and> r = after"

text \<open>The changes of a trace, each starting from the value that the one before has left.\<close>

fun replay :: "ulong \<Rightarrow> rmw_event list \<Rightarrow> ulong option" where
  "replay val [] = Some val"
| "replay val (Changed i op before after # tr) = (if val = before then replay after tr else None)"
| "replay val (_ # tr) = replay val tr"

fun event_cpu :: "rmw_event \<Rightarrow> nat" where
  "event_cpu (Called i op) = i"
| "event_cpu (Changed i op before after) = i"
| "event_cpu (Finished i op r) = i"

definition events_of :: "nat \<Rightarrow> rmw_event list \<Rightarrow> rmw_event list" where
  "events_of i tr = filter (\<lambda>e. event_cpu e = i) tr"

text \<open>
  The events of one processor: call, exactly one change, return, over and over, where the change and the
  result meet the specification of the operation called. The last call may still be running.
\<close>

inductive complete :: "rmw_event list \<Rightarrow> bool" where
  none: "complete []"
| more: "complete es \<Longrightarrow> meets op before after r \<Longrightarrow> complete (es @ [Called i op, Changed i op before after, Finished i op r])"

definition one_by_one :: "rmw_event list \<Rightarrow> bool" where
  "one_by_one es \<longleftrightarrow> (\<exists>xs ys. es = xs @ ys \<and> complete xs \<and>
     (ys = [] \<or> (\<exists>i op. ys = [Called i op]) \<or>
      (\<exists>i op before after r. ys = [Called i op, Changed i op before after] \<and> meets op before after r)))"

text \<open>The same with the part that belongs to the running call tied to the program counter.\<close>

definition running :: "nat \<Rightarrow> rmw_pc \<Rightarrow> rmw_event list \<Rightarrow> bool" where
  "running i c es \<longleftrightarrow>
     (case c of
        Idle \<Rightarrow> es = []
      | Load op \<Rightarrow> es = [Called i op]
      | Swap op old_val new_val \<Rightarrow> es = [Called i op] \<and> new_val = new_value op old_val
      | Returned op r \<Rightarrow> \<exists>before after. es = [Called i op, Changed i op before after] \<and> meets op before after r)"

lemma meets_new_value: "meets op old_val (new_value op old_val) (returned op old_val (new_value op old_val))"
  by (cases op) (simp_all add: uint_word_ariths)

lemma replay_append: "replay val (tr @ tr') = Option.bind (replay val tr) (\<lambda>v. replay v tr')"
  by (induction val tr rule: replay.induct) auto

lemma events_of_append [simp]: "events_of i (tr @ tr') = events_of i tr @ events_of i tr'"
  by (simp add: events_of_def)

lemma events_of_observed [simp]: "events_of j (observed i val c val') = (if j = i then observed i val c val' else [])"
  by (cases c) (auto simp: events_of_def)

definition explained :: "nat \<Rightarrow> rmw_pc \<Rightarrow> rmw_event list \<Rightarrow> bool" where
  "explained i c es \<longleftrightarrow> (\<exists>xs ys. es = xs @ ys \<and> complete xs \<and> running i c ys)"

lemma explainedI: "complete xs \<Longrightarrow> running i c ys \<Longrightarrow> es = xs @ ys \<Longrightarrow> explained i c es"
  by (auto simp: explained_def)

lemma explained_step:
  assumes st: "rmw_step val c = (val', c')" and ex: "explained i c es"
  shows "explained i c' (es @ observed i val c val') \<and> replay val (observed i val c val') = Some val'"
proof -
  obtain xs ys where es: "es = xs @ ys" "complete xs" "running i c ys" using ex by (auto simp: explained_def)
  show ?thesis
  proof (cases c)
    case (Swap op old_val new_val)
    then have y: "ys = [Called i op]" "new_val = new_value op old_val" using es(3) by (auto simp: running_def)
    show ?thesis
    proof (cases "val = old_val")
      case True
      then have v: "val' = new_value op old_val" "c' = Returned op (returned op old_val (new_value op old_val))"
          "observed i val c val' = [Changed i op old_val val']"
        using st Swap y by (auto simp: atomic_cas_val_def)
      then have "running i c' (ys @ observed i val c val')" using y meets_new_value by (simp add: running_def)
      then show ?thesis using explainedI [OF es(2)] es(1) v(3) True by simp
    next
      case False
      then have "val' = val" "c' = Load op" "observed i val c val' = []" using st Swap by (auto simp: atomic_cas_val_def)
      then show ?thesis using explainedI [OF es(2), of i c' ys] es(1) y by (simp add: running_def)
    qed
  next
    case (Returned op r)
    then obtain before after where "ys = [Called i op, Changed i op before after]" "meets op before after r"
      using es(3) by (auto simp: running_def)
    then have "complete (es @ [Finished i op r])" using complete.more [OF es(2)] es(1) by simp
    then show ?thesis using st Returned explainedI [of "es @ [Finished i op r]" i Idle "[]"] by (auto simp: running_def)
  next
    case (Load op)
    then show ?thesis using st es explainedI [OF es(2), of i c' ys] by (auto simp: running_def)
  qed (use st ex in auto)
qed

lemma rmw_reach_explained:
  "rmw_reach init s \<Longrightarrow> replay init (snd (snd s)) = Some (fst s) \<and> (\<forall>i. explained i (fst (snd s) i) (events_of i (snd (snd s))))"
proof (induction rule: rmw_reach.induct)
  case start
  then show ?case by (simp add: ref_count_init_def explained_def running_def events_of_def complete.none)
next
  case (step s s')
  from step.hyps(2) step.IH show ?case
  proof (induction rule: rmw_sys.induct)
    case (call cs i val tr op)
    then have "explained i Idle (events_of i tr)" by (metis fst_conv snd_conv)
    then obtain xs where "events_of i tr = xs" "complete xs" by (auto simp: explained_def running_def)
    then have "explained i (Load op) (events_of i (tr @ [Called i op]))"
      by (intro explainedI [of xs i _ "[Called i op]"]) (simp_all add: events_of_def running_def)
    moreover have "events_of j (tr @ [Called i op]) = events_of j tr" if "j \<noteq> i" for j using that by (simp add: events_of_def)
    ultimately show ?case using call by (simp add: replay_append)
  next
    case (access cs i val val' c' tr)
    then show ?case using explained_step [OF access(2), of i "events_of i tr"] by (simp add: replay_append)
  qed
qed

lemma explained_one_by_one: "explained i c es \<Longrightarrow> one_by_one es"
proof -
  assume "explained i c es"
  then obtain xs ys where es: "es = xs @ ys" "complete xs" "running i c ys" by (auto simp: explained_def)
  have "ys = [] \<or> (\<exists>i op. ys = [Called i op]) \<or>
      (\<exists>i op before after r. ys = [Called i op, Changed i op before after] \<and> meets op before after r)"
  proof (cases c)
    case (Returned op r)
    then have "\<exists>before after. ys = [Called i op, Changed i op before after] \<and> meets op before after r"
      using es(3) by (simp add: running_def)
    then show ?thesis by blast
  qed (use es(3) in \<open>simp_all add: running_def\<close>)
  then show "one_by_one es" using es(1,2) unfolding one_by_one_def by blast
qed

section \<open>Counting\<close>

fun is_call :: "rmw \<Rightarrow> rmw_event \<Rightarrow> bool" where
  "is_call op (Called i op') \<longleftrightarrow> op' = op"
| "is_call op _ \<longleftrightarrow> False"

fun is_change :: "rmw \<Rightarrow> rmw_event \<Rightarrow> bool" where
  "is_change op (Changed i op' before after) \<longleftrightarrow> op' = op"
| "is_change op _ \<longleftrightarrow> False"

definition calls :: "rmw \<Rightarrow> rmw_event list \<Rightarrow> nat" where
  "calls op tr = length (filter (is_call op) tr)"

definition changes :: "rmw \<Rightarrow> rmw_event list \<Rightarrow> nat" where
  "changes op tr = length (filter (is_change op) tr)"

lemma complete_counts: "complete es \<Longrightarrow> calls op es = changes op es"
  by (induction rule: complete.induct) (auto simp: calls_def changes_def)

lemma count_by_cpu: "\<forall>e\<in>set tr. event_cpu e < N \<Longrightarrow> length (filter Q tr) = (\<Sum>i<N. length (filter Q (events_of i tr)))"
proof (induction tr)
  case (Cons e tr)
  have "(\<Sum>i<N. length (filter Q (events_of i (e # tr)))) = (\<Sum>i<N. (if i = event_cpu e then if Q e then 1 else 0 else 0) + length (filter Q (events_of i tr)))"
    by (rule sum.cong) (auto simp: events_of_def)
  also have "\<dots> = (if Q e then 1 else 0) + length (filter Q tr)"
    using Cons by (simp add: sum.distrib sum.delta)
  finally show ?case by simp
qed (simp add: events_of_def)

lemma idle_counts:
  assumes "\<And>i. complete (events_of i tr)"
  shows "calls op tr = changes op tr"
proof -
  define N where "N = Suc (Max (insert 0 (event_cpu ` set tr)))"
  have lt: "\<forall>e\<in>set tr. event_cpu e < N" by (auto simp: N_def less_Suc_eq_le)
  show ?thesis
    using complete_counts [OF assms, of op] count_by_cpu [OF lt] by (simp add: calls_def changes_def)
qed

lemma meets_count:
  "meets ref_count_inc before after r \<Longrightarrow> after = before + 1" "meets ref_count_dec before after r \<Longrightarrow> after = before - 1"
  by (simp_all add: ref_count_inc_def ref_count_dec_def atomic_inc_def atomic_dec_def word_uint_eq_iff [of after] uint_word_ariths)

lemma inc_dec_differ [simp]: "ref_count_inc \<noteq> ref_count_dec" "ref_count_dec \<noteq> ref_count_inc"
  by (simp_all add: ref_count_inc_def ref_count_dec_def atomic_inc_def atomic_dec_def)

lemma changes_Cons [simp]:
  "changes op [] = 0"
  "changes op (Changed i op' before after # tr) = (if op' = op then Suc (changes op tr) else changes op tr)"
  "changes op (Called i op' # tr) = changes op tr" "changes op (Finished i op' r # tr) = changes op tr"
  by (simp_all add: changes_def)

lemma replay_counts:
  assumes "\<forall>i op before after. Changed i op before after \<in> set tr \<longrightarrow> (op = ref_count_inc \<or> op = ref_count_dec) \<and> (\<exists>r. meets op before after r)"
    "replay init tr = Some val"
  shows "val = init + of_nat (changes ref_count_inc tr) - of_nat (changes ref_count_dec tr)"
  using assms
proof (induction init tr rule: replay.induct)
  case (2 v i op before after tr)
  from 2 have IH: "val = after + of_nat (changes ref_count_inc tr) - of_nat (changes ref_count_dec tr)" and v: "v = before"
    by (auto split: if_splits)
  obtain r where op: "op = ref_count_inc \<or> op = ref_count_dec" "meets op before after r" using 2(2) [rule_format, of i op before after] by auto
  show ?case
  proof (cases "op = ref_count_inc")
    case True
    then show ?thesis using IH v meets_count(1) [of before after r] op(2) by simp
  next
    case False
    then have dec: "op = ref_count_dec" using op(1) by simp
    then show ?thesis using IH v meets_count(2) [of before after r] op(2) by simp
  qed
qed simp_all

lemma complete_changes:
  "complete es \<Longrightarrow> Changed i op before after \<in> set es \<Longrightarrow> (\<exists>j. Called j op \<in> set es) \<and> (\<exists>r. meets op before after r)"
  by (induction rule: complete.induct) auto

section \<open>Properties\<close>

text \<open>
  C16: The lock-free updates are linearizable, in every interleaving of \<^verbatim>\<open>atomic_fetch_and_add\<close>,
  \<^verbatim>\<open>atomic_fetch_and_sub\<close>, \<^verbatim>\<open>atomic_add_and_fetch\<close> and \<^verbatim>\<open>atomic_sub_and_fetch\<close>: each call changes the word exactly once
  between its beginning and its return, by the sum or difference modulo \<open>2 ^ 64\<close>, and returns the value
  before or after that change as its name says; every change starts from the value the previous one
  left, so none is lost. When no call is running, a reference count that is only incremented and
  decremented holds the initial value plus the number of \<^verbatim>\<open>ref_count_inc\<close> calls minus the number of
  \<^verbatim>\<open>ref_count_dec\<close> calls. A processor that runs alone finishes in one round of the loop.
\<close>

theorem atomic_updates_linearize:
  assumes "rmw_reach init (val, cs, tr)"
  shows "replay init tr = Some val \<and> (\<forall>i. one_by_one (events_of i tr)) \<and>
    ((\<forall>i. cs i = Idle) \<and> (\<forall>i op. Called i op \<in> set tr \<longrightarrow> op = ref_count_inc \<or> op = ref_count_dec) \<longrightarrow>
       ref_count_read val = init + of_nat (calls ref_count_inc tr) - of_nat (calls ref_count_dec tr)) \<and>
    (\<forall>op. \<exists>c after r. rmw_step val (Load op) = (val, c) \<and> rmw_step val c = (after, Returned op r) \<and> meets op val after r)"
proof (intro conjI impI allI)
  have ex: "explained i (cs i) (events_of i tr)" for i using rmw_reach_explained [OF assms] by simp
  show rp: "replay init tr = Some val" using rmw_reach_explained [OF assms] by simp
  show "one_by_one (events_of i tr)" for i using ex explained_one_by_one by blast
  show "\<exists>c after r. rmw_step val (Load op) = (val, c) \<and> rmw_step val c = (after, Returned op r) \<and> meets op val after r" for op
    using meets_new_value [of op val] by (simp add: atomic_cas_val_def)
  assume a: "(\<forall>i. cs i = Idle) \<and> (\<forall>i op. Called i op \<in> set tr \<longrightarrow> op = ref_count_inc \<or> op = ref_count_dec)"
  have co: "complete (events_of i tr)" for i using ex [of i] a by (auto simp: explained_def running_def)
  have "(op = ref_count_inc \<or> op = ref_count_dec) \<and> (\<exists>r. meets op before after r)" if "Changed i op before after \<in> set tr" for i op before after
  proof -
    have "Changed i op before after \<in> set (events_of i tr)" using that by (simp add: events_of_def)
    then obtain j where "Called j op \<in> set (events_of i tr)" "\<exists>r. meets op before after r" using complete_changes [OF co] by blast
    then show ?thesis using a by (auto simp: events_of_def)
  qed
  then show "ref_count_read val = init + of_nat (calls ref_count_inc tr) - of_nat (calls ref_count_dec tr)"
    using replay_counts [OF _ rp] idle_counts [OF co] by (simp add: ref_count_read_def)
qed

text \<open>One processor has incremented a count that another one read before; the other one still has to retry.\<close>

theorem atomic_updates_linearize_witness:
  "\<exists>val cs tr. rmw_reach 3 (val, cs, tr) \<and> cs 0 = Returned ref_count_inc 3 \<and> cs 1 = Swap ref_count_inc 3 4 \<and> replay 3 tr = Some val \<and>
     events_of 0 tr = [Called 0 ref_count_inc, Changed 0 ref_count_inc 3 4] \<and> one_by_one (events_of 0 tr)"
proof -
  let ?op = ref_count_inc
  let ?c = "\<lambda>a b. (\<lambda>_. Idle)(0 :: nat := a, Suc 0 := b)"
  let ?t = "[Called 0 ?op, Called (Suc 0) ?op]"
  note d = ref_count_inc_def atomic_inc_def atomic_cas_val_def
  have "rmw_reach 3 (3, \<lambda>_. Idle, [])" using rmw_reach.start [of 3] by (simp add: ref_count_init_def)
  then have "rmw_reach 3 (3, (\<lambda>_. Idle)(0 := Load ?op), [Called 0 ?op])"
    using rmw_reach.step rmw_sys.call [of "\<lambda>_. Idle" 0 3 "[]" ?op] by auto
  then have "rmw_reach 3 (3, ?c (Load ?op) (Load ?op), ?t)"
    using rmw_reach.step rmw_sys.call [of "(\<lambda>_. Idle)(0 := Load ?op)" "Suc 0" 3 "[Called 0 ?op]" ?op] by auto
  moreover have "rmw_sys (3, ?c (Load ?op) (Load ?op), ?t) (3, (?c (Load ?op) (Load ?op))(Suc 0 := Swap ?op 3 4), ?t)"
    using rmw_sys.access [of "?c (Load ?op) (Load ?op)" "Suc 0" 3 3 "Swap ?op 3 4" ?t] by (simp add: d)
  ultimately have "rmw_reach 3 (3, ?c (Load ?op) (Swap ?op 3 4), ?t)" using rmw_reach.step by fastforce
  moreover have "rmw_sys (3, ?c (Load ?op) (Swap ?op 3 4), ?t) (3, (?c (Load ?op) (Swap ?op 3 4))(0 := Swap ?op 3 4), ?t)"
    using rmw_sys.access [of "?c (Load ?op) (Swap ?op 3 4)" 0 3 3 "Swap ?op 3 4" ?t] by (simp add: d)
  ultimately have "rmw_reach 3 (3, (?c (Load ?op) (Swap ?op 3 4))(0 := Swap ?op 3 4), ?t)" by (rule rmw_reach.step)
  moreover have "rmw_sys (3, (?c (Load ?op) (Swap ?op 3 4))(0 := Swap ?op 3 4), ?t)
      (4, (?c (Load ?op) (Swap ?op 3 4))(0 := Swap ?op 3 4, 0 := Returned ?op 3), ?t @ [Changed 0 ?op 3 4])"
    using rmw_sys.access [of "(?c (Load ?op) (Swap ?op 3 4))(0 := Swap ?op 3 4)" 0 3 4 "Returned ?op 3" ?t] by (simp add: d)
  ultimately have r: "rmw_reach 3 (4, (?c (Load ?op) (Swap ?op 3 4))(0 := Swap ?op 3 4, 0 := Returned ?op 3), ?t @ [Changed 0 ?op 3 4])"
    by (rule rmw_reach.step)
  have "events_of 0 (?t @ [Changed 0 ?op 3 4]) = [Called 0 ?op, Changed 0 ?op 3 4]" by (simp add: events_of_def)
  moreover have "replay 3 (?t @ [Changed 0 ?op 3 4]) = Some 4" "one_by_one (events_of 0 (?t @ [Changed 0 ?op 3 4]))"
    using atomic_updates_linearize [OF r] by blast+
  ultimately show ?thesis using r
    by (intro exI [of _ 4] exI [of _ "(?c (Load ?op) (Swap ?op 3 4))(0 := Swap ?op 3 4, 0 := Returned ?op 3)"] exI [of _ "?t @ [Changed 0 ?op 3 4]"]) simp
qed

end
