(* ===== verification/Rwlock.thy ===== *)
theory Rwlock
  imports Prelude
begin

text \<open>
  Readers-writer locks, \<^verbatim>\<open>kernel/atomic/rwlock.c\<close>, on any number of processors. As for spin locks every
  access to the lock word is one step of a processor and the steps interleave in any order. The lock
  does not exclude a reader and a writer in every interleaving; the theory shows the interleaving in
  which it fails, and that it is the only reason for a failure.
\<close>

section \<open>State\<close>

record rwlock_t =
  rw_write :: bool
  rw_int_enabled :: bool
  rw_reads :: "62 word"

definition rwlock_init :: rwlock_t where
  "rwlock_init = \<lparr>rw_write = False, rw_int_enabled = False, rw_reads = 0\<rparr>"

text \<open>
  The argument \<open>irq\<close> distinguishes the variants that disable interrupts. A reader's saved interrupt state
  is the value \<^verbatim>\<open>rwlock_read_lock_int\<close> returns and its caller hands to \<^verbatim>\<open>rwlock_read_unlock_int\<close>; it is kept
  in the processor's record.
\<close>

datatype rw_pc =
  Rw_outside
| Read_wait bool
| Read_load bool
| Read_cas bool rwlock_t
| Reading bool
| Unread_assert bool
| Unread_load bool
| Unread_cas bool rwlock_t
| Write_wait bool
| Write_cas bool
| Keep_load
| Keep_cas rwlock_t
| Writing bool
| Unwrite_store bool
| Rw_restore

record rw_cpu =
  rw_pc :: rw_pc
  rw_int_on :: bool
  rw_enabled :: bool

definition cas_rwlock :: "rwlock_t \<Rightarrow> rwlock_t \<Rightarrow> rwlock_t \<Rightarrow> rwlock_t \<times> bool" where
  "cas_rwlock lock old_val new_val = (if lock = old_val then (new_val, True) else (lock, False))"

section \<open>Operations\<close>

definition rwlock_read_lock :: "rw_cpu \<Rightarrow> rw_cpu" where
  "rwlock_read_lock c = c\<lparr>rw_pc := Read_wait False\<rparr>"

definition rwlock_read_lock_int :: "rw_cpu \<Rightarrow> rw_cpu" where
  "rwlock_read_lock_int c = c\<lparr>rw_enabled := rw_int_on c, rw_int_on := False, rw_pc := Read_wait True\<rparr>"

definition rwlock_write_lock :: "rw_cpu \<Rightarrow> rw_cpu" where
  "rwlock_write_lock c = c\<lparr>rw_pc := Write_wait False\<rparr>"

definition rwlock_write_lock_int :: "rw_cpu \<Rightarrow> rw_cpu" where
  "rwlock_write_lock_int c = c\<lparr>rw_enabled := rw_int_on c, rw_int_on := False, rw_pc := Write_wait True\<rparr>"

text \<open>One access of a running call; leaving the critical section is the first step of the unlock call.\<close>

definition rw_step :: "rwlock_t \<Rightarrow> rw_cpu \<Rightarrow> (rwlock_t \<times> rw_cpu) res" where
  "rw_step lock c =
     (case rw_pc c of
        Rw_outside \<Rightarrow> Inr (lock, c)
      | Read_wait irq \<Rightarrow> Inr (lock, c\<lparr>rw_pc := if rw_write lock then Read_wait irq else Read_load irq\<rparr>)
      | Read_load irq \<Rightarrow> Inr (lock, c\<lparr>rw_pc := Read_cas irq lock\<rparr>)
      | Read_cas irq old_val \<Rightarrow>
          let (lock, ok) = cas_rwlock lock old_val (old_val\<lparr>rw_write := False, rw_reads := rw_reads old_val + 1\<rparr>)
          in Inr (lock, c\<lparr>rw_pc := if ok then Reading irq else Read_wait irq\<rparr>)
      | Reading irq \<Rightarrow> Inr (lock, c\<lparr>rw_pc := Unread_assert irq\<rparr>)
      | Unread_assert irq \<Rightarrow> assert_that (\<not> rw_write lock) (Inr (lock, c\<lparr>rw_pc := Unread_load irq\<rparr>))
      | Unread_load irq \<Rightarrow> Inr (lock, c\<lparr>rw_pc := Unread_cas irq lock\<rparr>)
      | Unread_cas irq old_val \<Rightarrow>
          let (lock, ok) = cas_rwlock lock old_val (old_val\<lparr>rw_reads := rw_reads old_val - 1\<rparr>)
          in Inr (lock, c\<lparr>rw_pc := if \<not> ok then Unread_assert irq else if irq then Rw_restore else Rw_outside\<rparr>)
      | Write_wait irq \<Rightarrow> Inr (lock, c\<lparr>rw_pc := if rw_reads lock \<noteq> 0 then Write_wait irq else Write_cas irq\<rparr>)
      | Write_cas irq \<Rightarrow>
          let (lock, ok) = cas_rwlock lock rwlock_init (rwlock_init\<lparr>rw_write := True, rw_reads := 0\<rparr>)
          in Inr (lock, c\<lparr>rw_pc := if \<not> ok then Write_wait irq else if irq then Keep_load else Writing False\<rparr>)
      | Keep_load \<Rightarrow> assert_that (rw_reads lock = 0) (assert_that (rw_write lock) (Inr (lock, c\<lparr>rw_pc := Keep_cas lock\<rparr>)))
      | Keep_cas oldlock \<Rightarrow>
          let (lock, success) = cas_rwlock lock oldlock (oldlock\<lparr>rw_int_enabled := rw_enabled c\<rparr>)
          in assert_that success (Inr (lock, c\<lparr>rw_pc := Writing True\<rparr>))
      | Writing irq \<Rightarrow>
          Inr (lock, if irq then c\<lparr>rw_enabled := rw_int_enabled lock, rw_pc := Unwrite_store irq\<rparr> else c\<lparr>rw_pc := Unwrite_store irq\<rparr>)
      | Unwrite_store irq \<Rightarrow> Inr (rwlock_init, c\<lparr>rw_pc := if irq then Rw_restore else Rw_outside\<rparr>)
      | Rw_restore \<Rightarrow> Inr (lock, c\<lparr>rw_int_on := rw_enabled c, rw_pc := Rw_outside\<rparr>))"

section \<open>Interleaving\<close>

type_synonym rw_sys = "rwlock_t \<times> (nat \<Rightarrow> rw_cpu)"

inductive rw_sys :: "nat \<Rightarrow> rw_sys \<Rightarrow> rw_sys \<Rightarrow> bool" for num_cpus where
  call: "i < num_cpus \<Longrightarrow> rw_pc (cs i) = Rw_outside \<Longrightarrow>
    op \<in> {rwlock_read_lock, rwlock_read_lock_int, rwlock_write_lock, rwlock_write_lock_int} \<Longrightarrow>
    rw_sys num_cpus (lock, cs) (lock, cs(i := op (cs i)))"
| access: "i < num_cpus \<Longrightarrow> rw_pc (cs i) \<noteq> Rw_outside \<Longrightarrow> rw_step lock (cs i) = Inr (lock', c') \<Longrightarrow>
    rw_sys num_cpus (lock, cs) (lock', cs(i := c'))"

text \<open>
  The race: a reader that has seen the lock free of writers loads the lock word after a writer has taken it.
\<close>

definition read_race :: "rw_sys \<Rightarrow> bool" where
  "read_race s \<longleftrightarrow> (\<exists>i irq old_val. rw_pc (snd s i) = Read_cas irq old_val \<and> rw_write old_val)"

inductive rw_reach :: "nat \<Rightarrow> rw_sys \<Rightarrow> bool" for num_cpus where
  start: "(\<And>i. rw_pc (cs i) = Rw_outside) \<Longrightarrow> rw_reach num_cpus (rwlock_init, cs)"
| step: "rw_reach num_cpus s \<Longrightarrow> rw_sys num_cpus s s' \<Longrightarrow> rw_reach num_cpus s'"

inductive rw_reach_race_free :: "nat \<Rightarrow> rw_sys \<Rightarrow> bool" for num_cpus where
  start: "(\<And>i. rw_pc (cs i) = Rw_outside) \<Longrightarrow> rw_reach_race_free num_cpus (rwlock_init, cs)"
| step: "rw_reach_race_free num_cpus s \<Longrightarrow> rw_sys num_cpus s s' \<Longrightarrow> \<not> read_race s' \<Longrightarrow> rw_reach_race_free num_cpus s'"

section \<open>Exclusion without the race\<close>

definition holds_read :: "rw_pc \<Rightarrow> bool" where
  "holds_read p \<longleftrightarrow> (case p of Reading _ \<Rightarrow> True | Unread_assert _ \<Rightarrow> True | Unread_load _ \<Rightarrow> True | Unread_cas _ _ \<Rightarrow> True | _ \<Rightarrow> False)"

definition holds_write :: "rw_pc \<Rightarrow> bool" where
  "holds_write p \<longleftrightarrow> (case p of Keep_load \<Rightarrow> True | Keep_cas _ \<Rightarrow> True | Writing _ \<Rightarrow> True | Unwrite_store _ \<Rightarrow> True | _ \<Rightarrow> False)"

definition readers :: "(nat \<Rightarrow> rw_cpu) \<Rightarrow> nat set" where
  "readers cs = {i. holds_read (rw_pc (cs i))}"

definition writers :: "(nat \<Rightarrow> rw_cpu) \<Rightarrow> nat set" where
  "writers cs = {i. holds_write (rw_pc (cs i))}"

definition rw_inv :: "nat \<Rightarrow> rw_sys \<Rightarrow> bool" where
  "rw_inv num_cpus s \<longleftrightarrow> (case s of (lock, cs) \<Rightarrow>
     readers cs \<subseteq> {..<num_cpus} \<and> writers cs \<subseteq> {..<num_cpus} \<and> rw_reads lock = of_nat (card (readers cs)) \<and>
     (if rw_write lock then readers cs = {} \<and> (\<exists>w. writers cs = {w}) else writers cs = {}) \<and>
     (\<forall>i oldlock. rw_pc (cs i) = Keep_cas oldlock \<longrightarrow> oldlock = lock))"

lemma holds_simps [simp]:
  "\<not> (holds_read p \<and> holds_write p)"
  by (cases p) (simp_all add: holds_read_def holds_write_def)

lemma readers_upd: "readers (cs(i := c)) = (if holds_read (rw_pc c) then insert i (readers cs) else readers cs - {i})"
  by (auto simp: readers_def)

lemma writers_upd: "writers (cs(i := c)) = (if holds_write (rw_pc c) then insert i (writers cs) else writers cs - {i})"
  by (auto simp: writers_def)

text \<open>What one step changes, by the kind of step.\<close>

lemma rw_step_cases:
  assumes "rw_step lock c = Inr (lock', c')" "rw_pc c \<noteq> Rw_outside"
  obtains
    (quiet) "lock' = lock" "holds_read (rw_pc c') = holds_read (rw_pc c)" "holds_write (rw_pc c') = holds_write (rw_pc c)"
      "\<forall>oldlock. rw_pc c' = Keep_cas oldlock \<longrightarrow> oldlock = lock"
  | (read) irq where "rw_pc c = Read_cas irq lock" "lock' = lock\<lparr>rw_write := False, rw_reads := rw_reads lock + 1\<rparr>"
      "rw_pc c' = Reading irq"
  | (unread) irq where "rw_pc c = Unread_cas irq lock" "lock' = lock\<lparr>rw_reads := rw_reads lock - 1\<rparr>"
      "\<not> holds_read (rw_pc c')" "\<not> holds_write (rw_pc c')"
  | (entered) irq where "rw_pc c = Write_cas irq" "lock = rwlock_init" "lock' = rwlock_init\<lparr>rw_write := True\<rparr>"
      "holds_write (rw_pc c')" "\<not> holds_read (rw_pc c')" "\<forall>oldlock. rw_pc c' \<noteq> Keep_cas oldlock"
  | (keep) "rw_pc c = Keep_cas lock" "lock' = lock\<lparr>rw_int_enabled := rw_enabled c\<rparr>" "rw_pc c' = Writing True"
  | (unwrite) irq where "rw_pc c = Unwrite_store irq" "lock' = rwlock_init" "\<not> holds_read (rw_pc c')" "\<not> holds_write (rw_pc c')"
proof (cases "rw_pc c")
  case (Read_cas irq old_val)
  note d = rw_step_def cas_rwlock_def holds_read_def holds_write_def
  show thesis
  proof (cases "lock = old_val")
    case True
    then show thesis using read [of irq] Read_cas assms by (auto simp: d)
  qed (rule quiet; use Read_cas assms in \<open>auto simp: d\<close>)
next
  case (Unread_cas irq old_val)
  note d = rw_step_def cas_rwlock_def holds_read_def holds_write_def
  show thesis
  proof (cases "lock = old_val")
    case True
    then show thesis using unread [of irq] Unread_cas assms by (auto simp: d)
  qed (rule quiet; use Unread_cas assms in \<open>auto simp: d\<close>)
next
  case (Write_cas irq)
  note d = rw_step_def cas_rwlock_def holds_read_def holds_write_def
  show thesis
  proof (cases "lock = rwlock_init")
    case True
    then show thesis using Write_cas assms by (intro entered [of irq]) (auto simp: d rwlock_init_def split: if_splits)
  qed (rule quiet; use Write_cas assms in \<open>auto simp: d\<close>)
next
  case (Keep_cas oldlock)
  then show thesis using assms keep by (cases "lock = oldlock") (auto simp: rw_step_def cas_rwlock_def)
next
  case (Unwrite_store irq)
  then show thesis using assms unwrite [of irq] by (auto simp: rw_step_def holds_read_def holds_write_def)
qed (rule quiet; use assms in \<open>auto simp: rw_step_def holds_read_def holds_write_def assert_that_def split: if_splits\<close>)+

lemma rw_step_no_fault:
  assumes "rw_inv n (lock, cs)" shows "\<exists>r. rw_step lock (cs i) = Inr r"
proof -
  have R: "rw_write lock \<Longrightarrow> i \<notin> readers cs" and W: "i \<in> writers cs \<Longrightarrow> rw_write lock \<and> rw_reads lock = 0"
    and K: "\<forall>oldlock. rw_pc (cs i) = Keep_cas oldlock \<longrightarrow> oldlock = lock"
    using assms by (auto simp: rw_inv_def split: if_splits)
  show ?thesis
  proof (cases "rw_pc (cs i)")
    case (Unread_assert irq)
    then have "i \<in> readers cs" by (simp add: readers_def holds_read_def)
    then have "\<not> rw_write lock" using R by blast
    then show ?thesis using Unread_assert by (simp add: rw_step_def)
  next
    case Keep_load
    then have "i \<in> writers cs" by (simp add: writers_def holds_write_def)
    then show ?thesis using W Keep_load by (simp add: rw_step_def)
  next
    case (Keep_cas oldlock)
    then show ?thesis using K by (simp add: rw_step_def cas_rwlock_def)
  qed (auto simp: rw_step_def cas_rwlock_def Let_def split: prod.split)
qed

lemma card_readers_small: "readers cs \<subseteq> {..<n} \<Longrightarrow> n < 2 ^ 62 \<Longrightarrow> card (readers cs) < 2 ^ 62 \<and> finite (readers cs)"
  using card_mono [of "{..<n}" "readers cs"] finite_subset [of "readers cs" "{..<n}"] by auto

lemma of_nat_62_eq_0: "k < 2 ^ 62 \<Longrightarrow> (of_nat k :: 62 word) = 0 \<longleftrightarrow> k = 0"
  unfolding word_of_nat_eq_0_iff by (auto dest: dvd_imp_le)

lemma rw_inv_step:
  assumes inv: "rw_inv n s" and st: "rw_sys n s s'" and n: "n < 2 ^ 62" and free: "\<not> read_race s"
  shows "rw_inv n s'"
  using st
proof cases
  case (call i cs op lock)
  have "\<not> holds_read (rw_pc (op (cs i)))" "\<not> holds_write (rw_pc (op (cs i)))" "\<not> holds_read (rw_pc (cs i))" "\<not> holds_write (rw_pc (cs i))"
      "\<forall>oldlock. rw_pc (op (cs i)) \<noteq> Keep_cas oldlock"
    using call(4,5) by (auto simp: holds_read_def holds_write_def rwlock_read_lock_def rwlock_read_lock_int_def
        rwlock_write_lock_def rwlock_write_lock_int_def)
  moreover from this have "i \<notin> readers cs" "i \<notin> writers cs" by (simp_all add: readers_def writers_def)
  ultimately show ?thesis using inv call(1,2) by (simp add: rw_inv_def readers_upd writers_upd)
next
  case (access i cs lock lock' c')
  have I: "readers cs \<subseteq> {..<n}" "writers cs \<subseteq> {..<n}" "rw_reads lock = of_nat (card (readers cs))"
      "if rw_write lock then readers cs = {} \<and> (\<exists>w. writers cs = {w}) else writers cs = {}"
      "\<forall>i oldlock. rw_pc (cs i) = Keep_cas oldlock \<longrightarrow> oldlock = lock"
    using inv access(1) by (simp_all add: rw_inv_def)
  have fin: "card (readers cs) < 2 ^ 62" "finite (readers cs)" using card_readers_small [OF I(1) n] by auto
  have ir: "i \<in> readers cs \<longleftrightarrow> holds_read (rw_pc (cs i))" and iw: "i \<in> writers cs \<longleftrightarrow> holds_write (rw_pc (cs i))"
    by (simp_all add: readers_def writers_def)
  have K: "\<forall>j oldlock. rw_pc ((cs(i := c')) j) = Keep_cas oldlock \<longrightarrow> oldlock = lock'"
    if w: "writers cs \<subseteq> {i}" and k: "\<forall>oldlock. rw_pc c' \<noteq> Keep_cas oldlock"
  proof (intro allI impI)
    fix j oldlock assume a: "rw_pc ((cs(i := c')) j) = Keep_cas oldlock"
    then have "j \<noteq> i" using k by auto
    then have "j \<in> writers cs" using a by (simp add: writers_def holds_write_def)
    then show "oldlock = lock'" using w \<open>j \<noteq> i\<close> by blast
  qed
  have R: "?thesis" if "readers (cs(i := c')) \<subseteq> {..<n}" "writers (cs(i := c')) \<subseteq> {..<n}"
      "rw_reads lock' = of_nat (card (readers (cs(i := c'))))"
      "if rw_write lock' then readers (cs(i := c')) = {} \<and> (\<exists>w. writers (cs(i := c')) = {w}) else writers (cs(i := c')) = {}"
      "writers cs \<subseteq> {i}" "\<forall>oldlock. rw_pc c' \<noteq> Keep_cas oldlock"
    unfolding access(2) rw_inv_def prod.case using that K by blast
  from access(5,4) show ?thesis
  proof (cases rule: rw_step_cases)
    case quiet
    then have "readers (cs(i := c')) = readers cs" "writers (cs(i := c')) = writers cs"
      using ir iw by (auto simp: readers_upd writers_upd)
    then show ?thesis using I quiet access(2) by (simp add: rw_inv_def)
  next
    case (read irq)
    then have nw: "\<not> rw_write lock" using free access(1) unfolding read_race_def by auto
    then have w: "writers cs = {}" using I(4) by simp
    have i: "i \<notin> readers cs" using ir read(1) by (simp add: holds_read_def)
    have "readers (cs(i := c')) = insert i (readers cs)" "writers (cs(i := c')) = {}"
      using read(3) w by (simp_all add: readers_upd writers_upd holds_read_def holds_write_def)
    then show ?thesis using I(1,3) read(2,3) i fin access(3) w by (intro R) (simp_all add: add.commute)
  next
    case (unread irq)
    have i: "i \<in> readers cs" using ir unread(1) by (simp add: holds_read_def)
    then have w: "writers cs = {}" "\<not> rw_write lock" using I(4) by (auto split: if_splits)
    have c: "card (readers cs) = Suc (card (readers cs - {i}))" using card.remove [OF fin(2) i] .
    have k: "\<forall>oldlock. rw_pc c' \<noteq> Keep_cas oldlock" using unread(4) by (auto simp: holds_write_def)
    have "readers (cs(i := c')) = readers cs - {i}" "writers (cs(i := c')) = {}"
      using unread(3,4) w(1) by (simp_all add: readers_upd writers_upd)
    then show ?thesis using I(1,3) unread(2) w c k by (intro R) auto
  next
    case (entered irq)
    then have w: "card (readers cs) = 0" "writers cs = {}" using I(3,4) of_nat_62_eq_0 [OF fin(1)] by (auto simp: rwlock_init_def)
    then have "readers (cs(i := c')) = {}" "writers (cs(i := c')) = {i}"
      using entered(4,5) fin(2) by (simp_all add: readers_upd writers_upd)
    then show ?thesis using entered(3,6) access(3) w(2) by (intro R) (simp_all add: rwlock_init_def)
  next
    case keep
    have i: "i \<in> writers cs" using iw keep(1) by (simp add: holds_write_def)
    then have w: "writers cs = {i}" "rw_write lock" "readers cs = {}" using I(4) by (auto split: if_splits)
    then have "readers (cs(i := c')) = {}" "writers (cs(i := c')) = {i}"
      using keep(3) by (simp_all add: readers_upd writers_upd holds_read_def holds_write_def)
    then show ?thesis using I(3) keep(2,3) w access(3) by (intro R) simp_all
  next
    case (unwrite irq)
    have i: "i \<in> writers cs" using iw unwrite(1) by (simp add: holds_write_def)
    then have w: "writers cs = {i}" "readers cs = {}" using I(4) by (auto split: if_splits)
    have k: "\<forall>oldlock. rw_pc c' \<noteq> Keep_cas oldlock" using unwrite(4) by (auto simp: holds_write_def)
    have "readers (cs(i := c')) = {}" "writers (cs(i := c')) = {}"
      using unwrite(3,4) w by (simp_all add: readers_upd writers_upd)
    then show ?thesis using unwrite(2) w k by (intro R) (simp_all add: rwlock_init_def)
  qed
qed

lemma rw_reach_race_free_inv:
  assumes "n < 2 ^ 62" "rw_reach_race_free n s" shows "rw_inv n s \<and> \<not> read_race s"
  using assms(2)
proof (induction rule: rw_reach_race_free.induct)
  case (start cs)
  then have "readers cs = {}" "writers cs = {}" by (simp_all add: readers_def writers_def holds_read_def holds_write_def)
  then show ?case using start by (simp add: rw_inv_def rwlock_init_def read_race_def)
next
  case (step s s')
  then show ?case using rw_inv_step assms(1) by blast
qed

section \<open>The race\<close>

text \<open>
  Processor 0 reads, processor 1 writes. The reader sees the lock free of writers, the writer takes
  it, and the reader then loads the lock word and swaps it, clearing the writer's bit.
\<close>

definition demo_rw_cpu :: rw_cpu where
  "demo_rw_cpu = \<lparr>rw_pc = Rw_outside, rw_int_on = True, rw_enabled = False\<rparr>"

definition two_cpus :: "rw_pc \<Rightarrow> rw_pc \<Rightarrow> nat \<Rightarrow> rw_cpu" where
  "two_cpus p q = (\<lambda>_. demo_rw_cpu)(0 := demo_rw_cpu\<lparr>rw_pc := p\<rparr>, 1 := demo_rw_cpu\<lparr>rw_pc := q\<rparr>)"

lemma two_cpus_simps [simp]:
  "two_cpus p q 0 = demo_rw_cpu\<lparr>rw_pc := p\<rparr>" "two_cpus p q (Suc 0) = demo_rw_cpu\<lparr>rw_pc := q\<rparr>"
  "(two_cpus p q)(0 := demo_rw_cpu\<lparr>rw_pc := p'\<rparr>) = two_cpus p' q"
  "(two_cpus p q)(Suc 0 := demo_rw_cpu\<lparr>rw_pc := q'\<rparr>) = two_cpus p q'"
  by (auto simp: two_cpus_def fun_eq_iff)

lemma two_cpus_start: "rw_reach 2 (rwlock_init, two_cpus Rw_outside Rw_outside)" "rw_reach_race_free 2 (rwlock_init, two_cpus Rw_outside Rw_outside)"
  by (rule rw_reach.start rw_reach_race_free.start, simp add: two_cpus_def demo_rw_cpu_def)+

lemma reader_steps:
  assumes "rw_step lock (demo_rw_cpu\<lparr>rw_pc := p\<rparr>) = Inr (lock', demo_rw_cpu\<lparr>rw_pc := p'\<rparr>)" "p \<noteq> Rw_outside"
  shows "rw_sys 2 (lock, two_cpus p q) (lock', two_cpus p' q)"
  using rw_sys.access [of 0 2 "two_cpus p q" lock lock' "demo_rw_cpu\<lparr>rw_pc := p'\<rparr>"] assms by simp

lemma writer_steps:
  assumes "rw_step lock (demo_rw_cpu\<lparr>rw_pc := q\<rparr>) = Inr (lock', demo_rw_cpu\<lparr>rw_pc := q'\<rparr>)" "q \<noteq> Rw_outside"
  shows "rw_sys 2 (lock, two_cpus p q) (lock', two_cpus p q')"
  using rw_sys.access [of 1 2 "two_cpus p q" lock lock' "demo_rw_cpu\<lparr>rw_pc := q'\<rparr>"] assms by simp

lemma demo_calls:
  "rw_sys 2 (lock, two_cpus Rw_outside q) (lock, two_cpus (Read_wait False) q)"
  "rw_sys 2 (lock, two_cpus p Rw_outside) (lock, two_cpus p (Write_wait False))"
  using rw_sys.call [of 0 2 "two_cpus Rw_outside q" rwlock_read_lock lock] rw_sys.call [of 1 2 "two_cpus p Rw_outside" rwlock_write_lock lock]
  by (simp_all add: rwlock_read_lock_def rwlock_write_lock_def)

lemma race_reachable:
  "rw_reach 2 (rwlock_init\<lparr>rw_reads := 1\<rparr>, two_cpus (Reading False) (Writing False))"
proof -
  let ?w = "rwlock_init\<lparr>rw_write := True\<rparr>"
  note d = rw_step_def cas_rwlock_def rwlock_init_def demo_rw_cpu_def
  have "rw_reach 2 (rwlock_init, two_cpus (Read_wait False) (Write_wait False))"
    using rw_reach.step [OF rw_reach.step [OF two_cpus_start(1) demo_calls(1)] demo_calls(2)] .
  then have "rw_reach 2 (rwlock_init, two_cpus (Read_load False) (Write_wait False))"
    by (rule rw_reach.step) (rule reader_steps; simp add: d)
  then have "rw_reach 2 (rwlock_init, two_cpus (Read_load False) (Write_cas False))"
    by (rule rw_reach.step) (rule writer_steps; simp add: d)
  then have "rw_reach 2 (?w, two_cpus (Read_load False) (Writing False))"
    by (rule rw_reach.step) (rule writer_steps; simp add: d)
  then have "rw_reach 2 (?w, two_cpus (Read_cas False ?w) (Writing False))"
    by (rule rw_reach.step) (rule reader_steps; simp add: d)
  then show ?thesis by (rule rw_reach.step) (rule reader_steps; simp add: d)
qed

section \<open>Properties\<close>

text \<open>
  C17: A readers-writer lock excludes readers from writers and writers from each other, counts its
  readers and fails none of its assertions, in every execution in which no reader loads the lock word
  between a writer's lock and unlock. Without that restriction it does not: two processors suffice to
  reach a state in which one reads and the other one writes.
\<close>

theorem rwlock_exclusion:
  assumes "num_cpus < 2 ^ 62" "rw_reach_race_free num_cpus (lock, cs)"
  shows "(writers cs = {} \<or> readers cs = {} \<and> (\<exists>w. writers cs = {w})) \<and> unat (rw_reads lock) = card (readers cs) \<and>
    (rw_write lock \<longleftrightarrow> writers cs \<noteq> {}) \<and> (\<forall>i. \<exists>r. rw_step lock (cs i) = Inr r) \<and>
    (\<exists>lock2 cs2. rw_reach 2 (lock2, cs2) \<and> rw_pc (cs2 0) = Reading False \<and> rw_pc (cs2 1) = Writing False)"
proof -
  have inv: "rw_inv num_cpus (lock, cs)" using rw_reach_race_free_inv [OF assms] by blast
  then have I: "readers cs \<subseteq> {..<num_cpus}" "rw_reads lock = of_nat (card (readers cs))"
      "if rw_write lock then readers cs = {} \<and> (\<exists>w. writers cs = {w}) else writers cs = {}"
    by (simp_all add: rw_inv_def)
  have "unat (rw_reads lock) = card (readers cs)"
    using card_readers_small [OF I(1) assms(1)] I(2) by (simp add: unat_of_nat)
  moreover have "\<exists>lock2 cs2. rw_reach 2 (lock2, cs2) \<and> rw_pc (cs2 0) = Reading False \<and> rw_pc (cs2 1) = Writing False"
    using race_reachable by (intro exI [of _ "rwlock_init\<lparr>rw_reads := 1\<rparr>"] exI [of _ "two_cpus (Reading False) (Writing False)"]) simp
  moreover have "(writers cs = {} \<or> readers cs = {} \<and> (\<exists>w. writers cs = {w})) \<and> (rw_write lock \<longleftrightarrow> writers cs \<noteq> {})"
    using I(3) by (auto split: if_splits)
  ultimately show ?thesis using rw_step_no_fault [OF inv] by blast
qed

theorem rwlock_exclusion_witness: "\<not> rw_write rwlock_init \<and> writers (two_cpus (Read_wait False) Rw_outside) = {}"
proof -
  have "\<not> read_race (rwlock_init, two_cpus (Read_wait False) Rw_outside)"
    by (auto simp: read_race_def two_cpus_def demo_rw_cpu_def split: if_splits)
  then have "rw_reach_race_free 2 (rwlock_init, two_cpus (Read_wait False) Rw_outside)"
    using rw_reach_race_free.step [OF two_cpus_start(2) demo_calls(1)] by blast
  then have "rw_write rwlock_init \<longleftrightarrow> writers (two_cpus (Read_wait False) Rw_outside) \<noteq> {}"
    using rwlock_exclusion [of 2 rwlock_init "two_cpus (Read_wait False) Rw_outside"] by simp
  then show ?thesis by (simp add: rwlock_init_def)
qed

end
