(* ===== verification/Salloc.thy ===== *)
theory Salloc
  imports Palloc_Client Kmath
begin

text \<open>
  The structure allocator, \<^verbatim>\<open>kernel/mem/salloc.c\<close>: objects of one size are cut out of buckets, runs of
  pages that the page frame allocator hands out. A bucket starts with its header and keeps its free
  blocks in a list through the blocks' own headers; the buckets that have free blocks and allocated
  ones form a doubly linked list of their object type.

  Headers are found at their addresses: an address with no header points to no object, and using it is
  undefined. The casts between physical addresses and kernel pointers belong to the hardware
  abstraction layer and are parameters, as for the page frame allocator. Calls of constructors and
  destructors, which only touch the bytes of the object, are recorded in a trace.
\<close>

section \<open>State\<close>

record salloc_magic_block =
  mb_bucket :: ulong
  mb_next :: ulong

datatype salloc_bucket_state = bucket_empty | bucket_partial | bucket_full

record salloc_bucket =
  sb_prev :: ulong
  sb_next :: ulong
  sb_state :: salloc_bucket_state
  sb_obj :: ulong
  sb_entry_count :: int
  sb_avail_count :: int
  sb_block :: ulong

text \<open>\<^verbatim>\<open>sizeof\<close> the two headers.\<close>

abbreviation magic_block_size :: ulong where "magic_block_size \<equiv> 16"
abbreviation bucket_size :: ulong where "bucket_size \<equiv> 48"

datatype salloc_callback_t = salloc_default_ctor | Callback ulong

record salloc_obj_t =
  so_next :: ulong
  so_name :: string
  so_struct_size :: ulong
  so_block_size :: ulong
  so_alignment :: ulong
  so_block_start_offset :: ulong
  so_constructor :: "salloc_callback_t option"
  so_destructor :: "salloc_callback_t option"
  so_bucket_page_count :: int
  so_bucket_block_count :: int
  so_partial_next :: ulong
  so_partial_count :: ulong
  so_locked :: bool
  so_num_palloc_pages :: ulong
  so_num_active_objs :: ulong

record salloc_state =
  sa_pages :: palloc_state
  sa_objs :: "ulong \<rightharpoonup> salloc_obj_t"
  sa_buckets :: "ulong \<rightharpoonup> salloc_bucket"
  sa_blocks :: "ulong \<rightharpoonup> salloc_magic_block"
  sa_calls :: "(salloc_callback_t \<times> ulong \<times> ulong) list"
  num_salloc_objs :: ulong
  all_salloc_objs :: ulong

definition load_obj :: "salloc_state \<Rightarrow> ulong \<Rightarrow> salloc_obj_t res" where
  "load_obj s obj = (case sa_objs s obj of None \<Rightarrow> Inl Undefined | Some ob \<Rightarrow> Inr ob)"

definition load_bucket :: "salloc_state \<Rightarrow> ulong \<Rightarrow> salloc_bucket res" where
  "load_bucket s bucket = (case sa_buckets s bucket of None \<Rightarrow> Inl Undefined | Some bk \<Rightarrow> Inr bk)"

definition load_block :: "salloc_state \<Rightarrow> ulong \<Rightarrow> salloc_magic_block res" where
  "load_block s blk = (case sa_blocks s blk of None \<Rightarrow> Inl Undefined | Some mb \<Rightarrow> Inr mb)"

definition upd_obj :: "ulong \<Rightarrow> (salloc_obj_t \<Rightarrow> salloc_obj_t) \<Rightarrow> salloc_state \<Rightarrow> salloc_state" where
  "upd_obj obj f s = s\<lparr>sa_objs := (sa_objs s)(obj := map_option f (sa_objs s obj))\<rparr>"

definition upd_bucket :: "ulong \<Rightarrow> (salloc_bucket \<Rightarrow> salloc_bucket) \<Rightarrow> salloc_state \<Rightarrow> salloc_state" where
  "upd_bucket bucket f s = s\<lparr>sa_buckets := (sa_buckets s)(bucket := map_option f (sa_buckets s bucket))\<rparr>"

definition set_block :: "ulong \<Rightarrow> salloc_magic_block \<Rightarrow> salloc_state \<Rightarrow> salloc_state" where
  "set_block blk mb s = s\<lparr>sa_blocks := (sa_blocks s)(blk \<mapsto> mb)\<rparr>"

section \<open>Buckets\<close>

text \<open>The loop that initialises the blocks of a new bucket, run for the first \<open>n\<close> of them.\<close>

primrec init_blocks :: "nat \<Rightarrow> salloc_obj_t \<Rightarrow> ulong \<Rightarrow> salloc_state \<Rightarrow> salloc_state res" where
  "init_blocks 0 ob bucket s = Inr s"
| "init_blocks (Suc i) ob bucket s =
     ebind (init_blocks i ob bucket s) (\<lambda>s.
     let blk = bucket + so_block_start_offset ob + of_nat i * so_block_size ob in
     ebind (load_bucket s bucket) (\<lambda>bk.
     let s = set_block blk \<lparr>mb_bucket = bucket, mb_next = sb_block bk\<rparr> s
     in Inr (upd_bucket bucket (\<lambda>bk. bk\<lparr>sb_block := blk\<rparr>) s)))"

definition alloc_bucket :: "(u64 \<Rightarrow> ulong) \<Rightarrow> ulong \<Rightarrow> salloc_state \<Rightarrow> (salloc_state \<times> ulong) res" where
  "alloc_bucket to_ptr obj s =
     ebind (load_obj s obj) (\<lambda>ob.
     ebind (palloc_ptr to_ptr (so_bucket_page_count ob) (sa_pages s)) (\<lambda>(pages, bucket).
     let s = s\<lparr>sa_pages := pages\<rparr> in
     if bucket = 0 then Inr (s, 0)
     else
       let s = upd_obj obj (\<lambda>ob. ob\<lparr>so_num_palloc_pages := so_num_palloc_pages ob + of_int (so_bucket_page_count ob)\<rparr>) s;
           s = s\<lparr>sa_buckets := (sa_buckets s)(bucket \<mapsto>
                 \<lparr>sb_prev = 0, sb_next = 0, sb_state = bucket_empty, sb_obj = obj,
                  sb_entry_count = so_bucket_block_count ob, sb_avail_count = so_bucket_block_count ob, sb_block = 0\<rparr>)\<rparr>
       in ebind (init_blocks (nat (so_bucket_block_count ob)) ob bucket s) (\<lambda>s. Inr (s, bucket))))"

definition free_bucket :: "(ulong \<Rightarrow> u64) \<Rightarrow> ulong \<Rightarrow> ulong \<Rightarrow> salloc_state \<Rightarrow> salloc_state res" where
  "free_bucket to_paddr obj bucket s =
     ebind (pfree_ptr to_paddr bucket (sa_pages s)) (\<lambda>(pages, _).
     let s = s\<lparr>sa_pages := pages, sa_buckets := (sa_buckets s)(bucket := None)\<rparr>
     in Inr (upd_obj obj (\<lambda>ob. ob\<lparr>so_num_palloc_pages := so_num_palloc_pages ob - of_int (so_bucket_page_count ob)\<rparr>) s))"

definition insert_bucket :: "ulong \<Rightarrow> ulong \<Rightarrow> salloc_state \<Rightarrow> salloc_state res" where
  "insert_bucket obj bucket s =
     ebind (load_obj s obj) (\<lambda>ob.
     ebind (load_bucket s bucket) (\<lambda>_.
     let first = so_partial_next ob;
         s = upd_bucket bucket (\<lambda>bk. bk\<lparr>sb_next := first, sb_prev := 0\<rparr>) s in
     ebind (if first \<noteq> 0 then ebind (load_bucket s first) (\<lambda>_. Inr (upd_bucket first (\<lambda>bk. bk\<lparr>sb_prev := bucket\<rparr>) s))
            else Inr s) (\<lambda>s.
     Inr (upd_obj obj (\<lambda>ob. ob\<lparr>so_partial_next := bucket, so_partial_count := so_partial_count ob + 1\<rparr>) s))))"

definition remove_bucket :: "ulong \<Rightarrow> ulong \<Rightarrow> salloc_state \<Rightarrow> salloc_state res" where
  "remove_bucket obj bucket s =
     (let s = upd_obj obj (\<lambda>ob. ob\<lparr>so_partial_count := so_partial_count ob - 1\<rparr>) s in
     ebind (load_bucket s bucket) (\<lambda>bk.
     ebind (if sb_prev bk \<noteq> 0
            then ebind (load_bucket s (sb_prev bk)) (\<lambda>_. Inr (upd_bucket (sb_prev bk) (\<lambda>p. p\<lparr>sb_next := sb_next bk\<rparr>) s))
            else Inr (upd_obj obj (\<lambda>ob. ob\<lparr>so_partial_next := sb_next bk\<rparr>) s)) (\<lambda>s.
     if sb_next bk \<noteq> 0
     then ebind (load_bucket s (sb_next bk)) (\<lambda>_. Inr (upd_bucket (sb_next bk) (\<lambda>n. n\<lparr>sb_prev := sb_prev bk\<rparr>) s))
     else Inr s)))"

section \<open>Object types\<close>

definition align_up_ulong_any :: "ulong \<Rightarrow> ulong \<Rightarrow> ulong res" where
  "align_up_ulong_any val align =
     panic_if (align = 0) (ebind (div_ulong val align) (\<lambda>(q, r). if r \<noteq> 0 then mul_ulong (q + 1) align else Inr val))"

definition salloc_create ::
  "ulong \<Rightarrow> string \<Rightarrow> ulong \<Rightarrow> ulong \<Rightarrow> int \<Rightarrow> salloc_callback_t option \<Rightarrow> salloc_callback_t option \<Rightarrow> salloc_state \<Rightarrow> salloc_state res" where
  "salloc_create obj name len align count ctor dtor s =
     (let nxt = all_salloc_objs s;
          s = s\<lparr>all_salloc_objs := obj, num_salloc_objs := num_salloc_objs s + 1\<rparr>;
          align = (if align = 0 then 8 else align)
      in ebind (align_up_ulong_any (len + magic_block_size) align) (\<lambda>block_size.
         ebind (align_up_ulong_any (bucket_size + magic_block_size) align) (\<lambda>start_offset.
         let start_offset = start_offset - magic_block_size;
             count = (if count = 0 then 32 else count);
             total_size = start_offset + block_size * of_int count;
             page_count = total_size div 4096;
             page_count = (if total_size mod 4096 \<noteq> 0 then page_count + 1 else page_count)
         in ebind (calc_palloc_order (sint (ucast page_count :: u32))) (\<lambda>k.
            let page_count = (2 ^ k :: ulong) in
            ebind (quo_ulong (page_count * 4096 - start_offset) block_size) (\<lambda>block_count.
            Inr (s\<lparr>sa_objs := (sa_objs s)(obj \<mapsto>
              \<lparr>so_next = nxt, so_name = name, so_struct_size = len, so_block_size = block_size, so_alignment = align,
               so_block_start_offset = start_offset, so_constructor = ctor, so_destructor = dtor,
               so_bucket_page_count = sint (ucast page_count :: u32), so_bucket_block_count = sint (ucast block_count :: u32),
               so_partial_next = 0, so_partial_count = 0, so_locked = False, so_num_palloc_pages = 0, so_num_active_objs = 0\<rparr>)\<rparr>))))))"

definition salloc_create_default :: "ulong \<Rightarrow> string \<Rightarrow> ulong \<Rightarrow> salloc_state \<Rightarrow> salloc_state res" where
  "salloc_create_default obj name len s = salloc_create obj name len 0 0 (Some salloc_default_ctor) None s"

section \<open>Allocation and release\<close>

definition lock_obj :: "ulong \<Rightarrow> salloc_state \<Rightarrow> salloc_state res" where
  "lock_obj obj s =
     ebind (load_obj s obj) (\<lambda>ob. if so_locked ob then Inl Deadlock else Inr (upd_obj obj (\<lambda>ob. ob\<lparr>so_locked := True\<rparr>) s))"

definition unlock_obj :: "ulong \<Rightarrow> salloc_state \<Rightarrow> salloc_state" where
  "unlock_obj obj = upd_obj obj (\<lambda>ob. ob\<lparr>so_locked := False\<rparr>)"

definition call_back :: "salloc_callback_t option \<Rightarrow> ulong \<Rightarrow> ulong \<Rightarrow> salloc_state \<Rightarrow> salloc_state" where
  "call_back f ptr len s = (case f of None \<Rightarrow> s | Some f \<Rightarrow> s\<lparr>sa_calls := sa_calls s @ [(f, ptr, len)]\<rparr>)"

definition salloc :: "(u64 \<Rightarrow> ulong) \<Rightarrow> ulong \<Rightarrow> salloc_state \<Rightarrow> (salloc_state \<times> ulong) res" where
  "salloc to_ptr obj s =
     ebind (lock_obj obj s) (\<lambda>s.
     ebind (load_obj s obj) (\<lambda>ob.
     ebind (if so_partial_count ob = 0 then alloc_bucket to_ptr obj s else Inr (s, so_partial_next ob)) (\<lambda>(s, bucket).
     if bucket = 0 then Inr (unlock_obj obj s, 0)
     else
       ebind (load_bucket s bucket) (\<lambda>bk.
       let blk = sb_block bk in
       ebind (load_block s blk) (\<lambda>mb.
       let s = upd_bucket bucket (\<lambda>bk. bk\<lparr>sb_block := mb_next mb, sb_avail_count := sb_avail_count bk - 1\<rparr>) s;
           s = set_block blk \<lparr>mb_bucket = bucket, mb_next = 0\<rparr> s in
       ebind (load_bucket s bucket) (\<lambda>bk.
       ebind (if sb_avail_count bk = 0
              then remove_bucket obj bucket (upd_bucket bucket (\<lambda>bk. bk\<lparr>sb_state := bucket_full\<rparr>) s)
              else if sb_avail_count bk = sb_entry_count bk - 1
              then insert_bucket obj bucket (upd_bucket bucket (\<lambda>bk. bk\<lparr>sb_state := bucket_partial\<rparr>) s)
              else Inr s) (\<lambda>s.
       let s = upd_obj obj (\<lambda>ob. ob\<lparr>so_num_active_objs := so_num_active_objs ob + 1\<rparr>) s;
           s = unlock_obj obj s;
           ptr = blk + magic_block_size
       in Inr (call_back (so_constructor ob) ptr (so_struct_size ob) s, ptr))))))))"

definition salloc_audit :: "(u64 \<Rightarrow> ulong) \<Rightarrow> ulong \<Rightarrow> ulong \<Rightarrow> salloc_state \<Rightarrow> (salloc_state \<times> ulong \<times> ulong) res" where
  "salloc_audit to_ptr obj rc s =
     ebind (salloc to_ptr obj s) (\<lambda>(s, ptr). Inr (s, ptr, if ptr \<noteq> 0 then rc + 1 else rc))"

definition sfree :: "(ulong \<Rightarrow> u64) \<Rightarrow> ulong \<Rightarrow> salloc_state \<Rightarrow> salloc_state res" where
  "sfree to_paddr ptr s =
     (let blk = ptr - magic_block_size in
     ebind (load_block s blk) (\<lambda>mb.
     let bucket = mb_bucket mb in
     ebind (load_bucket s bucket) (\<lambda>bk.
     let obj = sb_obj bk in
     ebind (load_obj s obj) (\<lambda>ob.
     let s = call_back (so_destructor ob) ptr (so_struct_size ob) s in
     ebind (lock_obj obj s) (\<lambda>s.
     let s = set_block blk (mb\<lparr>mb_next := sb_block bk\<rparr>) s;
         s = upd_bucket bucket (\<lambda>bk. bk\<lparr>sb_block := blk, sb_avail_count := sb_avail_count bk + 1\<rparr>) s;
         avail_count = sb_avail_count bk + 1 in
     ebind (if avail_count = sb_entry_count bk
            then ebind (remove_bucket obj bucket (upd_bucket bucket (\<lambda>bk. bk\<lparr>sb_state := bucket_empty\<rparr>) s)) (\<lambda>s.
                 free_bucket to_paddr obj bucket s)
            else if 1 = avail_count
            then insert_bucket obj bucket (upd_bucket bucket (\<lambda>bk. bk\<lparr>sb_state := bucket_partial\<rparr>) s)
            else Inr s) (\<lambda>s.
     let s = upd_obj obj (\<lambda>ob. ob\<lparr>so_num_active_objs := so_num_active_objs ob - 1\<rparr>) s
     in Inr (unlock_obj obj s)))))))"

definition sfree_audit :: "(ulong \<Rightarrow> u64) \<Rightarrow> ulong \<Rightarrow> ulong \<Rightarrow> salloc_state \<Rightarrow> (salloc_state \<times> ulong) res" where
  "sfree_audit to_paddr ptr rc s = ebind (sfree to_paddr ptr s) (\<lambda>s. Inr (s, rc - 1))"

section \<open>Statistics\<close>

text \<open>The loop over the registered object types, for at most \<open>n\<close> of them.\<close>

primrec salloc_stats_loop :: "nat \<Rightarrow> salloc_state \<Rightarrow> ulong \<Rightarrow> (ulong \<times> ulong \<times> ulong \<times> string) list res" where
  "salloc_stats_loop 0 s obj = Inr []"
| "salloc_stats_loop (Suc n) s obj =
     (if obj = 0 then Inr []
      else ebind (load_obj s obj) (\<lambda>ob.
           ebind (salloc_stats_loop n s (so_next ob)) (\<lambda>rest.
           Inr ((so_num_palloc_pages ob, so_block_size ob, so_num_active_objs ob, so_name ob) # rest))))"

definition salloc_stats :: "ulong \<Rightarrow> salloc_state \<Rightarrow> (ulong \<times> (ulong \<times> ulong \<times> ulong \<times> string) list) res" where
  "salloc_stats buf_size s =
     (let num_objs = num_salloc_objs s
      in ebind (salloc_stats_loop (min (unat num_objs) (unat buf_size)) s (all_salloc_objs s)) (\<lambda>buf. Inr (num_objs, buf)))"

end
