(* ===== verification/Salloc_Inv.thy ===== *)
theory Salloc_Inv
  imports Salloc Pfn
begin

text \<open>
  The structure allocator keeps its lists: what a well-formed state is, and that every operation of
  \<^verbatim>\<open>kernel/mem/salloc.c\<close> preserves it and does what it should to the free blocks of the buckets and to the
  lists of partial buckets.
\<close>


section \<open>Free blocks and partial buckets\<close>

text \<open>
  A list of free blocks through their headers, and a segment of a doubly linked list of buckets from
  \<open>p\<close>, whose predecessor is \<open>prev\<close>, up to \<open>q\<close>.
\<close>

fun chain :: "(ulong \<rightharpoonup> salloc_magic_block) \<Rightarrow> ulong \<Rightarrow> ulong list \<Rightarrow> bool" where
  "chain B p [] \<longleftrightarrow> p = 0"
| "chain B p (x # xs) \<longleftrightarrow> p = x \<and> x \<noteq> 0 \<and> (\<exists>mb. B x = Some mb \<and> chain B (mb_next mb) xs)"

fun dseg :: "(ulong \<rightharpoonup> salloc_bucket) \<Rightarrow> ulong \<Rightarrow> ulong \<Rightarrow> ulong list \<Rightarrow> ulong \<Rightarrow> bool" where
  "dseg B prev p [] q \<longleftrightarrow> p = q"
| "dseg B prev p (x # xs) q \<longleftrightarrow> p = x \<and> x \<noteq> 0 \<and> (\<exists>bk. B x = Some bk \<and> sb_prev bk = prev \<and> dseg B x (sb_next bk) xs q)"

lemma chain_cong: "(\<And>x. x \<in> set xs \<Longrightarrow> B' x = B x) \<Longrightarrow> chain B' p xs \<longleftrightarrow> chain B p xs"
  by (induction xs arbitrary: p) auto

lemma chain_not_null: "chain B p xs \<Longrightarrow> 0 \<notin> set xs"
  by (induction xs arbitrary: p) auto

definition links :: "salloc_bucket option \<Rightarrow> (ulong \<times> ulong) option" where
  "links = map_option (\<lambda>bk. (sb_prev bk, sb_next bk))"

lemma dseg_cong: "(\<And>x. x \<in> set xs \<Longrightarrow> links (B' x) = links (B x)) \<Longrightarrow> dseg B' prev p xs q \<longleftrightarrow> dseg B prev p xs q"
proof (induction xs arbitrary: prev p)
  case (Cons x xs)
  have "links (B' x) = links (B x)" using Cons.prems by simp
  then show ?case using Cons.IH Cons.prems by (cases "B x"; cases "B' x") (auto simp: links_def)
qed simp

lemma dseg_upd_other [simp]: "x \<notin> set xs \<Longrightarrow> dseg (B(x := v)) prev p xs q \<longleftrightarrow> dseg B prev p xs q"
  by (rule dseg_cong) auto

lemma dseg_not_null: "dseg B prev p xs q \<Longrightarrow> 0 \<notin> set xs"
  by (induction xs arbitrary: prev p) auto

lemma dseg_dom: "dseg B prev p xs q \<Longrightarrow> x \<in> set xs \<Longrightarrow> \<exists>bk. B x = Some bk"
  by (induction xs arbitrary: prev p) auto

lemma dseg_append: "dseg B prev p (xs @ ys) q \<longleftrightarrow> (\<exists>m. dseg B prev p xs m \<and> dseg B (last (prev # xs)) m ys q)"
  by (induction xs arbitrary: prev p) auto

lemma dseg_set_prev:
  "dseg B prev p (x # xs) q \<Longrightarrow> x \<notin> set xs \<Longrightarrow> dseg (B(x := map_option (\<lambda>k. k\<lparr>sb_prev := r\<rparr>) (B x))) r p (x # xs) q"
  by auto

lemma dseg_set_next:
  assumes "dseg B prev p (xs @ [x]) q" "x \<notin> set xs"
  shows "dseg (B(x := map_option (\<lambda>k. k\<lparr>sb_next := r\<rparr>) (B x))) prev p (xs @ [x]) r"
  using assms unfolding dseg_append by auto

lemma dseg_hd: "dseg B prev p xs 0 \<Longrightarrow> p = (case xs of [] \<Rightarrow> 0 | x # _ \<Rightarrow> x)"
  by (cases xs) auto

text \<open>Insertion at the front and removal, as the code writes the fields.\<close>

lemma dseg_insert:
  assumes "dseg B 0 p xs 0" "distinct (b # xs)" "b \<noteq> 0" "B b = Some bk"
  defines "B1 \<equiv> B(b := Some (bk\<lparr>sb_next := p, sb_prev := 0\<rparr>))"
  shows "dseg (if p \<noteq> 0 then B1(p := map_option (\<lambda>k. k\<lparr>sb_prev := b\<rparr>) (B1 p)) else B1) 0 b (b # xs) 0"
proof -
  have d: "dseg B1 0 p xs 0" using assms(1,2) by (simp add: B1_def)
  show ?thesis
  proof (cases xs)
    case Nil
    then show ?thesis using assms by simp
  next
    case (Cons x ys)
    then have p: "p = x" "p \<noteq> 0" "p \<noteq> b" "x \<notin> set ys" using assms by auto
    have "dseg (B1(x := map_option (\<lambda>k. k\<lparr>sb_prev := b\<rparr>) (B1 x))) b p (x # ys) 0"
      using dseg_set_prev d p(4) Cons by blast
    then show ?thesis using p Cons assms(3) by (auto simp: B1_def)
  qed
qed

lemma dseg_remove:
  assumes "dseg B 0 p xs 0" "distinct xs" "b \<in> set xs"
  shows "\<exists>bk. B b = Some bk \<and> (sb_prev bk \<noteq> 0 \<longrightarrow> sb_prev bk \<in> set xs - {b}) \<and> (sb_next bk \<noteq> 0 \<longrightarrow> sb_next bk \<in> set xs - {b}) \<and>
    (let B1 = (if sb_prev bk \<noteq> 0 then B(sb_prev bk := map_option (\<lambda>k. k\<lparr>sb_next := sb_next bk\<rparr>) (B (sb_prev bk))) else B);
         B2 = (if sb_next bk \<noteq> 0 then B1(sb_next bk := map_option (\<lambda>k. k\<lparr>sb_prev := sb_prev bk\<rparr>) (B1 (sb_next bk))) else B1)
     in dseg B2 0 (if sb_prev bk \<noteq> 0 then p else sb_next bk) (remove1 b xs) 0)"
proof -
  obtain ys zs where xs: "xs = ys @ b # zs" using split_list [OF assms(3)] by blast
  have dis: "b \<notin> set ys" "b \<notin> set zs" "set ys \<inter> set zs = {}" "distinct ys" "distinct zs" using assms(2) xs by auto
  have rem: "remove1 b xs = ys @ zs" using xs dis(1) by (simp add: remove1_append)
  obtain bk where bk: "B b = Some bk" "sb_prev bk = last (0 # ys)" and ys: "dseg B 0 p ys b" and zs: "dseg B b (sb_next bk) zs 0"
    using assms(1) unfolding xs dseg_append by auto
  have nn: "0 \<notin> set xs" using dseg_not_null [OF assms(1)] .
  have "last ys \<noteq> 0" if "ys \<noteq> []" using nn xs last_in_set [OF that] by auto
  then have pv: "sb_prev bk \<noteq> 0 \<longleftrightarrow> ys \<noteq> []" "ys \<noteq> [] \<Longrightarrow> sb_prev bk = last ys" using bk(2) by auto
  have nx: "sb_next bk = (case zs of [] \<Rightarrow> 0 | z # _ \<Rightarrow> z)" using dseg_hd [OF zs] .
  define B1 where "B1 = (if sb_prev bk \<noteq> 0 then B(sb_prev bk := map_option (\<lambda>k. k\<lparr>sb_next := sb_next bk\<rparr>) (B (sb_prev bk))) else B)"
  define B2 where "B2 = (if sb_next bk \<noteq> 0 then B1(sb_next bk := map_option (\<lambda>k. k\<lparr>sb_prev := sb_prev bk\<rparr>) (B1 (sb_next bk))) else B1)"
  have y1: "dseg B1 0 (if sb_prev bk \<noteq> 0 then p else sb_next bk) ys (sb_next bk)"
  proof (cases ys rule: rev_cases)
    case (snoc us y)
    then show ?thesis using dseg_set_next [of B 0 p us y b] ys dis(4) pv by (simp add: B1_def)
  qed (use pv in simp)
  have "sb_prev bk \<notin> set zs" if "sb_prev bk \<noteq> 0" using pv that last_in_set [of ys] dis(3) by (auto simp: disjoint_iff)
  then have z1: "dseg B1 b (sb_next bk) zs 0" using zs by (simp add: B1_def)
  have z2: "dseg B2 (sb_prev bk) (sb_next bk) zs 0"
  proof (cases zs)
    case (Cons z us)
    then show ?thesis using dseg_set_prev [of B1 b "sb_next bk" z us 0] z1 dis(5) nx nn xs by (auto simp: B2_def)
  qed (use z1 in \<open>auto simp: B2_def\<close>)
  have "sb_next bk \<notin> set ys" using nx dis(3) nn xs by (cases zs) auto
  then have "dseg B2 0 (if sb_prev bk \<noteq> 0 then p else sb_next bk) ys (sb_next bk)"
    using y1 by (auto simp: B2_def split: if_splits)
  then have "dseg B2 0 (if sb_prev bk \<noteq> 0 then p else sb_next bk) (remove1 b xs) 0"
    using z2 bk(2) unfolding rem dseg_append by auto
  moreover have "sb_prev bk \<noteq> 0 \<longrightarrow> sb_prev bk \<in> set xs - {b}" using pv last_in_set [of ys] xs dis(1) by auto
  moreover have "sb_next bk \<noteq> 0 \<longrightarrow> sb_next bk \<in> set xs - {b}" using nx xs dis(2) by (cases zs) auto
  ultimately show ?thesis using bk(1) unfolding Let_def B1_def B2_def by blast
qed

section \<open>Well-formed states\<close>

text \<open>
  The sizes of an object type, as \<^verbatim>\<open>salloc_create\<close> computes them: at least two blocks fit behind the
  bucket header into the pages of a bucket, whose number is a power of two, and every object fits
  into its block behind the block's header and is aligned.
\<close>

definition obj_shape :: "salloc_obj_t \<Rightarrow> bool" where
  "obj_shape ob \<longleftrightarrow> 2 \<le> so_bucket_block_count ob \<and> 48 \<le> unat (so_block_start_offset ob) \<and>
     unat (so_struct_size ob) + 16 \<le> unat (so_block_size ob) \<and>
     unat (so_block_start_offset ob) + nat (so_bucket_block_count ob) * unat (so_block_size ob) \<le> nat (so_bucket_page_count ob) * 4096 \<and>
     (\<exists>k\<le>15. so_bucket_page_count ob = 2 ^ k) \<and>
     unat (so_alignment ob) dvd 4096 \<and> unat (so_alignment ob) dvd unat (so_block_start_offset ob) + 16 \<and>
     unat (so_alignment ob) dvd unat (so_block_size ob)"

text \<open>The addresses of the blocks of a bucket.\<close>

definition block_at :: "salloc_obj_t \<Rightarrow> ulong \<Rightarrow> nat \<Rightarrow> ulong" where
  "block_at ob b i = b + so_block_start_offset ob + of_nat i * so_block_size ob"

definition bucket_blocks :: "salloc_obj_t \<Rightarrow> ulong \<Rightarrow> ulong set" where
  "bucket_blocks ob b = block_at ob b ` {..<nat (so_bucket_block_count ob)}"

text \<open>
  The direct map: the kernel sees the page frames at a fixed offset, which does not make the frames'
  addresses wrap around.
\<close>

definition direct_map :: "nat \<Rightarrow> (u64 \<Rightarrow> ulong) \<Rightarrow> (ulong \<Rightarrow> u64) \<Rightarrow> palloc_state \<Rightarrow> bool" where
  "direct_map off to_ptr to_paddr pages \<longleftrightarrow> 4096 dvd off \<and> off + pfn_limit pages * 4096 < 2 ^ 64 \<and>
     (\<forall>paddr. to_ptr paddr = paddr + of_nat off) \<and> (\<forall>ptr. to_paddr ptr = ptr - of_nat off)"

text \<open>
  A bucket: its pages are allocated, its blocks know it, and \<open>xs\<close> is the list of its free blocks.
\<close>

definition bucket_ok :: "nat \<Rightarrow> salloc_state \<Rightarrow> ulong \<Rightarrow> salloc_bucket \<Rightarrow> ulong list \<Rightarrow> bool" where
  "bucket_ok off s b bk xs \<longleftrightarrow>
     (\<exists>ob p k. sa_objs s (sb_obj bk) = Some ob \<and> sb_entry_count bk = so_bucket_block_count ob \<and>
        unat b = off + p * 4096 \<and> allocated (sa_pages s) p = Some k \<and> so_bucket_page_count ob = 2 ^ k \<and>
        chain (sa_blocks s) (sb_block bk) xs \<and> distinct xs \<and> set xs \<subseteq> bucket_blocks ob b \<and> sb_avail_count bk = int (length xs) \<and>
        (\<forall>x\<in>bucket_blocks ob b. \<exists>mb. sa_blocks s x = Some mb \<and> mb_bucket mb = b))"

definition heap_ok :: "nat \<Rightarrow> salloc_state \<Rightarrow> (ulong \<Rightarrow> ulong list) \<Rightarrow> (ulong \<Rightarrow> ulong list) \<Rightarrow> bool" where
  "heap_ok off s F P \<longleftrightarrow> palloc_ok (sa_pages s) \<and> off + pfn_limit (sa_pages s) * 4096 \<le> 2 ^ 64 \<and>
     (\<forall>obj ob. sa_objs s obj = Some ob \<longrightarrow> obj_shape ob \<and> dseg (sa_buckets s) 0 (so_partial_next ob) (P obj) 0 \<and> distinct (P obj) \<and>
        so_partial_count ob = of_nat (length (P obj))) \<and>
     (\<forall>b bk. sa_buckets s b = Some bk \<longrightarrow> bucket_ok off s b bk (F b)) \<and>
     (\<forall>obj b. b \<in> set (P obj) \<longrightarrow> (\<exists>bk. sa_buckets s b = Some bk \<and> sb_obj bk = obj))"

text \<open>Between calls: the partial buckets are those with free blocks, no bucket is entirely free, and no lock is held.\<close>

definition listed :: "salloc_state \<Rightarrow> (ulong \<Rightarrow> ulong list) \<Rightarrow> (ulong \<Rightarrow> ulong list) \<Rightarrow> ulong \<Rightarrow> bool" where
  "listed s F P b \<longleftrightarrow>
     (\<forall>bk. sa_buckets s b = Some bk \<longrightarrow> (b \<in> set (P (sb_obj bk)) \<longleftrightarrow> F b \<noteq> []) \<and> int (length (F b)) < sb_entry_count bk)"

definition lists_ok :: "salloc_state \<Rightarrow> (ulong \<Rightarrow> ulong list) \<Rightarrow> (ulong \<Rightarrow> ulong list) \<Rightarrow> bool" where
  "lists_ok s F P \<longleftrightarrow> (\<forall>b. listed s F P b) \<and> (\<forall>obj ob. sa_objs s obj = Some ob \<longrightarrow> \<not> so_locked ob)"

definition salloc_inv :: "nat \<Rightarrow> salloc_state \<Rightarrow> bool" where
  "salloc_inv off s \<longleftrightarrow> (\<exists>F P. heap_ok off s F P \<and> lists_ok s F P)"

section \<open>Addresses\<close>

lemma palloc_ok_limit: "palloc_ok s \<Longrightarrow> pfn_limit s \<le> 2 ^ 52"
  using palloc_invD(7) by (auto simp: palloc_ok_def)

lemma unat_add_exact: "unat (a :: ulong) + unat b < 2 ^ 64 \<Longrightarrow> unat (a + b) = unat a + unat b"
  by (simp add: unat_word_ariths)

lemma unat_mult_exact: "unat (a :: ulong) * unat b < 2 ^ 64 \<Longrightarrow> unat (a * b) = unat a * unat b"
  by (simp add: unat_word_ariths)

lemma bucket_range:
  assumes "palloc_ok pages" "off + pfn_limit pages * 4096 \<le> 2 ^ 64" "unat b = off + p * 4096" "allocated pages p = Some k"
  shows "unat b + 2 ^ k * 4096 \<le> 2 ^ 64" "0 < unat b"
proof -
  have "p + 2 ^ k \<le> pfn_limit pages" "0 < p" using palloc_ok_disjoint(3,6) [OF assms(1,4)] by auto
  then have "(p + 2 ^ k) * 4096 \<le> pfn_limit pages * 4096" by simp
  then show "unat b + 2 ^ k * 4096 \<le> 2 ^ 64" using assms(2,3) by (simp add: add_mult_distrib)
  show "0 < unat b" using assms(3) \<open>0 < p\<close> by simp
qed

lemma block_at_range:
  assumes shape: "obj_shape ob" and i: "i < nat (so_bucket_block_count ob)" and b: "unat b + nat (so_bucket_page_count ob) * 4096 \<le> 2 ^ 64" "0 < unat b"
  shows "unat (block_at ob b i) = unat b + unat (so_block_start_offset ob) + i * unat (so_block_size ob)"
    "unat (block_at ob b i) + unat (so_block_size ob) \<le> unat b + nat (so_bucket_page_count ob) * 4096"
proof -
  let ?n = "nat (so_bucket_block_count ob)" and ?z = "unat (so_block_size ob)" and ?o = "unat (so_block_start_offset ob)"
  have fit: "?o + ?n * ?z \<le> nat (so_bucket_page_count ob) * 4096" and z: "0 < ?z" using shape by (auto simp: obj_shape_def)
  have "Suc i * ?z \<le> ?n * ?z" using i by (intro mult_le_mono1) simp
  then have le: "unat b + ?o + i * ?z + ?z \<le> unat b + nat (so_bucket_page_count ob) * 4096" using fit by simp
  then have lt: "unat b + ?o + i * ?z < 2 ^ 64" using b(1) z by linarith
  have "i \<le> i * ?z" using z by simp
  then have "i < 2 ^ 64" using lt by linarith
  then have ui: "unat (of_nat i :: ulong) = i" by (simp add: unat_of_nat)
  have "unat (of_nat i * so_block_size ob) = i * ?z" using unat_mult_exact [of "of_nat i" "so_block_size ob"] ui lt by simp
  moreover have "unat (b + so_block_start_offset ob) = unat b + ?o" using unat_add_exact lt by simp
  ultimately show eq: "unat (block_at ob b i) = unat b + ?o + i * ?z"
    using unat_add_exact [of "b + so_block_start_offset ob" "of_nat i * so_block_size ob"] lt unfolding block_at_def by simp
  show "unat (block_at ob b i) + ?z \<le> unat b + nat (so_bucket_page_count ob) * 4096" using eq le by simp
qed

lemma block_at_neq:
  assumes "obj_shape ob" "i < nat (so_bucket_block_count ob)" "j < nat (so_bucket_block_count ob)"
    "unat b + nat (so_bucket_page_count ob) * 4096 \<le> 2 ^ 64" "0 < unat b" "block_at ob b i = block_at ob b j"
  shows "i = j"
proof -
  have "0 < unat (so_block_size ob)" using assms(1) by (auto simp: obj_shape_def)
  moreover have "i * unat (so_block_size ob) = j * unat (so_block_size ob)"
    using block_at_range(1) [OF assms(1,2,4,5)] block_at_range(1) [OF assms(1,3,4,5)] unfolding assms(6) by linarith
  ultimately show ?thesis by simp
qed

lemma block_in_bucket:
  assumes "obj_shape ob" "x \<in> bucket_blocks ob b" "unat b + nat (so_bucket_page_count ob) * 4096 \<le> 2 ^ 64" "0 < unat b"
  shows "unat b + 48 \<le> unat x" "unat x + unat (so_block_size ob) \<le> unat b + nat (so_bucket_page_count ob) * 4096" "x \<noteq> 0"
proof -
  obtain i where i: "i < nat (so_bucket_block_count ob)" "x = block_at ob b i" using assms(2) by (auto simp: bucket_blocks_def)
  show "unat b + 48 \<le> unat x" using block_at_range(1) [OF assms(1) i(1) assms(3,4)] assms(1) i(2) by (simp add: obj_shape_def)
  then show "x \<noteq> 0" using assms(4) by auto
  show "unat x + unat (so_block_size ob) \<le> unat b + nat (so_bucket_page_count ob) * 4096"
    using block_at_range(2) [OF assms(1) i(1) assms(3,4)] i(2) by simp
qed

text \<open>The pages of two buckets do not overlap.\<close>

lemma bucket_pages_apart:
  assumes "palloc_ok pages" "allocated pages p = Some k" "allocated pages q = Some j" "p \<noteq> q"
    "unat b = off + p * 4096" "unat b' = off + q * 4096"
  shows "unat b + 2 ^ k * 4096 \<le> unat b' \<or> unat b' + 2 ^ j * 4096 \<le> unat b"
proof -
  have "block p k \<inter> block q j = {}" using palloc_ok_disjoint(1) [OF assms(1,2,3,4)] .
  then have "p + 2 ^ k \<le> q \<or> q + 2 ^ j \<le> p" by (auto simp: block_def)
  then have "(p + 2 ^ k) * 4096 \<le> q * 4096 \<or> (q + 2 ^ j) * 4096 \<le> p * 4096" by auto
  then show ?thesis using assms(5,6) by (auto simp: add_mult_distrib)
qed

section \<open>Pages\<close>

lemma calc_palloc_order_power: "k \<le> 15 \<Longrightarrow> calc_palloc_order (2 ^ k) = Inr k"
proof -
  assume k: "k \<le> 15"
  have "(2::int) ^ k \<le> 2 ^ 15" using k by (intro power_increasing) auto
  then obtain j where j: "calc_palloc_order (2 ^ k) = Inr j" "j \<le> 15" "(2::int) ^ k \<le> 2 ^ j" "j = 0 \<or> (2::int) ^ (j - 1) < 2 ^ k"
    using calc_palloc_order_correct [of "2 ^ k"] by auto
  have "k \<le> j" using j(3) by (simp add: power_le_imp_le_exp)
  moreover have "j \<le> k"
  proof (cases "j = 0")
    case False
    then have "j - 1 < k" using j(4) by (simp add: power_strict_increasing_iff)
    then show ?thesis using False by linarith
  qed simp
  ultimately show ?thesis using j(1) by simp
qed

lemma palloc_ptr_spec:
  assumes ok: "palloc_ok pages" and map: "direct_map off to_ptr to_paddr pages" and k: "k \<le> 15"
  shows "palloc_ptr to_ptr (2 ^ k) pages = Inl Panic \<or>
    (\<exists>pages' p b. palloc_ptr to_ptr (2 ^ k) pages = Inr (pages', b) \<and> palloc_ok pages' \<and> pfn_limit pages' = pfn_limit pages \<and>
       allocated pages p = None \<and> allocated pages' = (allocated pages)(p \<mapsto> k) \<and> unat b = off + p * 4096 \<and> b \<noteq> 0)"
proof -
  obtain pages' p where r: "palloc_by_tags direct_mapped_tags (2 ^ k) pages = Inr (pages', p)" "palloc_ok pages'"
      "region_env pages' = region_env pages" "p = 0 \<or> (\<exists>r. block_taken pages pages' r k p)"
    using palloc_by_tags_outcome [OF ok calc_palloc_order_power [OF k] k, of direct_mapped_tags]
    unfolding alloc_outcome_def by blast
  show ?thesis
  proof (cases "p = 0")
    case True
    then show ?thesis using r(1) by (simp add: palloc_ptr_def palloc_paddr_direct_mapped_def palloc_direct_mapped_def)
  next
    case False
    then obtain g where g: "block_taken pages pages' g k p" using r(4) by blast
    then have al: "allocated pages p = None" "allocated pages' = (allocated pages)(p \<mapsto> k)" by (auto simp: block_taken_def)
    have lim: "pfn_limit pages' = pfn_limit pages" using r(3) by (simp add: region_env_def)
    have "allocated pages' p = Some k" using al(2) by simp
    then have "p + 2 ^ k \<le> pfn_limit pages" using palloc_ok_disjoint(6) [OF r(2)] lim by simp
    then have pl: "p < pfn_limit pages" using zero_less_power [of "2 :: nat" k] by linarith
    have lm: "off + pfn_limit pages * 4096 \<le> 2 ^ 64" and tp: "to_ptr paddr = paddr + of_nat off" for paddr
      using map by (auto simp: direct_map_def)
    have "p < 2 ^ 52" using pl palloc_ok_limit [OF ok] by linarith
    then have up: "unat (ppfn_to_paddr p) = p * 4096" using unat_ppfn_to_paddr by blast
    have "off + p * 4096 < 2 ^ 64" using lm pl by linarith
    then have "unat (ppfn_to_paddr p + of_nat off) = off + p * 4096"
      using up by (subst unat_add_exact) (simp_all add: unat_of_nat)
    moreover have "ppfn_to_paddr p \<noteq> 0" using up False by auto
    ultimately have "palloc_ptr to_ptr (2 ^ k) pages = Inr (pages', ppfn_to_paddr p + of_nat off)"
        "unat (ppfn_to_paddr p + of_nat off) = off + p * 4096" "ppfn_to_paddr p + of_nat off \<noteq> 0"
      using r(1) False tp by (auto simp: palloc_ptr_def palloc_paddr_direct_mapped_def palloc_direct_mapped_def)
    then show ?thesis using r(2) lim al by blast
  qed
qed

lemma pfree_ptr_spec:
  assumes ok: "palloc_ok pages" and map: "direct_map off to_ptr to_paddr pages" and p: "allocated pages p = Some k" "unat b = off + p * 4096"
  shows "\<exists>pages'. pfree_ptr to_paddr b pages = Inr (pages', 2 ^ k) \<and> palloc_ok pages' \<and> pfn_limit pages' = pfn_limit pages \<and>
    allocated pages' = (allocated pages)(p := None)"
proof -
  have "off \<le> unat b" "off < 2 ^ 64" using p(2) unsigned_less [of b, where ?'a = nat] by auto
  then have "unat (b - of_nat off) = p * 4096" using p(2) by (simp add: unat_sub word_le_nat_alt unat_of_nat)
  then have "paddr_to_ppfn (to_paddr b) = p" using map by (simp add: direct_map_def paddr_to_ppfn_div)
  then show ?thesis using pfree_spec [OF ok p(1)] by (auto simp: pfree_ptr_def region_env_def)
qed

section \<open>The blocks of a new bucket\<close>

lemma load_bucket_Some [simp]: "sa_buckets s b = Some bk \<Longrightarrow> load_bucket s b = Inr bk"
  by (simp add: load_bucket_def)

lemma load_obj_Some [simp]: "sa_objs s obj = Some ob \<Longrightarrow> load_obj s obj = Inr ob"
  by (simp add: load_obj_def)

lemma load_block_Some [simp]: "sa_blocks s x = Some mb \<Longrightarrow> load_block s x = Inr mb"
  by (simp add: load_block_def)

lemma chain_upd_other [simp]: "x \<notin> set xs \<Longrightarrow> chain (B(x := v)) p xs \<longleftrightarrow> chain B p xs"
  by (rule chain_cong) auto

lemma init_blocks_spec:
  assumes bk: "sa_buckets s b = Some bk" "sb_block bk = 0"
    and inj: "\<And>i j. i < n \<Longrightarrow> j < n \<Longrightarrow> block_at ob b i = block_at ob b j \<Longrightarrow> i = j" and nn: "\<And>i. i < n \<Longrightarrow> block_at ob b i \<noteq> 0"
  shows "\<exists>B h. init_blocks n ob b s = Inr (s\<lparr>sa_buckets := (sa_buckets s)(b \<mapsto> bk\<lparr>sb_block := h\<rparr>), sa_blocks := B\<rparr>) \<and>
    chain B h (map (block_at ob b) (rev [0..<n])) \<and> (\<forall>x. x \<notin> block_at ob b ` {..<n} \<longrightarrow> B x = sa_blocks s x) \<and>
    (\<forall>x\<in>block_at ob b ` {..<n}. \<exists>mb. B x = Some mb \<and> mb_bucket mb = b)"
  using inj nn
proof (induction n)
  case 0
  have "bk\<lparr>sb_block := 0\<rparr> = bk" using bk(2) by simp
  then have e: "(sa_buckets s)(b \<mapsto> bk\<lparr>sb_block := 0\<rparr>) = sa_buckets s" using bk(1) by (simp add: map_upd_triv)
  show ?case by (intro exI [of _ "sa_blocks s"] exI [of _ 0], unfold e) simp
next
  case (Suc n)
  obtain B h where ih: "init_blocks n ob b s = Inr (s\<lparr>sa_buckets := (sa_buckets s)(b \<mapsto> bk\<lparr>sb_block := h\<rparr>), sa_blocks := B\<rparr>)"
      "chain B h (map (block_at ob b) (rev [0..<n]))" "\<forall>x. x \<notin> block_at ob b ` {..<n} \<longrightarrow> B x = sa_blocks s x"
      "\<forall>x\<in>block_at ob b ` {..<n}. \<exists>mb. B x = Some mb \<and> mb_bucket mb = b"
    using Suc.IH Suc.prems by (metis less_SucI)
  let ?x = "block_at ob b n"
  define B' where "B' = B(?x \<mapsto> \<lparr>mb_bucket = b, mb_next = h\<rparr>)"
  have fresh: "?x \<notin> block_at ob b ` {..<n}" 
  proof
    assume "?x \<in> block_at ob b ` {..<n}"
    then obtain i where "i < n" "block_at ob b i = ?x" by auto
    then show False using Suc.prems(1) [of i n] by simp
  qed
  have "init_blocks (Suc n) ob b s = Inr (s\<lparr>sa_buckets := (sa_buckets s)(b \<mapsto> bk\<lparr>sb_block := ?x\<rparr>), sa_blocks := B'\<rparr>)"
    using ih(1) by (simp add: Let_def set_block_def upd_bucket_def B'_def block_at_def)
  moreover have "chain B' ?x (map (block_at ob b) (rev [0..<Suc n]))"
    using ih(2) fresh Suc.prems(2) [of n] by (simp add: B'_def lessThan_atLeast0)
  moreover have "\<forall>x. x \<notin> block_at ob b ` {..<Suc n} \<longrightarrow> B' x = sa_blocks s x"
    using ih(3) by (auto simp: B'_def lessThan_Suc)
  moreover have "\<forall>x\<in>block_at ob b ` {..<Suc n}. \<exists>mb. B' x = Some mb \<and> mb_bucket mb = b"
    using ih(4) by (auto simp: B'_def lessThan_Suc)
  ultimately show ?case by blast
qed

section \<open>Frames\<close>

text \<open>What the list operations leave alone: the sizes of an object type, the content of a bucket.\<close>

definition shape_fields :: "salloc_obj_t \<Rightarrow> _" where
  "shape_fields ob = (so_struct_size ob, so_block_size ob, so_alignment ob, so_block_start_offset ob,
     so_bucket_page_count ob, so_bucket_block_count ob)"

definition obj_info :: "salloc_obj_t \<Rightarrow> _" where
  "obj_info ob = (shape_fields ob, so_constructor ob, so_destructor ob, so_locked ob, so_num_palloc_pages ob, so_num_active_objs ob)"

definition content :: "salloc_bucket \<Rightarrow> _" where
  "content bk = (sb_obj bk, sb_entry_count bk, sb_avail_count bk, sb_block bk)"

lemma content_links [simp]:
  "content (bk\<lparr>sb_next := n\<rparr>) = content bk" "content (bk\<lparr>sb_prev := n\<rparr>) = content bk" "content (bk\<lparr>sb_state := st\<rparr>) = content bk"
  by (simp_all add: content_def)

lemma obj_info_links [simp]:
  "obj_info (ob\<lparr>so_partial_next := n\<rparr>) = obj_info ob" "obj_info (ob\<lparr>so_partial_count := c\<rparr>) = obj_info ob"
  by (simp_all add: obj_info_def shape_fields_def)

lemma shape_cong: "shape_fields a = shape_fields b \<Longrightarrow> obj_shape a = obj_shape b \<and> bucket_blocks a = bucket_blocks b \<and>
    so_bucket_block_count a = so_bucket_block_count b \<and> so_bucket_page_count a = so_bucket_page_count b"
  by (auto simp: shape_fields_def obj_shape_def bucket_blocks_def block_at_def fun_eq_iff)

lemma bucket_ok_frame:
  assumes "bucket_ok off s b bk xs" "content bk' = content bk"
    and "\<And>ob. sa_objs s (sb_obj bk) = Some ob \<Longrightarrow> \<exists>ob'. sa_objs s' (sb_obj bk) = Some ob' \<and> shape_fields ob' = shape_fields ob"
    and "\<And>p k. allocated (sa_pages s) p = Some k \<Longrightarrow> unat b = off + p * 4096 \<Longrightarrow> allocated (sa_pages s') p = Some k"
    and "\<And>ob x. sa_objs s (sb_obj bk) = Some ob \<Longrightarrow> x \<in> bucket_blocks ob b \<Longrightarrow> sa_blocks s' x = sa_blocks s x"
  shows "bucket_ok off s' b bk' xs"
proof -
  obtain ob p k where o: "sa_objs s (sb_obj bk) = Some ob" "sb_entry_count bk = so_bucket_block_count ob"
      "unat b = off + p * 4096" "allocated (sa_pages s) p = Some k" "so_bucket_page_count ob = 2 ^ k"
      "chain (sa_blocks s) (sb_block bk) xs" "distinct xs" "set xs \<subseteq> bucket_blocks ob b" "sb_avail_count bk = int (length xs)"
      "\<forall>x\<in>bucket_blocks ob b. \<exists>mb. sa_blocks s x = Some mb \<and> mb_bucket mb = b"
    using assms(1) unfolding bucket_ok_def by blast
  obtain ob' where ob': "sa_objs s' (sb_obj bk) = Some ob'" "shape_fields ob' = shape_fields ob" using assms(3) [OF o(1)] by blast
  note sh = shape_cong [OF ob'(2)]
  have "chain (sa_blocks s') (sb_block bk) xs \<longleftrightarrow> chain (sa_blocks s) (sb_block bk) xs"
    by (rule chain_cong) (use o(8) assms(5) [OF o(1)] in blast)
  then have "chain (sa_blocks s') (sb_block bk) xs" using o(6) by blast
  moreover have "\<forall>x\<in>bucket_blocks ob' b. \<exists>mb. sa_blocks s' x = Some mb \<and> mb_bucket mb = b"
    using o(10) assms(5) [OF o(1)] sh by auto
  ultimately show ?thesis
    using ob'(1) o sh assms(2) assms(4) [OF o(4,3)] unfolding bucket_ok_def content_def by auto
qed

definition relinked :: "salloc_state \<Rightarrow> salloc_state \<Rightarrow> bool" where
  "relinked s s' \<longleftrightarrow> sa_pages s' = sa_pages s \<and> sa_blocks s' = sa_blocks s \<and> sa_calls s' = sa_calls s \<and>
     (\<forall>b. map_option content (sa_buckets s' b) = map_option content (sa_buckets s b)) \<and>
     (\<forall>obj. map_option obj_info (sa_objs s' obj) = map_option obj_info (sa_objs s obj))"

lemma map_option_eq_SomeD: "map_option f x = map_option f y \<Longrightarrow> y = Some b \<Longrightarrow> \<exists>a. x = Some a \<and> f a = f b"
  by (cases x) auto

lemma relinkedD:
  assumes "relinked s s'"
  shows "sa_buckets s b = Some bk \<Longrightarrow> \<exists>bk'. sa_buckets s' b = Some bk' \<and> content bk' = content bk"
    "sa_objs s obj = Some ob \<Longrightarrow> \<exists>ob'. sa_objs s' obj = Some ob' \<and> obj_info ob' = obj_info ob"
    "sa_buckets s' b = Some bk \<Longrightarrow> \<exists>bk'. sa_buckets s b = Some bk' \<and> content bk' = content bk"
    "sa_objs s' obj = Some ob \<Longrightarrow> \<exists>ob'. sa_objs s obj = Some ob' \<and> obj_info ob' = obj_info ob"
  using assms map_option_eq_SomeD unfolding relinked_def by (metis (no_types, lifting))+

lemma heap_ok_relinked:
  assumes ok: "heap_ok off s F P" and rel: "relinked s s'"
    and lists: "\<And>obj ob'. sa_objs s' obj = Some ob' \<Longrightarrow> dseg (sa_buckets s') 0 (so_partial_next ob') (P' obj) 0 \<and> distinct (P' obj) \<and>
      so_partial_count ob' = of_nat (length (P' obj))"
    and mem: "\<And>obj b. b \<in> set (P' obj) \<Longrightarrow> \<exists>bk. sa_buckets s b = Some bk \<and> sb_obj bk = obj"
  shows "heap_ok off s' F P'"
proof -
  have pages: "sa_pages s' = sa_pages s" "sa_blocks s' = sa_blocks s" using rel by (auto simp: relinked_def)
  have "obj_shape ob'" if a: "sa_objs s' obj = Some ob'" for obj ob'
  proof -
    obtain ob where "sa_objs s obj = Some ob" "obj_info ob = obj_info ob'" using relinkedD(4) [OF rel a] by blast
    then show ?thesis using ok shape_cong [of ob ob'] by (auto simp: heap_ok_def obj_info_def)
  qed
  moreover have "bucket_ok off s' b bk' (F b)" if a: "sa_buckets s' b = Some bk'" for b bk'
  proof -
    obtain bk where bk: "sa_buckets s b = Some bk" "content bk = content bk'" using relinkedD(3) [OF rel a] by blast
    then have "bucket_ok off s b bk (F b)" using ok by (simp add: heap_ok_def)
    then show ?thesis by (rule bucket_ok_frame) (use bk(2) relinkedD(2) [OF rel] pages in \<open>auto simp: obj_info_def\<close>)
  qed
  moreover have "\<exists>bk. sa_buckets s' b = Some bk \<and> sb_obj bk = obj" if "b \<in> set (P' obj)" for obj b
    using mem [OF that] relinkedD(1) [OF rel] by (auto simp: content_def)
  ultimately show ?thesis using ok lists pages unfolding heap_ok_def by simp
qed

lemma heap_okD:
  assumes "heap_ok off s F P"
  shows "palloc_ok (sa_pages s)" "off + pfn_limit (sa_pages s) * 4096 \<le> 2 ^ 64"
    "sa_objs s obj = Some ob \<Longrightarrow> obj_shape ob \<and> dseg (sa_buckets s) 0 (so_partial_next ob) (P obj) 0 \<and> distinct (P obj) \<and>
       so_partial_count ob = of_nat (length (P obj))"
    "sa_buckets s b = Some bk \<Longrightarrow> bucket_ok off s b bk (F b)"
    "b \<in> set (P obj) \<Longrightarrow> \<exists>bk. sa_buckets s b = Some bk \<and> sb_obj bk = obj"
  using assms unfolding heap_ok_def by blast+

lemma bucket_okE:
  assumes "bucket_ok off s b bk xs"
  obtains ob p k where "sa_objs s (sb_obj bk) = Some ob" "sb_entry_count bk = so_bucket_block_count ob"
      "unat b = off + p * 4096" "allocated (sa_pages s) p = Some k" "so_bucket_page_count ob = 2 ^ k"
      "chain (sa_blocks s) (sb_block bk) xs" "distinct xs" "set xs \<subseteq> bucket_blocks ob b" "sb_avail_count bk = int (length xs)"
      "\<forall>x\<in>bucket_blocks ob b. \<exists>mb. sa_blocks s x = Some mb \<and> mb_bucket mb = b"
  using assms unfolding bucket_ok_def by blast

lemma bucket_not_null: "heap_ok off s F P \<Longrightarrow> sa_buckets s b = Some bk \<Longrightarrow> b \<noteq> 0"
proof -
  assume ok: "heap_ok off s F P" and b: "sa_buckets s b = Some bk"
  obtain p k where "unat b = off + p * 4096" "allocated (sa_pages s) p = Some k"
    using heap_okD(4) [OF ok b] by (rule bucket_okE)
  then have "0 < unat b" using bucket_range(2) [OF heap_okD(1,2) [OF ok]] by blast
  then show "b \<noteq> 0" by auto
qed

section \<open>The list of partial buckets\<close>

lemma insert_bucket_ok:
  assumes ok: "heap_ok off s F P" and ob: "sa_objs s obj = Some ob" and b: "sa_buckets s b = Some bk" "sb_obj bk = obj" "b \<notin> set (P obj)"
  shows "\<exists>s'. insert_bucket obj b s = Inr s' \<and> heap_ok off s' F (P(obj := b # P obj)) \<and> relinked s s'"
proof -
  note o = heap_okD(3) [OF ok ob]
  define p where "p = so_partial_next ob"
  define B1 where "B1 = (sa_buckets s)(b := Some (bk\<lparr>sb_next := p, sb_prev := 0\<rparr>))"
  define B2 where "B2 = (if p \<noteq> 0 then B1(p := map_option (\<lambda>k. k\<lparr>sb_prev := b\<rparr>) (B1 p)) else B1)"
  define s' where "s' = upd_obj obj (\<lambda>ob. ob\<lparr>so_partial_next := b, so_partial_count := so_partial_count ob + 1\<rparr>) (s\<lparr>sa_buckets := B2\<rparr>)"
  have pin: "p \<noteq> 0 \<Longrightarrow> p \<in> set (P obj)" using o dseg_hd [of "sa_buckets s" 0 p "P obj"] by (cases "P obj") (auto simp: p_def)
  have "p \<noteq> 0 \<Longrightarrow> \<exists>kp. sa_buckets s p = Some kp \<and> p \<noteq> b" using pin b(3) heap_okD(5) [OF ok, of p obj] by blast
  then have run: "insert_bucket obj b s = Inr s'"
    using ob b(1) by (auto simp: insert_bucket_def Let_def s'_def B2_def B1_def p_def upd_bucket_def)
  have rel: "relinked s s'"
    using ob b(1) unfolding relinked_def
    by (auto simp: s'_def B2_def B1_def upd_obj_def option.map_comp comp_def)
  have other: "dseg B2 0 q (P obj') 0 \<longleftrightarrow> dseg (sa_buckets s) 0 q (P obj') 0" if "obj' \<noteq> obj" for obj' q
  proof -
    have "b \<notin> set (P obj')" using b(1,2) that heap_okD(5) [OF ok, of b obj'] by auto
    moreover have "p \<noteq> 0 \<Longrightarrow> p \<notin> set (P obj')" using pin that heap_okD(5) [OF ok, of p obj] heap_okD(5) [OF ok, of p obj'] by auto
    ultimately show ?thesis by (simp add: B2_def B1_def)
  qed
  have new: "dseg B2 0 b (b # P obj) 0"
    unfolding B2_def B1_def by (rule dseg_insert) (use o b(1,3) bucket_not_null [OF ok b(1)] in \<open>auto simp: p_def\<close>)
  have "heap_ok off s' F (P(obj := b # P obj))"
  proof (rule heap_ok_relinked [OF ok rel])
    fix obj' ob' assume a: "sa_objs s' obj' = Some ob'"
    show "dseg (sa_buckets s') 0 (so_partial_next ob') ((P(obj := b # P obj)) obj') 0 \<and> distinct ((P(obj := b # P obj)) obj') \<and>
        so_partial_count ob' = of_nat (length ((P(obj := b # P obj)) obj'))"
    proof (cases "obj' = obj")
      case True
      then show ?thesis using a ob new o b(3) by (auto simp: s'_def upd_obj_def)
    next
      case False
      then have "sa_objs s obj' = Some ob'" using a by (simp add: s'_def upd_obj_def)
      then show ?thesis using False other heap_okD(3) [OF ok] by (simp add: s'_def upd_obj_def)
    qed
  next
    fix obj' b' assume "b' \<in> set ((P(obj := b # P obj)) obj')"
    then show "\<exists>bk. sa_buckets s b' = Some bk \<and> sb_obj bk = obj'"
      using b(1,2) heap_okD(5) [OF ok] by (auto split: if_splits)
  qed
  then show ?thesis using run rel by blast
qed

lemma remove_bucket_ok:
  assumes ok: "heap_ok off s F P" and ob: "sa_objs s obj = Some ob" and b: "b \<in> set (P obj)"
  shows "\<exists>s'. remove_bucket obj b s = Inr s' \<and> heap_ok off s' F (P(obj := remove1 b (P obj))) \<and> relinked s s'"
proof -
  note o = heap_okD(3) [OF ok ob]
  define p where "p = so_partial_next ob"
  have seg: "dseg (sa_buckets s) 0 p (P obj) 0" "distinct (P obj)" using o by (auto simp: p_def)
  obtain bk where bk: "sa_buckets s b = Some bk" "sb_prev bk \<noteq> 0 \<longrightarrow> sb_prev bk \<in> set (P obj) - {b}" "sb_next bk \<noteq> 0 \<longrightarrow> sb_next bk \<in> set (P obj) - {b}"
      "let B1 = (if sb_prev bk \<noteq> 0 then (sa_buckets s)(sb_prev bk := map_option (\<lambda>k. k\<lparr>sb_next := sb_next bk\<rparr>) (sa_buckets s (sb_prev bk))) else sa_buckets s);
           B2 = (if sb_next bk \<noteq> 0 then B1(sb_next bk := map_option (\<lambda>k. k\<lparr>sb_prev := sb_prev bk\<rparr>) (B1 (sb_next bk))) else B1)
       in dseg B2 0 (if sb_prev bk \<noteq> 0 then p else sb_next bk) (remove1 b (P obj)) 0"
    using dseg_remove [OF seg b] by blast
  define B1 where "B1 = (if sb_prev bk \<noteq> 0 then (sa_buckets s)(sb_prev bk := map_option (\<lambda>k. k\<lparr>sb_next := sb_next bk\<rparr>) (sa_buckets s (sb_prev bk))) else sa_buckets s)"
  define B2 where "B2 = (if sb_next bk \<noteq> 0 then B1(sb_next bk := map_option (\<lambda>k. k\<lparr>sb_prev := sb_prev bk\<rparr>) (B1 (sb_next bk))) else B1)"
  define p' where "p' = (if sb_prev bk \<noteq> 0 then p else sb_next bk)"
  have new: "dseg B2 0 p' (remove1 b (P obj)) 0" using bk(4) unfolding Let_def B1_def B2_def p'_def .
  define s' where "s' = s\<lparr>sa_objs := (sa_objs s)(obj \<mapsto> ob\<lparr>so_partial_count := so_partial_count ob - 1, so_partial_next := p'\<rparr>), sa_buckets := B2\<rparr>"
  have "sb_prev bk \<noteq> 0 \<Longrightarrow> \<exists>k. sa_buckets s (sb_prev bk) = Some k" "sb_next bk \<noteq> 0 \<Longrightarrow> \<exists>k. sa_buckets s (sb_next bk) = Some k"
    using bk(2,3) heap_okD(5) [OF ok] by blast+
  then have run: "remove_bucket obj b s = Inr s'"
    using ob bk(1) by (auto simp: remove_bucket_def Let_def s'_def B2_def B1_def p'_def p_def upd_bucket_def upd_obj_def load_bucket_def)
  have rel: "relinked s s'"
    using ob bk(1) unfolding relinked_def
    by (auto simp: s'_def B2_def B1_def option.map_comp comp_def)
  have other: "dseg B2 0 q (P obj') 0 \<longleftrightarrow> dseg (sa_buckets s) 0 q (P obj') 0" if "obj' \<noteq> obj" for obj' q
  proof -
    have "x \<notin> set (P obj')" if "x \<in> set (P obj)" for x
      using that \<open>obj' \<noteq> obj\<close> heap_okD(5) [OF ok, of x obj] heap_okD(5) [OF ok, of x obj'] by auto
    then show ?thesis using bk(2,3) by (simp add: B2_def B1_def)
  qed
  have len: "length (P obj) = Suc (length (remove1 b (P obj)))" using b length_pos_if_in_set [OF b] by (simp add: length_remove1)
  have "heap_ok off s' F (P(obj := remove1 b (P obj)))"
  proof (rule heap_ok_relinked [OF ok rel])
    fix obj' ob' assume a: "sa_objs s' obj' = Some ob'"
    show "dseg (sa_buckets s') 0 (so_partial_next ob') ((P(obj := remove1 b (P obj))) obj') 0 \<and> distinct ((P(obj := remove1 b (P obj))) obj') \<and>
        so_partial_count ob' = of_nat (length ((P(obj := remove1 b (P obj))) obj'))"
    proof (cases "obj' = obj")
      case True
      then show ?thesis using a new o len by (auto simp: s'_def)
    next
      case False
      then have "sa_objs s obj' = Some ob'" using a by (simp add: s'_def)
      then show ?thesis using False other heap_okD(3) [OF ok] by (simp add: s'_def)
    qed
  next
    fix obj' b' assume "b' \<in> set ((P(obj := remove1 b (P obj))) obj')"
    then have "b' \<in> set (P obj')" using set_remove1_subset [of b "P obj"] by (auto split: if_splits)
    then show "\<exists>bk. sa_buckets s b' = Some bk \<and> sb_obj bk = obj'" using heap_okD(5) [OF ok] by blast
  qed
  then show ?thesis using run rel by blast
qed

section \<open>The blocks of a bucket\<close>

lemma heap_ok_upd_obj:
  assumes ok: "heap_ok off s F P"
    and f: "\<And>ob. shape_fields (f ob) = shape_fields ob \<and> so_partial_next (f ob) = so_partial_next ob \<and> so_partial_count (f ob) = so_partial_count ob"
  shows "heap_ok off (upd_obj obj f s) F P"
proof -
  have "bucket_ok off (upd_obj obj f s) b bk (F b)" if "sa_buckets s b = Some bk" for b bk
    using heap_okD(4) [OF ok that] by (rule bucket_ok_frame) (auto simp: upd_obj_def f)
  moreover have "obj_shape (f ob) = obj_shape ob" for ob using shape_cong f by blast
  ultimately show ?thesis using ok f unfolding heap_ok_def by (auto simp: upd_obj_def)
qed

lemma heap_ok_calls [simp]: "heap_ok off (s\<lparr>sa_calls := c\<rparr>) F P = heap_ok off s F P"
  by (simp add: heap_ok_def bucket_ok_def)

lemma blocks_apart:
  assumes ok: "heap_ok off s F P" and b: "sa_buckets s b = Some bk" "sa_buckets s b' = Some bk'" "b \<noteq> b'"
    and o: "sa_objs s (sb_obj bk) = Some ob" "sa_objs s (sb_obj bk') = Some ob'" and x: "x \<in> bucket_blocks ob b"
  shows "x \<notin> bucket_blocks ob' b'"
proof
  assume "x \<in> bucket_blocks ob' b'"
  then obtain mb where "sa_blocks s x = Some mb" "mb_bucket mb = b'"
    using heap_okD(4) [OF ok b(2)] o(2) by (auto simp: bucket_ok_def)
  moreover obtain mb' where "sa_blocks s x = Some mb'" "mb_bucket mb' = b"
    using heap_okD(4) [OF ok b(1)] o(1) x by (auto simp: bucket_ok_def)
  ultimately show False using b(3) by simp
qed

lemma heap_ok_bucket_change:
  assumes ok: "heap_ok off s F P" and b: "sa_buckets s b = Some bk" and o: "sa_objs s (sb_obj bk) = Some ob"
    and bk': "links (Some bk') = links (Some bk)" "sb_obj bk' = sb_obj bk"
    and s': "s' = s\<lparr>sa_buckets := (sa_buckets s)(b \<mapsto> bk'), sa_blocks := B\<rparr>"
    and B: "\<And>x. x \<notin> bucket_blocks ob b \<Longrightarrow> B x = sa_blocks s x" and new: "bucket_ok off s' b bk' xs"
  shows "heap_ok off s' (F(b := xs)) P"
proof -
  have "bucket_ok off s' b' k (F b')" if a: "sa_buckets s b' = Some k" "b' \<noteq> b" for b' k
    using heap_okD(4) [OF ok a(1)]
  proof (rule bucket_ok_frame)
    fix ob' x assume "sa_objs s (sb_obj k) = Some ob'" "x \<in> bucket_blocks ob' b'"
    then have "x \<notin> bucket_blocks ob b" using blocks_apart [OF ok a(1) b a(2)] o by blast
    then show "sa_blocks s' x = sa_blocks s x" using B by (simp add: s')
  qed (auto simp: s')
  moreover have "dseg (sa_buckets s') 0 p xs q \<longleftrightarrow> dseg (sa_buckets s) 0 p xs q" for p xs q
    using b bk'(1) by (intro dseg_cong) (simp add: s')
  moreover have "\<exists>k. sa_buckets s' b' = Some k \<and> sb_obj k = obj" if "b' \<in> set (P obj)" for obj b'
    using heap_okD(5) [OF ok that] b bk'(2) by (cases "b' = b") (simp_all add: s')
  moreover have "sa_objs s' = sa_objs s" "sa_pages s' = sa_pages s" by (simp_all add: s')
  ultimately show ?thesis using heap_okD(1,2,3) [OF ok] new unfolding heap_ok_def by (auto simp: s' split: if_splits)
qed

lemma pop_block_ok:
  assumes ok: "heap_ok off s F P" and b: "sa_buckets s b = Some bk" "F b = x # xs"
  shows "\<exists>mb. sa_blocks s (sb_block bk) = Some mb \<and> x = sb_block bk \<and>
    heap_ok off (set_block x \<lparr>mb_bucket = b, mb_next = 0\<rparr>
      (upd_bucket b (\<lambda>bk. bk\<lparr>sb_block := mb_next mb, sb_avail_count := sb_avail_count bk - 1\<rparr>) s)) (F(b := xs)) P"
proof -
  obtain ob p k where o: "sa_objs s (sb_obj bk) = Some ob" "sb_entry_count bk = so_bucket_block_count ob"
      "unat b = off + p * 4096" "allocated (sa_pages s) p = Some k" "so_bucket_page_count ob = 2 ^ k"
      "chain (sa_blocks s) (sb_block bk) (x # xs)" "distinct (x # xs)" "set (x # xs) \<subseteq> bucket_blocks ob b"
      "sb_avail_count bk = int (length (x # xs))" "\<forall>x\<in>bucket_blocks ob b. \<exists>mb. sa_blocks s x = Some mb \<and> mb_bucket mb = b"
    using heap_okD(4) [OF ok b(1)] unfolding b(2) by (rule bucket_okE)
  obtain mb where mb: "sa_blocks s x = Some mb" "chain (sa_blocks s) (mb_next mb) xs" "sb_block bk = x"
    using o(6) unfolding chain.simps by blast
  define bk' where "bk' = bk\<lparr>sb_block := mb_next mb, sb_avail_count := sb_avail_count bk - 1\<rparr>"
  define s' where "s' = s\<lparr>sa_buckets := (sa_buckets s)(b \<mapsto> bk'), sa_blocks := (sa_blocks s)(x \<mapsto> \<lparr>mb_bucket = b, mb_next = 0\<rparr>)\<rparr>"
  have new: "bucket_ok off s' b bk' xs"
    unfolding bucket_ok_def using o mb(2) by (intro exI [of _ ob] exI [of _ p] exI [of _ k]) (simp add: s'_def bk'_def)
  have "heap_ok off s' (F(b := xs)) P"
    by (rule heap_ok_bucket_change [OF ok b(1) o(1) _ _ s'_def _ new]) (use o(8) in \<open>auto simp: bk'_def links_def\<close>)
  moreover have "set_block x \<lparr>mb_bucket = b, mb_next = 0\<rparr>
      (upd_bucket b (\<lambda>bk. bk\<lparr>sb_block := mb_next mb, sb_avail_count := sb_avail_count bk - 1\<rparr>) s) = s'"
    using b(1) by (simp add: s'_def bk'_def set_block_def upd_bucket_def)
  ultimately show ?thesis using mb by simp
qed

lemma push_block_ok:
  assumes ok: "heap_ok off s F P" and b: "sa_buckets s b = Some bk" and o: "sa_objs s (sb_obj bk) = Some ob"
    and x: "x \<in> bucket_blocks ob b" "x \<notin> set (F b)" and mb: "sa_blocks s x = Some mb"
  shows "heap_ok off (upd_bucket b (\<lambda>bk. bk\<lparr>sb_block := x, sb_avail_count := sb_avail_count bk + 1\<rparr>)
      (set_block x (mb\<lparr>mb_next := sb_block bk\<rparr>) s)) (F(b := x # F b)) P"
proof -
  obtain p k where e: "sb_entry_count bk = so_bucket_block_count ob"
      "unat b = off + p * 4096" "allocated (sa_pages s) p = Some k" "so_bucket_page_count ob = 2 ^ k"
      "chain (sa_blocks s) (sb_block bk) (F b)" "distinct (F b)" "set (F b) \<subseteq> bucket_blocks ob b" "sb_avail_count bk = int (length (F b))"
      "\<forall>x\<in>bucket_blocks ob b. \<exists>mb. sa_blocks s x = Some mb \<and> mb_bucket mb = b"
    using heap_okD(4) [OF ok b] o by (auto elim!: bucket_okE)
  have shape: "obj_shape ob" using heap_okD(3) [OF ok o] by blast
  have "x \<noteq> 0"
    using block_in_bucket(3) [OF shape x(1)] bucket_range [OF heap_okD(1,2) [OF ok] e(2,3)] e(4) by (simp add: nat_power_eq)
  define bk' where "bk' = bk\<lparr>sb_block := x, sb_avail_count := sb_avail_count bk + 1\<rparr>"
  define s' where "s' = s\<lparr>sa_buckets := (sa_buckets s)(b \<mapsto> bk'), sa_blocks := (sa_blocks s)(x \<mapsto> mb\<lparr>mb_next := sb_block bk\<rparr>)\<rparr>"
  have "mb_bucket mb = b" using e(9) x(1) mb by auto
  then have new: "bucket_ok off s' b bk' (x # F b)"
    unfolding bucket_ok_def using e o x \<open>x \<noteq> 0\<close> by (intro exI [of _ ob] exI [of _ p] exI [of _ k]) (simp add: s'_def bk'_def)
  have "heap_ok off s' (F(b := x # F b)) P"
    by (rule heap_ok_bucket_change [OF ok b o _ _ s'_def _ new]) (use x(1) in \<open>auto simp: bk'_def links_def\<close>)
  moreover have "upd_bucket b (\<lambda>bk. bk\<lparr>sb_block := x, sb_avail_count := sb_avail_count bk + 1\<rparr>)
      (set_block x (mb\<lparr>mb_next := sb_block bk\<rparr>) s) = s'"
    using b by (simp add: s'_def bk'_def set_block_def upd_bucket_def)
  ultimately show ?thesis by simp
qed

section \<open>New and released buckets\<close>

lemma bucket_fits:
  assumes ok: "heap_ok off s F P" and bo: "bucket_ok off s b bk xs" and o: "sa_objs s (sb_obj bk) = Some ob"
  shows "unat b + nat (so_bucket_page_count ob) * 4096 \<le> 2 ^ 64" "0 < unat b"
proof -
  obtain p k where p: "unat b = off + p * 4096" "allocated (sa_pages s) p = Some k" "so_bucket_page_count ob = 2 ^ k"
    using bo o by (auto elim!: bucket_okE)
  show "unat b + nat (so_bucket_page_count ob) * 4096 \<le> 2 ^ 64" "0 < unat b"
    using bucket_range [OF heap_okD(1,2) [OF ok] p(1,2)] p(3) by (simp_all add: nat_power_eq)
qed

lemma block_order: "obj_shape ob \<Longrightarrow> \<exists>k\<le>15. so_bucket_page_count ob = 2 ^ k"
  by (simp add: obj_shape_def)

lemma new_blocks_apart:
  assumes ok: "heap_ok off s F P" and pg: "palloc_ok pages'" "pfn_limit pages' = pfn_limit (sa_pages s)"
      "allocated (sa_pages s) p = None" "allocated pages' = (allocated (sa_pages s))(p \<mapsto> k)"
    and new: "unat b = off + p * 4096" "obj_shape ob" "so_bucket_page_count ob = 2 ^ k" "x \<in> bucket_blocks ob b"
    and old: "sa_buckets s b' = Some bk'" "sa_objs s (sb_obj bk') = Some ob'"
  shows "x \<notin> bucket_blocks ob' b'"
proof
  assume x': "x \<in> bucket_blocks ob' b'"
  obtain p' k' where o: "unat b' = off + p' * 4096" "allocated (sa_pages s) p' = Some k'" "so_bucket_page_count ob' = 2 ^ k'"
    using heap_okD(4) [OF ok old(1)] old(2) by (auto elim!: bucket_okE)
  have neq: "p \<noteq> p'" using o(2) pg(3) by auto
  then have al: "allocated pages' p = Some k" "allocated pages' p' = Some k'" using pg(4) o(2) by simp_all
  have lim: "off + pfn_limit pages' * 4096 \<le> 2 ^ 64" using heap_okD(2) [OF ok] pg(2) by simp
  have fit: "unat b + nat (so_bucket_page_count ob) * 4096 \<le> 2 ^ 64" "0 < unat b"
    using bucket_range [OF pg(1) lim new(1) al(1)] new(3) by (simp_all add: nat_power_eq)
  have shape': "obj_shape ob'" using heap_okD(3) [OF ok old(2)] by blast
  have "unat b + 48 \<le> unat x" "unat x + unat (so_block_size ob) \<le> unat b + 2 ^ k * 4096"
    using block_in_bucket(1,2) [OF new(2,4) fit] new(3) by (simp_all add: nat_power_eq)
  moreover have "unat b' + 48 \<le> unat x" "unat x + unat (so_block_size ob') \<le> unat b' + 2 ^ k' * 4096"
    using block_in_bucket(1,2) [OF shape' x' bucket_fits [OF ok heap_okD(4) [OF ok old(1)] old(2)]] o(3) by (simp_all add: nat_power_eq)
  ultimately show False using bucket_pages_apart [OF pg(1) al neq new(1) o(1)] by linarith
qed

text \<open>A new bucket beside the old ones.\<close>

lemma heap_ok_new_bucket:
  assumes ok: "heap_ok off s F P" and ob: "sa_objs s obj = Some ob"
    and pg: "palloc_ok pages'" "pfn_limit pages' = pfn_limit (sa_pages s)"
      "allocated (sa_pages s) p = None" "allocated pages' = (allocated (sa_pages s))(p \<mapsto> k)"
    and b: "unat b = off + p * 4096" "so_bucket_page_count ob = 2 ^ k" "sa_buckets s b = None"
    and s': "s' = s\<lparr>sa_pages := pages', sa_buckets := (sa_buckets s)(b \<mapsto> bk), sa_blocks := B, sa_objs := (sa_objs s)(obj \<mapsto> ob\<lparr>so_num_palloc_pages := v\<rparr>)\<rparr>"
    and B: "\<And>x. x \<notin> bucket_blocks ob b \<Longrightarrow> B x = sa_blocks s x" and new: "bucket_ok off s' b bk xs"
  shows "heap_ok off s' (F(b := xs)) P"
proof -
  have shape: "obj_shape ob" using heap_okD(3) [OF ok ob] by blast
  have old: "bucket_ok off s' b' bk' (F b')" if a: "sa_buckets s b' = Some bk'" for b' bk'
    using heap_okD(4) [OF ok a]
  proof (rule bucket_ok_frame)
    fix ob' x assume "sa_objs s (sb_obj bk') = Some ob'" "x \<in> bucket_blocks ob' b'"
    then have "x \<notin> bucket_blocks ob b" using new_blocks_apart [OF ok pg b(1) shape b(2) _ a] by blast
    then show "sa_blocks s' x = sa_blocks s x" using B by (simp add: s')
  next
    fix q j assume "allocated (sa_pages s) q = Some j"
    then show "allocated (sa_pages s') q = Some j" using pg(3,4) by (auto simp: s')
  qed (use ob in \<open>auto simp: s' shape_fields_def\<close>)
  have notin: "b \<notin> set (P obj')" for obj' using heap_okD(5) [OF ok, of b obj'] b(3) by auto
  have ob_new: "obj_shape (ob\<lparr>so_num_palloc_pages := v\<rparr>) = obj_shape ob"
    by (rule shape_cong [THEN conjunct1]) (simp add: shape_fields_def)
  show ?thesis
    unfolding heap_ok_def
  proof (intro conjI allI impI)
    fix obj' ob' assume a: "sa_objs s' obj' = Some ob'"
    then show "obj_shape ob'" "dseg (sa_buckets s') 0 (so_partial_next ob') (P obj') 0" "distinct (P obj')"
        "so_partial_count ob' = of_nat (length (P obj'))"
      using heap_okD(3) [OF ok, of obj'] ob notin ob_new by (auto simp: s' split: if_splits)
  next
    fix b' bk' assume "sa_buckets s' b' = Some bk'"
    then show "bucket_ok off s' b' bk' ((F(b := xs)) b')" using old new by (auto simp: s' split: if_splits)
  next
    fix obj' b' assume "b' \<in> set (P obj')"
    then show "\<exists>bk. sa_buckets s' b' = Some bk \<and> sb_obj bk = obj'" using heap_okD(5) [OF ok, of b' obj'] notin by (auto simp: s')
  qed (use pg(1,2) heap_okD(2) [OF ok] in \<open>simp_all add: s'\<close>)
qed

lemma fresh_bucket:
  assumes ok: "heap_ok off s F P" and p: "allocated (sa_pages s) p = None" "unat b = off + p * 4096"
  shows "sa_buckets s b = None"
proof (cases "sa_buckets s b")
  case (Some bk)
  obtain q j where "unat b = off + q * 4096" "allocated (sa_pages s) q = Some j" using heap_okD(4) [OF ok Some] by (rule bucket_okE)
  then show ?thesis using p by simp
qed

lemma alloc_bucket_ok:
  assumes ok: "heap_ok off s F P" and map: "direct_map off to_ptr to_paddr (sa_pages s)" and ob: "sa_objs s obj = Some ob"
  shows "palloc_ptr to_ptr (so_bucket_page_count ob) (sa_pages s) = Inl Panic \<and> alloc_bucket to_ptr obj s = Inl Panic \<or>
    (\<exists>s' b bk xs pages' B. alloc_bucket to_ptr obj s = Inr (s', b) \<and> b \<noteq> 0 \<and> sa_buckets s b = None \<and>
       s' = s\<lparr>sa_pages := pages', sa_buckets := (sa_buckets s)(b \<mapsto> bk), sa_blocks := B,
              sa_objs := (sa_objs s)(obj \<mapsto> ob\<lparr>so_num_palloc_pages := so_num_palloc_pages ob + of_int (so_bucket_page_count ob)\<rparr>)\<rparr> \<and>
       sb_obj bk = obj \<and> sb_entry_count bk = so_bucket_block_count ob \<and> sb_avail_count bk = so_bucket_block_count ob \<and>
       pfn_limit pages' = pfn_limit (sa_pages s) \<and> heap_ok off s' (F(b := xs)) P \<and> set xs = bucket_blocks ob b \<and>
       length xs = nat (so_bucket_block_count ob))"
proof -
  have shape: "obj_shape ob" using heap_okD(3) [OF ok ob] by blast
  then obtain k where k: "k \<le> 15" "so_bucket_page_count ob = 2 ^ k" using block_order by blast
  consider "palloc_ptr to_ptr (2 ^ k) (sa_pages s) = Inl Panic" | pages' p b where "palloc_ptr to_ptr (2 ^ k) (sa_pages s) = Inr (pages', b)"
       "palloc_ok pages'" "pfn_limit pages' = pfn_limit (sa_pages s)" "allocated (sa_pages s) p = None"
       "allocated pages' = (allocated (sa_pages s))(p \<mapsto> k)" "unat b = off + p * 4096" "b \<noteq> 0"
    using palloc_ptr_spec [OF heap_okD(1) [OF ok] map k(1)] by blast
  then show ?thesis
  proof cases
    case 1
    then show ?thesis using ob k(2) by (simp add: alloc_bucket_def)
  next
    case (2 pages' p b)
    have fresh: "sa_buckets s b = None" using fresh_bucket [OF ok 2(4,6)] .
    have lim: "off + pfn_limit pages' * 4096 \<le> 2 ^ 64" and al: "allocated pages' p = Some k" using heap_okD(2) [OF ok] 2(3,5) by simp_all
    have fit: "unat b + nat (so_bucket_page_count ob) * 4096 \<le> 2 ^ 64" "0 < unat b"
      using bucket_range [OF 2(2) lim 2(6) al] k(2) by (simp_all add: nat_power_eq)
    define n where "n = nat (so_bucket_block_count ob)"
    have bb: "bucket_blocks ob b = block_at ob b ` {..<n}" by (simp add: bucket_blocks_def n_def)
    define bk0 where "bk0 = \<lparr>sb_prev = 0, sb_next = 0, sb_state = bucket_empty, sb_obj = obj,
      sb_entry_count = so_bucket_block_count ob, sb_avail_count = so_bucket_block_count ob, sb_block = 0\<rparr>"
    define ob' where "ob' = ob\<lparr>so_num_palloc_pages := so_num_palloc_pages ob + of_int (so_bucket_page_count ob)\<rparr>"
    define s1 where "s1 = s\<lparr>sa_pages := pages', sa_objs := (sa_objs s)(obj \<mapsto> ob'), sa_buckets := (sa_buckets s)(b \<mapsto> bk0)\<rparr>"
    have inj: "i = j" if "i < n" "j < n" "block_at ob b i = block_at ob b j" for i j
      using block_at_neq [OF shape _ _ fit that(3)] that(1,2) by (simp add: n_def)
    have nn: "block_at ob b i \<noteq> 0" if "i < n" for i using block_in_bucket(3) [OF shape _ fit] that by (simp add: bb)
    have s1b: "sa_buckets s1 b = Some bk0" "sb_block bk0 = 0" by (simp_all add: s1_def bk0_def)
    obtain B h where i: "init_blocks n ob b s1 = Inr (s1\<lparr>sa_buckets := (sa_buckets s1)(b \<mapsto> bk0\<lparr>sb_block := h\<rparr>), sa_blocks := B\<rparr>)"
        "chain B h (map (block_at ob b) (rev [0..<n]))" "\<forall>x. x \<notin> block_at ob b ` {..<n} \<longrightarrow> B x = sa_blocks s1 x"
        "\<forall>x\<in>block_at ob b ` {..<n}. \<exists>mb. B x = Some mb \<and> mb_bucket mb = b"
      using init_blocks_spec [OF s1b inj nn] by blast
    define xs where "xs = map (block_at ob b) (rev [0..<n])"
    define bk where "bk = bk0\<lparr>sb_block := h\<rparr>"
    define s' where "s' = s\<lparr>sa_pages := pages', sa_buckets := (sa_buckets s)(b \<mapsto> bk), sa_blocks := B, sa_objs := (sa_objs s)(obj \<mapsto> ob')\<rparr>"
    have "s1\<lparr>sa_buckets := (sa_buckets s1)(b \<mapsto> bk0\<lparr>sb_block := h\<rparr>), sa_blocks := B\<rparr> = s'" by (simp add: s1_def s'_def bk_def)
    then have run: "alloc_bucket to_ptr obj s = Inr (s', b)"
      using ob k(2) 2(1,7) i(1) by (simp add: alloc_bucket_def Let_def upd_obj_def s1_def bk0_def n_def ob'_def)
    have xs: "set xs = bucket_blocks ob b" "length xs = n" "distinct xs"
      using inj by (auto simp: xs_def bb distinct_map inj_on_def lessThan_atLeast0)
    have "bucket_blocks ob' = bucket_blocks ob" "0 \<le> so_bucket_block_count ob"
      using shape_cong [of ob' ob] shape by (simp_all add: ob'_def shape_fields_def obj_shape_def)
    then have new: "bucket_ok off s' b bk xs"
      unfolding bucket_ok_def using xs i(2,4) 2(6) al k(2)
      by (intro exI [of _ ob'] exI [of _ p] exI [of _ k]) (simp add: s'_def bk_def bk0_def n_def xs_def bb ob'_def)
    have "heap_ok off s' (F(b := xs)) P"
      by (rule heap_ok_new_bucket [where B = B and v = "so_num_palloc_pages ob + of_int (so_bucket_page_count ob)", OF ok ob 2(2-6) k(2) fresh _ _ new])
        (use i(3) in \<open>simp_all add: s'_def ob'_def s1_def bb\<close>)
    then show ?thesis using run 2(3,7) fresh xs
      by (intro disjI2 exI [of _ s'] exI [of _ b] exI [of _ bk] exI [of _ xs] exI [of _ pages'] exI [of _ B])
        (simp add: bk_def bk0_def n_def s'_def ob'_def)
  qed
qed

lemma free_bucket_ok:
  assumes ok: "heap_ok off s F P" and map: "direct_map off to_ptr to_paddr (sa_pages s)"
    and b: "sa_buckets s b = Some bk" "sb_obj bk = obj" "\<And>obj. b \<notin> set (P obj)" and ob: "sa_objs s obj = Some ob"
  shows "\<exists>pages' v. free_bucket to_paddr obj b s = Inr (s\<lparr>sa_pages := pages', sa_buckets := (sa_buckets s)(b := None), sa_objs := (sa_objs s)(obj \<mapsto> ob\<lparr>so_num_palloc_pages := v\<rparr>)\<rparr>) \<and>
    pfn_limit pages' = pfn_limit (sa_pages s) \<and>
    heap_ok off (s\<lparr>sa_pages := pages', sa_buckets := (sa_buckets s)(b := None), sa_objs := (sa_objs s)(obj \<mapsto> ob\<lparr>so_num_palloc_pages := v\<rparr>)\<rparr>) F P"
proof -
  obtain p k where p: "unat b = off + p * 4096" "allocated (sa_pages s) p = Some k" using heap_okD(4) [OF ok b(1)] by (rule bucket_okE)
  obtain pages' where pg: "pfree_ptr to_paddr b (sa_pages s) = Inr (pages', 2 ^ k)" "palloc_ok pages'" "pfn_limit pages' = pfn_limit (sa_pages s)"
      "allocated pages' = (allocated (sa_pages s))(p := None)"
    using pfree_ptr_spec [OF heap_okD(1) [OF ok] map p(2,1)] by blast
  define v where "v = so_num_palloc_pages ob - of_int (so_bucket_page_count ob)"
  define s' where "s' = s\<lparr>sa_pages := pages', sa_buckets := (sa_buckets s)(b := None), sa_objs := (sa_objs s)(obj \<mapsto> ob\<lparr>so_num_palloc_pages := v\<rparr>)\<rparr>"
  have run: "free_bucket to_paddr obj b s = Inr s'"
    using pg(1) ob by (simp add: free_bucket_def upd_obj_def s'_def v_def)
  have old: "bucket_ok off s' b' bk' (F b')" if a: "sa_buckets s b' = Some bk'" "b' \<noteq> b" for b' bk'
    using heap_okD(4) [OF ok a(1)]
  proof (rule bucket_ok_frame)
    fix q j assume q: "allocated (sa_pages s) q = Some j" "unat b' = off + q * 4096"
    have "q \<noteq> p" using q(2) p(1) a(2) by (auto simp: word_unat_eq_iff)
    then show "allocated (sa_pages s') q = Some j" using q(1) pg(4) by (simp add: s'_def)
  qed (use ob in \<open>auto simp: s'_def shape_fields_def\<close>)
  have ob_new: "obj_shape (ob\<lparr>so_num_palloc_pages := v\<rparr>) = obj_shape ob"
    by (rule shape_cong [THEN conjunct1]) (simp add: shape_fields_def)
  have "heap_ok off s' F P"
    unfolding heap_ok_def
  proof (intro conjI allI impI)
    fix obj' ob' assume a: "sa_objs s' obj' = Some ob'"
    then show "obj_shape ob'" "dseg (sa_buckets s') 0 (so_partial_next ob') (P obj') 0" "distinct (P obj')"
        "so_partial_count ob' = of_nat (length (P obj'))"
      using heap_okD(3) [OF ok, of obj'] ob b(3) ob_new by (auto simp: s'_def split: if_splits)
  next
    fix b' bk' assume "sa_buckets s' b' = Some bk'"
    then show "bucket_ok off s' b' bk' (F b')" using old by (auto simp: s'_def split: if_splits)
  next
    fix obj' b' assume "b' \<in> set (P obj')"
    then show "\<exists>bk. sa_buckets s' b' = Some bk \<and> sb_obj bk = obj'" using heap_okD(5) [OF ok, of b' obj'] b(3) by (auto simp: s'_def)
  qed (use pg(2,3) heap_okD(2) [OF ok] in \<open>simp_all add: s'_def\<close>)
  then show ?thesis using run pg(3) unfolding s'_def by blast
qed

section \<open>Live objects\<close>

text \<open>
  The blocks of an object type that are not in the free list of their bucket. \<open>walk_blocks\<close> reads the free
  list off the state, so that the set of live objects, the addresses handed out and not yet given back,
  is a function of the state.
\<close>

primrec walk_blocks :: "(ulong \<rightharpoonup> salloc_magic_block) \<Rightarrow> nat \<Rightarrow> ulong \<Rightarrow> ulong list" where
  "walk_blocks B 0 p = []"
| "walk_blocks B (Suc n) p = (case B p of None \<Rightarrow> [] | Some mb \<Rightarrow> p # walk_blocks B n (mb_next mb))"

definition free_blocks :: "salloc_state \<Rightarrow> ulong \<Rightarrow> ulong list" where
  "free_blocks s b = (case sa_buckets s b of None \<Rightarrow> [] | Some bk \<Rightarrow> walk_blocks (sa_blocks s) (nat (sb_avail_count bk)) (sb_block bk))"

definition used_in :: "salloc_state \<Rightarrow> (ulong \<Rightarrow> ulong list) \<Rightarrow> ulong \<Rightarrow> ulong \<Rightarrow> ulong set" where
  "used_in s F obj b = (case (sa_buckets s b, sa_objs s obj) of
     (Some bk, Some ob) \<Rightarrow> (if sb_obj bk = obj then bucket_blocks ob b - set (F b) else {}) | _ \<Rightarrow> {})"

definition used_blocks :: "salloc_state \<Rightarrow> (ulong \<Rightarrow> ulong list) \<Rightarrow> ulong \<Rightarrow> ulong set" where
  "used_blocks s F obj = (\<Union>b. used_in s F obj b)"

definition salloc_live :: "salloc_state \<Rightarrow> ulong \<Rightarrow> ulong set" where
  "salloc_live s obj = (\<lambda>x. x + magic_block_size) ` used_blocks s (free_blocks s) obj"

lemma walk_chain: "chain B p xs \<Longrightarrow> walk_blocks B (length xs) p = xs"
  by (induction xs arbitrary: p) auto

lemma free_blocks_eq:
  assumes "heap_ok off s F P" "sa_buckets s b = Some bk"
  shows "free_blocks s b = F b"
proof -
  have "chain (sa_blocks s) (sb_block bk) (F b)" "sb_avail_count bk = int (length (F b))"
    using heap_okD(4) [OF assms] by (auto elim: bucket_okE)
  then show ?thesis using walk_chain assms(2) by (simp add: free_blocks_def)
qed

lemma used_blocks_free:
  assumes ok: "heap_ok off s F P"
  shows "used_blocks s (free_blocks s) = used_blocks s F"
proof -
  have "used_in s (free_blocks s) obj b = used_in s F obj b" for obj b
    using free_blocks_eq [OF ok, of b] by (auto simp: used_in_def split: option.splits)
  then show ?thesis by (simp add: used_blocks_def fun_eq_iff)
qed

lemma used_in_frame:
  assumes "map_option sb_obj (sa_buckets s' b) = map_option sb_obj (sa_buckets s b)"
    "map_option shape_fields (sa_objs s' obj) = map_option shape_fields (sa_objs s obj)"
  shows "used_in s' F obj b = used_in s F obj b"
proof (cases "sa_buckets s b"; cases "sa_objs s obj")
  fix bk ob assume a: "sa_buckets s b = Some bk" "sa_objs s obj = Some ob"
  then obtain bk' ob' where "sa_buckets s' b = Some bk'" "sa_objs s' obj = Some ob'" "sb_obj bk' = sb_obj bk" "shape_fields ob' = shape_fields ob"
    using assms by auto
  then show ?thesis using a shape_cong [of ob' ob] by (simp add: used_in_def)
qed (use assms in \<open>auto simp: used_in_def split: option.splits\<close>)

lemma used_blocks_frame:
  assumes "\<And>b. map_option sb_obj (sa_buckets s' b) = map_option sb_obj (sa_buckets s b)"
    "\<And>obj. map_option shape_fields (sa_objs s' obj) = map_option shape_fields (sa_objs s obj)"
  shows "used_blocks s' F = used_blocks s F"
proof -
  have "used_in s' F obj b = used_in s F obj b" for obj b by (rule used_in_frame) (rule assms)+
  then show ?thesis by (simp add: used_blocks_def fun_eq_iff)
qed

lemma used_blocks_relinked:
  assumes "relinked s s'"
  shows "used_blocks s' F = used_blocks s F"
proof (rule used_blocks_frame)
  fix b show "map_option sb_obj (sa_buckets s' b) = map_option sb_obj (sa_buckets s b)"
    using relinkedD(1,3) [OF assms, of b] by (cases "sa_buckets s b"; cases "sa_buckets s' b") (auto simp: content_def)
next
  fix obj show "map_option shape_fields (sa_objs s' obj) = map_option shape_fields (sa_objs s obj)"
    using relinkedD(2,4) [OF assms, of obj] by (cases "sa_objs s obj"; cases "sa_objs s' obj") (auto simp: obj_info_def)
qed

lemma used_in_block: "x \<in> used_in s F obj b \<longleftrightarrow> (\<exists>bk ob. sa_buckets s b = Some bk \<and> sb_obj bk = obj \<and> sa_objs s obj = Some ob \<and>
    x \<in> bucket_blocks ob b \<and> x \<notin> set (F b))"
  by (auto simp: used_in_def split: option.splits)

lemma used_pop:
  assumes ok: "heap_ok off s F P" and b: "sa_buckets s b = Some bk" "F b = x # xs"
    and s': "\<And>b. map_option sb_obj (sa_buckets s' b) = map_option sb_obj (sa_buckets s b)" "sa_objs s' = sa_objs s"
  shows "used_blocks s' (F(b := xs)) = (used_blocks s F)(sb_obj bk := insert x (used_blocks s F (sb_obj bk)))"
    "x \<notin> used_blocks s F obj'"
proof -
  obtain ob where o: "sa_objs s (sb_obj bk) = Some ob" "distinct (x # xs)" "set (x # xs) \<subseteq> bucket_blocks ob b"
    using heap_okD(4) [OF ok b(1)] unfolding b(2) by (rule bucket_okE)
  have "used_in s (F(b := xs)) obj b' = used_in s F obj b' \<union> (if obj = sb_obj bk \<and> b' = b then {x} else {})" for obj b'
    using b o by (cases "b' = b") (auto simp: used_in_def split: option.splits)
  then show "used_blocks s' (F(b := xs)) = (used_blocks s F)(sb_obj bk := insert x (used_blocks s F (sb_obj bk)))"
    using used_in_frame [of s' _ s] s' by (auto simp: used_blocks_def fun_eq_iff split: if_splits)
  show "x \<notin> used_blocks s F obj'"
  proof
    assume "x \<in> used_blocks s F obj'"
    then obtain b' bk' ob' where u: "sa_buckets s b' = Some bk'" "sa_objs s (sb_obj bk') = Some ob'" "x \<in> bucket_blocks ob' b'" "x \<notin> set (F b')"
      by (auto simp: used_blocks_def used_in_block)
    then have "b' \<noteq> b" using b(2) by auto
    then show False using blocks_apart [OF ok b(1) u(1) _ o(1) u(2)] u(3) o(3) by auto
  qed
qed

lemma used_push:
  assumes ok: "heap_ok off s F P" and b: "sa_buckets s b = Some bk" "x \<in> used_in s F (sb_obj bk) b"
    and s': "\<And>b. map_option sb_obj (sa_buckets s' b) = map_option sb_obj (sa_buckets s b)" "sa_objs s' = sa_objs s"
  shows "used_blocks s' (F(b := x # F b)) = (used_blocks s F)(sb_obj bk := used_blocks s F (sb_obj bk) - {x})"
proof -
  obtain ob where o: "sa_objs s (sb_obj bk) = Some ob" "x \<in> bucket_blocks ob b" using b by (auto simp: used_in_block)
  have "x \<notin> used_in s F obj b'" if "b' \<noteq> b" for obj b'
    using blocks_apart [OF ok b(1) _ _ o(1)] that o(2) by (auto simp: used_in_block)
  then have "used_in s (F(b := x # F b)) obj b' = (if obj = sb_obj bk then used_in s F obj b' - {x} else used_in s F obj b')" for obj b'
    using b(1) by (cases "b' = b") (auto simp: used_in_def split: option.splits)
  then show ?thesis
    using used_in_frame [of s' _ s] s' by (auto simp: used_blocks_def fun_eq_iff split: if_splits)
qed

section \<open>Locks\<close>

text \<open>Inside an operation at most the lock of its object type is held.\<close>

definition only_locked :: "salloc_state \<Rightarrow> ulong \<Rightarrow> bool" where
  "only_locked s obj \<longleftrightarrow> (\<forall>obj' ob. sa_objs s obj' = Some ob \<longrightarrow> so_locked ob \<longrightarrow> obj' = obj)"

lemma only_locked_frame: "(\<And>obj'. obj' \<noteq> obj \<Longrightarrow> sa_objs s' obj' = sa_objs s obj') \<Longrightarrow> only_locked s obj \<Longrightarrow> only_locked s' obj"
  unfolding only_locked_def by metis

lemma only_locked_relinked: "relinked s s' \<Longrightarrow> only_locked s obj \<Longrightarrow> only_locked s' obj"
  unfolding only_locked_def using relinkedD(4) by (fastforce simp: obj_info_def)

lemma relinked_trans: "relinked s s' \<Longrightarrow> relinked s' s'' \<Longrightarrow> relinked s s''"
  by (simp add: relinked_def)

lemma relinked_state [simp]: "relinked s (upd_bucket b (\<lambda>bk. bk\<lparr>sb_state := st\<rparr>) s)"
  by (auto simp: relinked_def upd_bucket_def option.map_comp comp_def)

lemma heap_ok_state:
  assumes ok: "heap_ok off s F P"
  shows "heap_ok off (upd_bucket b (\<lambda>bk. bk\<lparr>sb_state := st\<rparr>) s) F P"
proof (rule heap_ok_relinked [OF ok relinked_state])
  have "dseg (sa_buckets (upd_bucket b (\<lambda>bk. bk\<lparr>sb_state := st\<rparr>) s)) prev p xs q \<longleftrightarrow> dseg (sa_buckets s) prev p xs q" for prev p xs q
    by (rule dseg_cong) (auto simp: upd_bucket_def links_def option.map_comp comp_def)
  moreover have "sa_objs (upd_bucket b (\<lambda>bk. bk\<lparr>sb_state := st\<rparr>) s) = sa_objs s" by (simp add: upd_bucket_def)
  ultimately show "sa_objs (upd_bucket b (\<lambda>bk. bk\<lparr>sb_state := st\<rparr>) s) obj = Some ob' \<Longrightarrow>
      dseg (sa_buckets (upd_bucket b (\<lambda>bk. bk\<lparr>sb_state := st\<rparr>) s)) 0 (so_partial_next ob') (P obj) 0 \<and> distinct (P obj) \<and>
      so_partial_count ob' = of_nat (length (P obj))" for obj ob'
    using heap_okD(3) [OF ok] by simp
qed (rule heap_okD(5) [OF ok])

lemma listed_relinked: "relinked s s' \<Longrightarrow> listed s F P b \<Longrightarrow> listed s' F P b"
  unfolding listed_def using relinkedD(3) [of s s' b] by (fastforce simp: content_def)

lemma partial_count_zero:
  assumes "distinct xs" "0 \<notin> set (xs :: ulong list)"
  shows "(of_nat (length xs) :: ulong) = 0 \<longleftrightarrow> xs = []"
proof -
  have "unat ` set xs \<subseteq> {1..<2 ^ 64}"
  proof
    fix n assume "n \<in> unat ` set xs"
    then obtain x where x: "x \<in> set xs" "n = unat x" by blast
    then have "x \<noteq> 0" using assms(2) by auto
    then have "unat x \<noteq> 0" by (simp add: unat_eq_0)
    then have "1 \<le> n \<and> n < 2 ^ 64" using x(2) unsigned_less [of x] by simp
    then show "n \<in> {1..<2 ^ 64}" by (simp only: atLeastLessThan_iff)
  qed
  then have "card (unat ` set xs) \<le> card {1..<2 ^ 64 :: nat}" by (rule card_mono [OF finite_atLeastLessThan])
  moreover have "inj_on unat (set xs)" by (simp add: inj_on_def word_unat_eq_iff)
  ultimately have "length xs \<le> 2 ^ 64 - 1" using distinct_card [OF assms(1)] by (simp only: card_image card_atLeastLessThan)
  then have "unat (of_nat (length xs) :: ulong) = length xs" by (simp add: unat_of_nat)
  then show ?thesis using unat_eq_0 [of "of_nat (length xs) :: ulong"] by simp
qed

section \<open>Allocation\<close>

text \<open>The bucket a block is taken from: the first partial one, or a new one.\<close>

definition usable :: "nat \<Rightarrow> salloc_state \<Rightarrow> (ulong \<Rightarrow> ulong list) \<Rightarrow> (ulong \<Rightarrow> ulong list) \<Rightarrow> ulong \<Rightarrow> ulong \<Rightarrow> bool" where
  "usable off s F P obj b \<longleftrightarrow> heap_ok off s F P \<and> only_locked s obj \<and> (\<forall>b'. b' \<noteq> b \<longrightarrow> listed s F P b') \<and> F b \<noteq> [] \<and>
     (\<exists>bk. sa_buckets s b = Some bk \<and> sb_obj bk = obj \<and>
       (b \<in> set (P obj) \<and> int (length (F b)) < sb_entry_count bk \<or> b \<notin> set (P obj) \<and> int (length (F b)) = sb_entry_count bk))"

lemma first_partial_usable:
  assumes ok: "heap_ok off s F P" and ls: "\<And>b. listed s F P b" and lock: "only_locked s obj" and ob: "sa_objs s obj = Some ob"
    and count: "so_partial_count ob \<noteq> 0"
  shows "usable off s F P obj (so_partial_next ob)"
proof -
  note o = heap_okD(3) [OF ok ob]
  have "P obj \<noteq> []" using o count by auto
  then have b: "so_partial_next ob \<in> set (P obj)" using o dseg_hd [of "sa_buckets s" 0 "so_partial_next ob" "P obj"] by (cases "P obj") auto
  then obtain bk where bk: "sa_buckets s (so_partial_next ob) = Some bk" "sb_obj bk = obj" using heap_okD(5) [OF ok] by blast
  then show ?thesis using ls [of "so_partial_next ob"] ls ok lock b unfolding usable_def listed_def by auto
qed

lemma obtain_bucket:
  assumes ok: "heap_ok off s F P" and ls: "\<And>b. listed s F P b" and lock: "only_locked s obj" and ob: "sa_objs s obj = Some ob"
    and map: "direct_map off to_ptr to_paddr (sa_pages s)"
  defines "r \<equiv> (if so_partial_count ob = 0 then alloc_bucket to_ptr obj s else Inr (s, so_partial_next ob))"
  shows "so_partial_count ob = 0 \<and> palloc_ptr to_ptr (so_bucket_page_count ob) (sa_pages s) = Inl Panic \<and> r = Inl Panic \<or>
   (\<exists>s' b F' v. r = Inr (s', b) \<and> b \<noteq> 0 \<and> usable off s' F' P obj b \<and> used_blocks s' F' = used_blocks s F \<and>
    pfn_limit (sa_pages s') = pfn_limit (sa_pages s) \<and> sa_calls s' = sa_calls s \<and> sa_objs s' = (sa_objs s)(obj \<mapsto> ob\<lparr>so_num_palloc_pages := v\<rparr>))"
proof (cases "so_partial_count ob = 0")
  case False
  have u: "usable off s F P obj (so_partial_next ob)" by (rule first_partial_usable [OF ok ls lock ob False])
  then have "so_partial_next ob \<noteq> 0" using bucket_not_null [OF ok] unfolding usable_def by blast
  then have "r = Inr (s, so_partial_next ob) \<and> so_partial_next ob \<noteq> 0 \<and> usable off s F P obj (so_partial_next ob) \<and> used_blocks s F = used_blocks s F \<and>
    pfn_limit (sa_pages s) = pfn_limit (sa_pages s) \<and> sa_calls s = sa_calls s \<and> sa_objs s = (sa_objs s)(obj \<mapsto> ob\<lparr>so_num_palloc_pages := so_num_palloc_pages ob\<rparr>)"
    using u False ob by (auto simp: r_def)
  then show ?thesis by blast
next
  case True
  define v where "v = so_num_palloc_pages ob + of_int (so_bucket_page_count ob)"
  consider "palloc_ptr to_ptr (so_bucket_page_count ob) (sa_pages s) = Inl Panic" "r = Inl Panic" | s' b bk xs pages' B where "r = Inr (s', b)" "b \<noteq> 0" "sa_buckets s b = None"
       "s' = s\<lparr>sa_pages := pages', sa_buckets := (sa_buckets s)(b \<mapsto> bk), sa_blocks := B, sa_objs := (sa_objs s)(obj \<mapsto> ob\<lparr>so_num_palloc_pages := v\<rparr>)\<rparr>"
       "sb_obj bk = obj" "sb_entry_count bk = so_bucket_block_count ob" "pfn_limit pages' = pfn_limit (sa_pages s)"
       "heap_ok off s' (F(b := xs)) P" "set xs = bucket_blocks ob b" "length xs = nat (so_bucket_block_count ob)"
    using alloc_bucket_ok [OF ok map ob] True unfolding r_def v_def by auto
  then show ?thesis
  proof cases
    case (2 s' b bk xs pages' B)
    have cnt: "2 \<le> so_bucket_block_count ob" using heap_okD(3) [OF ok ob] by (simp add: obj_shape_def)
    have nb: "b \<notin> set (P obj')" for obj' using heap_okD(5) [OF ok, of b obj'] 2(3) by auto
    have "listed s' (F(b := xs)) P b'" if "b' \<noteq> b" for b' using ls [of b'] that by (auto simp: listed_def 2(4))
    moreover have "only_locked s' obj" by (rule only_locked_frame [OF _ lock]) (simp add: 2(4))
    moreover have "xs \<noteq> []" "int (length xs) = sb_entry_count bk" using 2(6,10) cnt by auto
    moreover have "sa_buckets s' b = Some bk" by (simp add: 2(4))
    ultimately have u: "usable off s' (F(b := xs)) P obj b" using nb 2(5,8) by (simp add: usable_def)
    have blks: "bucket_blocks (ob\<lparr>so_num_palloc_pages := v\<rparr>) = bucket_blocks ob" by (simp add: bucket_blocks_def block_at_def fun_eq_iff)
    have "used_in s' (F(b := xs)) obj' b' = used_in s F obj' b'" for obj' b'
    proof (cases "b' = b")
      case True
      then show ?thesis using 2(3,5,9) ob blks by (auto simp: used_in_def 2(4) split: option.splits)
    next
      case False
      then show ?thesis using ob blks by (auto simp: used_in_def 2(4) split: option.splits)
    qed
    then have "used_blocks s' (F(b := xs)) = used_blocks s F" by (simp add: used_blocks_def fun_eq_iff)
    moreover have "pfn_limit (sa_pages s') = pfn_limit (sa_pages s)" "sa_calls s' = sa_calls s"
        "sa_objs s' = (sa_objs s)(obj \<mapsto> ob\<lparr>so_num_palloc_pages := v\<rparr>)" using 2(4,7) by simp_all
    ultimately show ?thesis using u 2(1,2) by blast
  qed (use True in simp)
qed

text \<open>The bucket joins or leaves the list of partial buckets.\<close>

lemma settle_taken:
  assumes ok: "heap_ok off s F P" and bk: "sa_buckets s b = Some bk" "sb_obj bk = obj" and ob: "sa_objs s obj = Some ob" and two: "2 \<le> sb_entry_count bk"
    and c: "b \<in> set (P obj) \<and> int (length (F b)) + 1 < sb_entry_count bk \<or> b \<notin> set (P obj) \<and> int (length (F b)) + 1 = sb_entry_count bk"
    and ls: "\<forall>b'. b' \<noteq> b \<longrightarrow> listed s F P b'"
  shows "\<exists>s' P'. (if sb_avail_count bk = 0 then remove_bucket obj b (upd_bucket b (\<lambda>bk. bk\<lparr>sb_state := bucket_full\<rparr>) s)
       else if sb_avail_count bk = sb_entry_count bk - 1 then insert_bucket obj b (upd_bucket b (\<lambda>bk. bk\<lparr>sb_state := bucket_partial\<rparr>) s)
       else Inr s) = Inr s' \<and> heap_ok off s' F P' \<and> relinked s s' \<and> (\<forall>b. listed s' F P' b)"
proof -
  have av: "sb_avail_count bk = int (length (F b))" using heap_okD(4) [OF ok bk(1)] by (auto elim: bucket_okE)
  let ?u = "\<lambda>st. upd_bucket b (\<lambda>bk. bk\<lparr>sb_state := st\<rparr>) s"
  have u: "sa_objs (?u st) obj = Some ob" "sa_buckets (?u st) b = Some (bk\<lparr>sb_state := st\<rparr>)" for st using ob bk(1) by (simp_all add: upd_bucket_def)
  have step: "\<exists>s' P'. r = Inr s' \<and> heap_ok off s' F P' \<and> relinked s s' \<and> (\<forall>b. listed s' F P' b)"
    if r: "r = Inr s'" "heap_ok off s' F (P(obj := Q))" "relinked s s'" and Q: "\<And>b'. b' \<noteq> b \<Longrightarrow> b' \<in> set Q \<longleftrightarrow> b' \<in> set (P obj)" "b \<in> set Q \<longleftrightarrow> F b \<noteq> []" for r s' Q
  proof -
    have "listed s F (P(obj := Q)) b'" for b' using ls Q bk c by (cases "b' = b") (auto simp: listed_def)
    then show ?thesis using r listed_relinked by blast
  qed
  have "F b = [] \<Longrightarrow> b \<in> set (P obj)" using c two by auto
  then consider (full) "F b = []" "b \<in> set (P obj)" | (first) "F b \<noteq> []" "b \<notin> set (P obj)" | (other) "F b \<noteq> []" "b \<in> set (P obj)" by blast
  then show ?thesis
  proof cases
    case full
    obtain s' where s': "remove_bucket obj b (?u bucket_full) = Inr s'" "heap_ok off s' F (P(obj := remove1 b (P obj)))" "relinked (?u bucket_full) s'"
      using remove_bucket_ok [OF heap_ok_state [OF ok] u(1) full(2)] by blast
    have "distinct (P obj)" using heap_okD(3) [OF ok ob] by blast
    then show ?thesis using av full s'(1) by (intro step [OF _ s'(2) relinked_trans [OF relinked_state s'(3)]]) auto
  next
    case first
    obtain s' where s': "insert_bucket obj b (?u bucket_partial) = Inr s'" "heap_ok off s' F (P(obj := b # P obj))" "relinked (?u bucket_partial) s'"
      using insert_bucket_ok [OF heap_ok_state [OF ok] u _ first(2)] bk(2) by auto
    then show ?thesis using av first c by (intro step [OF _ s'(2) relinked_trans [OF relinked_state s'(3)]]) auto
  next
    case other
    have "relinked s s" by (simp add: relinked_def)
    then show ?thesis using av other c ok by (intro step [of _ s "P obj"]) auto
  qed
qed


lemma relinked_calls: "relinked s s' \<Longrightarrow> sa_calls s' = sa_calls s \<and> sa_pages s' = sa_pages s \<and> sa_blocks s' = sa_blocks s"
  by (simp add: relinked_def)

text \<open>Taking a block out of a usable bucket, from the pop to the end of the list operations.\<close>

lemma take_block:
  assumes us: "usable off s F P obj b" and ob: "sa_objs s obj = Some ob"
  shows "\<exists>bk mb s' F' P'. load_bucket s b = Inr bk \<and> load_block s (sb_block bk) = Inr mb \<and>
    (let s1 = set_block (sb_block bk) \<lparr>mb_bucket = b, mb_next = 0\<rparr> (upd_bucket b (\<lambda>bk. bk\<lparr>sb_block := mb_next mb, sb_avail_count := sb_avail_count bk - 1\<rparr>) s)
     in ebind (load_bucket s1 b) (\<lambda>bk. if sb_avail_count bk = 0 then remove_bucket obj b (upd_bucket b (\<lambda>bk. bk\<lparr>sb_state := bucket_full\<rparr>) s1)
       else if sb_avail_count bk = sb_entry_count bk - 1 then insert_bucket obj b (upd_bucket b (\<lambda>bk. bk\<lparr>sb_state := bucket_partial\<rparr>) s1)
       else Inr s1) = Inr s') \<and>
    sb_block bk \<in> bucket_blocks ob b \<and> heap_ok off s' F' P' \<and> (\<forall>b. listed s' F' P' b) \<and> only_locked s' obj \<and>
    used_blocks s' F' = (used_blocks s F)(obj := insert (sb_block bk) (used_blocks s F obj)) \<and> (\<forall>obj'. sb_block bk \<notin> used_blocks s F obj') \<and>
    sa_calls s' = sa_calls s \<and> sa_pages s' = sa_pages s"
proof -
  obtain bk where ok: "heap_ok off s F P" and lock: "only_locked s obj" and ls: "\<forall>b'. b' \<noteq> b \<longrightarrow> listed s F P b'" and F: "F b \<noteq> []"
      and bk: "sa_buckets s b = Some bk" "sb_obj bk = obj"
      "b \<in> set (P obj) \<and> int (length (F b)) < sb_entry_count bk \<or> b \<notin> set (P obj) \<and> int (length (F b)) = sb_entry_count bk"
    using us unfolding usable_def by blast
  obtain x xs where Fb: "F b = x # xs" using F by (cases "F b") auto
  obtain mb where mb: "sa_blocks s (sb_block bk) = Some mb" "x = sb_block bk" and
      h: "heap_ok off (set_block x \<lparr>mb_bucket = b, mb_next = 0\<rparr>
        (upd_bucket b (\<lambda>bk. bk\<lparr>sb_block := mb_next mb, sb_avail_count := sb_avail_count bk - 1\<rparr>) s)) (F(b := xs)) P"
    using pop_block_ok [OF ok bk(1) Fb] by blast
  define s1 where "s1 = set_block x \<lparr>mb_bucket = b, mb_next = 0\<rparr>
    (upd_bucket b (\<lambda>bk. bk\<lparr>sb_block := mb_next mb, sb_avail_count := sb_avail_count bk - 1\<rparr>) s)"
  define bk1 where "bk1 = bk\<lparr>sb_block := mb_next mb, sb_avail_count := sb_avail_count bk - 1\<rparr>"
  have ent: "sb_entry_count bk = so_bucket_block_count ob" "x \<in> bucket_blocks ob b"
    using heap_okD(4) [OF ok bk(1)] bk(2) ob Fb by (auto elim!: bucket_okE)
  have two: "2 \<le> sb_entry_count bk1" using heap_okD(3) [OF ok ob] ent(1) by (simp add: obj_shape_def bk1_def)
  have s1: "sa_buckets s1 = (sa_buckets s)(b \<mapsto> bk1)" "sa_objs s1 = sa_objs s" "sa_calls s1 = sa_calls s" "sa_pages s1 = sa_pages s"
    using bk(1) by (simp_all add: s1_def bk1_def set_block_def upd_bucket_def)
  then have b1: "sa_buckets s1 b = Some bk1" "sa_objs s1 obj = Some ob" "sb_obj bk1 = obj" using ob bk(2) by (simp_all add: bk1_def)
  have c1: "b \<in> set (P obj) \<and> int (length ((F(b := xs)) b)) + 1 < sb_entry_count bk1 \<or> b \<notin> set (P obj) \<and> int (length ((F(b := xs)) b)) + 1 = sb_entry_count bk1"
    using bk(3) Fb by (auto simp: bk1_def)
  have l1: "\<forall>b'. b' \<noteq> b \<longrightarrow> listed s1 (F(b := xs)) P b'" using ls by (simp add: listed_def s1(1))
  obtain s' P' where s': "(if sb_avail_count bk1 = 0 then remove_bucket obj b (upd_bucket b (\<lambda>bk. bk\<lparr>sb_state := bucket_full\<rparr>) s1)
       else if sb_avail_count bk1 = sb_entry_count bk1 - 1 then insert_bucket obj b (upd_bucket b (\<lambda>bk. bk\<lparr>sb_state := bucket_partial\<rparr>) s1)
       else Inr s1) = Inr s'" "heap_ok off s' (F(b := xs)) P'" "relinked s1 s'" "\<forall>c. listed s' (F(b := xs)) P' c"
    using settle_taken [OF h [folded s1_def] b1(1,3,2) two c1 l1] by blast
  have "only_locked s1 obj" by (rule only_locked_frame [OF _ lock]) (simp add: s1(2))
  then have "only_locked s' obj" using only_locked_relinked s'(3) by blast
  moreover have "used_blocks s1 (F(b := xs)) = (used_blocks s F)(sb_obj bk := insert x (used_blocks s F (sb_obj bk)))" "\<And>obj'. x \<notin> used_blocks s F obj'"
    by (rule used_pop [OF ok bk(1) Fb, of s1] | simp add: s1 bk(1) bk1_def)+
  moreover have "used_blocks s' (F(b := xs)) = used_blocks s1 (F(b := xs))" by (rule used_blocks_relinked [OF s'(3)])
  moreover have "sa_calls s' = sa_calls s" "sa_pages s' = sa_pages s" using relinked_calls [OF s'(3)] s1(3,4) by simp_all
  moreover have "load_bucket s b = Inr bk" "load_block s (sb_block bk) = Inr mb" "load_bucket s1 b = Inr bk1"
    using bk(1) mb(1) b1(1) by (simp_all add: load_bucket_def load_block_def)
  ultimately show ?thesis using s'(1,2,4) ent(2) unfolding bk(2)
    by - (rule exI [of _ bk], rule exI [of _ mb], rule exI [of _ s'], rule exI [of _ "F(b := xs)"], rule exI [of _ P'],
      unfold Let_def mb(2) [symmetric] s1_def [symmetric], simp)
qed


lemma shape_fields_upd [simp]:
  "shape_fields (ob\<lparr>so_locked := l\<rparr>) = shape_fields ob" "shape_fields (ob\<lparr>so_num_active_objs := n\<rparr>) = shape_fields ob"
  "shape_fields (ob\<lparr>so_num_palloc_pages := n\<rparr>) = shape_fields ob"
  by (simp_all add: shape_fields_def)

lemma unlock_ok:
  assumes "heap_ok off s F P" "\<forall>b. listed s F P b" "only_locked s obj"
    and f: "\<And>ob. shape_fields (f ob) = shape_fields ob \<and> so_partial_next (f ob) = so_partial_next ob \<and> so_partial_count (f ob) = so_partial_count ob"
  shows "salloc_inv off (unlock_obj obj (upd_obj obj f s))" "used_blocks (unlock_obj obj (upd_obj obj f s)) F = used_blocks s F"
    "heap_ok off (unlock_obj obj (upd_obj obj f s)) F P"
proof -
  let ?s = "unlock_obj obj (upd_obj obj f s)"
  show ok: "heap_ok off ?s F P"
    unfolding unlock_obj_def by (intro heap_ok_upd_obj assms(1) f) (simp add: shape_fields_def)
  have "listed ?s F P b" for b using assms(2) by (simp add: listed_def unlock_obj_def upd_obj_def)
  moreover have "\<not> so_locked ob" if "sa_objs ?s obj' = Some ob" for obj' ob
    using that assms(3) by (auto simp: unlock_obj_def upd_obj_def only_locked_def split: if_splits)
  ultimately show "salloc_inv off ?s" using ok by (auto simp: salloc_inv_def lists_ok_def)
  show "used_blocks ?s F = used_blocks s F"
    by (rule used_blocks_frame) (auto simp: unlock_obj_def upd_obj_def option.map_comp comp_def f)
qed

lemma lock_ok:
  assumes ok: "heap_ok off s F P" and ls: "lists_ok s F P" and ob: "sa_objs s obj = Some ob"
  defines "s' \<equiv> upd_obj obj (\<lambda>ob. ob\<lparr>so_locked := True\<rparr>) s"
  shows "lock_obj obj s = Inr s'"
    "heap_ok off s' F P" "\<forall>b. listed s' F P b" "only_locked s' obj" "used_blocks s' F = used_blocks s F"
    "sa_objs s' obj = Some (ob\<lparr>so_locked := True\<rparr>)" "sa_pages s' = sa_pages s" "sa_calls s' = sa_calls s"
proof -
  show "lock_obj obj s = Inr s'" using ob ls by (simp add: s'_def lock_obj_def lists_ok_def)
  show "heap_ok off s' F P" unfolding s'_def by (rule heap_ok_upd_obj [OF ok]) (simp add: shape_fields_def)
  show "\<forall>b. listed s' F P b" using ls by (simp add: s'_def lists_ok_def listed_def upd_obj_def)
  show "only_locked s' obj" using ls by (auto simp: s'_def lists_ok_def only_locked_def upd_obj_def)
  show "used_blocks s' F = used_blocks s F" by (rule used_blocks_frame) (auto simp: s'_def upd_obj_def option.map_comp comp_def)
qed (use ob in \<open>simp_all add: s'_def upd_obj_def\<close>)


lemma call_back_ok [simp]:
  "heap_ok off (call_back f p n s) F P = heap_ok off s F P" "salloc_inv off (call_back f p n s) = salloc_inv off s"
  "used_blocks (call_back f p n s) F = used_blocks s F" "sa_pages (call_back f p n s) = sa_pages s"
  "sa_objs (call_back f p n s) = sa_objs s" "sa_buckets (call_back f p n s) = sa_buckets s" "sa_blocks (call_back f p n s) = sa_blocks s"
  "lists_ok (call_back f p n s) F P = lists_ok s F P"
  "sa_calls (call_back f p n s) = sa_calls s @ (case f of None \<Rightarrow> [] | Some f \<Rightarrow> [(f, p, n)])"
  by (auto simp: call_back_def salloc_inv_def lists_ok_def listed_def used_blocks_def used_in_def split: option.splits)

lemma unlock_fields [simp]:
  "sa_pages (unlock_obj obj s) = sa_pages s" "sa_calls (unlock_obj obj s) = sa_calls s"
  "sa_pages (upd_obj obj f s) = sa_pages s" "sa_calls (upd_obj obj f s) = sa_calls s"
  by (simp_all add: unlock_obj_def upd_obj_def)

text \<open>
  \<^verbatim>\<open>salloc\<close> either panics, as the page frame allocator does when no run of pages is left, or returns a block
  of the object type that was free, and nothing else changes for any object type.
\<close>

lemma salloc_spec:
  assumes ok: "heap_ok off s F P" and ls: "lists_ok s F P" and map: "direct_map off to_ptr to_paddr (sa_pages s)" and ob: "sa_objs s obj = Some ob"
  shows "so_partial_count ob = 0 \<and> palloc_ptr to_ptr (so_bucket_page_count ob) (sa_pages s) = Inl Panic \<and> salloc to_ptr obj s = Inl Panic \<or>
   (\<exists>s' x F'. salloc to_ptr obj s = Inr (s', x + magic_block_size) \<and> salloc_inv off s' \<and>
    (\<exists>P'. heap_ok off s' F' P') \<and> used_blocks s' F' = (used_blocks s F)(obj := insert x (used_blocks s F obj)) \<and> (\<forall>obj'. x \<notin> used_blocks s F obj') \<and>
    pfn_limit (sa_pages s') = pfn_limit (sa_pages s) \<and>
    sa_calls s' = sa_calls s @ (case so_constructor ob of None \<Rightarrow> [] | Some f \<Rightarrow> [(f, x + magic_block_size, so_struct_size ob)]))"
proof -
  define ob0 where "ob0 = ob\<lparr>so_locked := True\<rparr>"
  define s0 where "s0 = upd_obj obj (\<lambda>ob. ob\<lparr>so_locked := True\<rparr>) s"
  note lk = lock_ok [OF ok ls ob, folded s0_def ob0_def]
  have c0: "so_partial_count ob0 = so_partial_count ob" "so_constructor ob0 = so_constructor ob" "so_struct_size ob0 = so_struct_size ob" by (simp_all add: ob0_def)
  have l0: "listed s0 F P b" for b using lk(3) by blast
  let ?r = "if so_partial_count ob0 = 0 then alloc_bucket to_ptr obj s0 else Inr (s0, so_partial_next ob0)"
  consider "so_partial_count ob0 = 0" "palloc_ptr to_ptr (so_bucket_page_count ob0) (sa_pages s0) = Inl Panic" "?r = Inl Panic" | s1 b F1 v where "?r = Inr (s1, b)" "b \<noteq> 0" "usable off s1 F1 P obj b" "used_blocks s1 F1 = used_blocks s0 F"
      "pfn_limit (sa_pages s1) = pfn_limit (sa_pages s0)" "sa_calls s1 = sa_calls s0" "sa_objs s1 = (sa_objs s0)(obj \<mapsto> ob0\<lparr>so_num_palloc_pages := v\<rparr>)"
    using obtain_bucket [OF lk(2) l0 lk(4,6) map [folded lk(7)]] by blast
  then show ?thesis
  proof cases
    case 1
    then show ?thesis using lk(1,6,7) by (simp add: salloc_def load_obj_def ob0_def split: if_splits)
  next
    case (2 s1 b F1 v)
    have "sa_objs s1 obj = Some (ob0\<lparr>so_num_palloc_pages := v\<rparr>)" by (simp add: 2(7))
    then obtain bk mb s2 F' P' where t: "load_bucket s1 b = Inr bk" "load_block s1 (sb_block bk) = Inr mb"
       "let s1 = set_block (sb_block bk) \<lparr>mb_bucket = b, mb_next = 0\<rparr> (upd_bucket b (\<lambda>bk. bk\<lparr>sb_block := mb_next mb, sb_avail_count := sb_avail_count bk - 1\<rparr>) s1)
        in ebind (load_bucket s1 b) (\<lambda>bk. if sb_avail_count bk = 0 then remove_bucket obj b (upd_bucket b (\<lambda>bk. bk\<lparr>sb_state := bucket_full\<rparr>) s1)
          else if sb_avail_count bk = sb_entry_count bk - 1 then insert_bucket obj b (upd_bucket b (\<lambda>bk. bk\<lparr>sb_state := bucket_partial\<rparr>) s1)
          else Inr s1) = Inr s2"
       "heap_ok off s2 F' P'" "\<forall>c. listed s2 F' P' c" "only_locked s2 obj"
       "used_blocks s2 F' = (used_blocks s1 F1)(obj := insert (sb_block bk) (used_blocks s1 F1 obj))" "\<forall>obj'. sb_block bk \<notin> used_blocks s1 F1 obj'"
       "sa_calls s2 = sa_calls s1" "sa_pages s2 = sa_pages s1"
      using take_block [OF 2(3)] by blast
    define f where "f = (\<lambda>ob. ob\<lparr>so_num_active_objs := so_num_active_objs ob + 1\<rparr> :: salloc_obj_t)"
    have u: "salloc_inv off (unlock_obj obj (upd_obj obj f s2))" "used_blocks (unlock_obj obj (upd_obj obj f s2)) F' = used_blocks s2 F'"
      "heap_ok off (unlock_obj obj (upd_obj obj f s2)) F' P'"
      by (rule unlock_ok [OF t(4-6)], simp add: f_def)+
    let ?s = "call_back (so_constructor ob) (sb_block bk + magic_block_size) (so_struct_size ob) (unlock_obj obj (upd_obj obj f s2))"
    have run: "salloc to_ptr obj s = Inr (?s, sb_block bk + magic_block_size)"
      using lk(1,6) 2(1,2) t(1,2) t(3) [unfolded Let_def ebind_eq_Inr_iff] c0 by (auto simp: salloc_def load_obj_def f_def Let_def)
    have "used_blocks ?s F' = (used_blocks s F)(obj := insert (sb_block bk) (used_blocks s F obj))" "\<forall>obj'. sb_block bk \<notin> used_blocks s F obj'"
      "pfn_limit (sa_pages ?s) = pfn_limit (sa_pages s)"
      using u(2) t(7,8,10) 2(4,5) lk(5,7) by simp_all
    moreover have "sa_calls ?s = sa_calls s @ (case so_constructor ob of None \<Rightarrow> [] | Some f \<Rightarrow> [(f, sb_block bk + magic_block_size, so_struct_size ob)])"
      using t(9) 2(6) lk(8) by simp
    moreover have "salloc_inv off ?s" "heap_ok off ?s F' P'" using u(1,3) by simp_all
    ultimately show ?thesis using run by blast
  qed
qed

section \<open>Release\<close>

lemma free_all:
  assumes ok: "heap_ok off s F P" and b: "sa_buckets s b = Some bk" "sa_objs s (sb_obj bk) = Some ob" "int (length (F b)) = sb_entry_count bk"
  shows "set (F b) = bucket_blocks ob b"
proof -
  have e: "sb_entry_count bk = so_bucket_block_count ob" "distinct (F b)" "set (F b) \<subseteq> bucket_blocks ob b"
    using heap_okD(4) [OF ok b(1)] b(2) by (auto elim!: bucket_okE)
  have fin: "finite (bucket_blocks ob b)" by (simp add: bucket_blocks_def)
  have "card (bucket_blocks ob b) \<le> nat (so_bucket_block_count ob)"
    unfolding bucket_blocks_def by (rule order_trans [OF card_image_le]) simp_all
  also have "\<dots> = card (set (F b))" using e(1,2) b(3) by (simp add: distinct_card)
  finally show ?thesis using card_seteq [OF fin e(3)] by simp
qed

lemma release_bucket:
  assumes ok: "heap_ok off s F P" and map: "direct_map off to_ptr to_paddr (sa_pages s)" and lock: "only_locked s obj"
    and bk: "sa_buckets s b = Some bk" "sb_obj bk = obj" and ob: "sa_objs s obj = Some ob"
    and full: "int (length (F b)) = sb_entry_count bk" and P: "b \<in> set (P obj)" and ls: "\<forall>b'. b' \<noteq> b \<longrightarrow> listed s F P b'"
  shows "\<exists>s' P'. ebind (remove_bucket obj b (upd_bucket b (\<lambda>bk. bk\<lparr>sb_state := bucket_empty\<rparr>) s)) (free_bucket to_paddr obj b) = Inr s' \<and>
    heap_ok off s' F P' \<and> (\<forall>b. listed s' F P' b) \<and> only_locked s' obj \<and> used_blocks s' F = used_blocks s F \<and>
    pfn_limit (sa_pages s') = pfn_limit (sa_pages s) \<and> sa_calls s' = sa_calls s"
proof -
  let ?u = "upd_bucket b (\<lambda>bk. bk\<lparr>sb_state := bucket_empty\<rparr>) s"
  let ?P = "P(obj := remove1 b (P obj))"
  have uo: "sa_objs ?u obj = Some ob" using ob by (simp add: upd_bucket_def)
  obtain s1 where s1: "remove_bucket obj b ?u = Inr s1" "heap_ok off s1 F ?P" "relinked ?u s1"
    using remove_bucket_ok [OF heap_ok_state [OF ok] uo P] by blast
  have rel: "relinked s s1" by (rule relinked_trans [OF relinked_state s1(3)])
  obtain bk1 where bk1: "sa_buckets s1 b = Some bk1" "content bk1 = content bk" using relinkedD(1) [OF rel bk(1)] by blast
  obtain ob1 where ob1: "sa_objs s1 obj = Some ob1" using relinkedD(2) [OF rel ob] by blast
  have o1: "sb_obj bk1 = obj" "int (length (F b)) = sb_entry_count bk1" using bk1(2) bk(2) full by (simp_all add: content_def)
  have "distinct (P obj)" using heap_okD(3) [OF ok ob] by blast
  then have "b \<notin> set (?P obj)" by simp
  moreover have "b \<notin> set (?P obj')" if "obj' \<noteq> obj" for obj'
  proof
    assume "b \<in> set (?P obj')"
    then obtain bk' where "sa_buckets s1 b = Some bk'" "sb_obj bk' = obj'" using heap_okD(5) [OF s1(2)] by blast
    then show False using bk1(1) o1(1) that by simp
  qed
  ultimately have nP: "b \<notin> set (?P obj')" for obj' by (cases "obj' = obj") simp_all
  have map1: "direct_map off to_ptr to_paddr (sa_pages s1)" using map relinked_calls [OF rel] by simp
  obtain pages' v where r: "free_bucket to_paddr obj b s1 = Inr (s1\<lparr>sa_pages := pages', sa_buckets := (sa_buckets s1)(b := None), sa_objs := (sa_objs s1)(obj \<mapsto> ob1\<lparr>so_num_palloc_pages := v\<rparr>)\<rparr>)"
      "pfn_limit pages' = pfn_limit (sa_pages s1)"
      "heap_ok off (s1\<lparr>sa_pages := pages', sa_buckets := (sa_buckets s1)(b := None), sa_objs := (sa_objs s1)(obj \<mapsto> ob1\<lparr>so_num_palloc_pages := v\<rparr>)\<rparr>) F ?P"
    using free_bucket_ok [OF s1(2) map1 bk1(1) o1(1) nP ob1] by blast
  define s' where "s' = s1\<lparr>sa_pages := pages', sa_buckets := (sa_buckets s1)(b := None), sa_objs := (sa_objs s1)(obj \<mapsto> ob1\<lparr>so_num_palloc_pages := v\<rparr>)\<rparr>"
  have "listed s1 F ?P b'" if "b' \<noteq> b" for b'
  proof -
    have "listed s1 F P b'" using listed_relinked [OF rel, of F P b'] ls that by blast
    moreover have "b' \<in> set (?P obj') \<longleftrightarrow> b' \<in> set (P obj')" for obj' using that by simp
    ultimately show ?thesis by (simp only: listed_def)
  qed
  then have "\<forall>b. listed s' F ?P b" by (auto simp: listed_def s'_def)
  moreover have "only_locked s' obj"
    by (rule only_locked_frame [OF _ only_locked_relinked [OF rel lock]]) (simp add: s'_def)
  moreover have "used_in s' F obj' b' = used_in s1 F obj' b'" for obj' b'
  proof (cases "b' = b")
    case True
    have "set (F b) = bucket_blocks ob1 b" using free_all [OF s1(2) bk1(1) _ o1(2)] ob1 o1(1) by simp
    then have "used_in s1 F obj' b = {}" using bk1(1) o1(1) ob1 by (cases "obj' = obj") (simp_all add: used_in_def split: option.splits)
    moreover have "used_in s' F obj' b = {}" by (simp add: used_in_def s'_def)
    ultimately show ?thesis using True by simp
  next
    case False
    then show ?thesis by (intro used_in_frame) (simp_all add: s'_def ob1)
  qed
  then have "used_blocks s' F = used_blocks s F" using used_blocks_relinked [OF rel] by (simp add: used_blocks_def fun_eq_iff)
  moreover have "pfn_limit (sa_pages s') = pfn_limit (sa_pages s)" "sa_calls s' = sa_calls s"
    using r(2) relinked_calls [OF rel] by (simp_all add: s'_def)
  moreover have "ebind (remove_bucket obj b ?u) (free_bucket to_paddr obj b) = Inr s'" using r(1) s1(1) by (simp add: s'_def)
  moreover have "heap_ok off s' F ?P" using r(3) unfolding s'_def .
  ultimately show ?thesis by blast
qed

lemma settle_given:
  assumes ok: "heap_ok off s F P" and map: "direct_map off to_ptr to_paddr (sa_pages s)" and lock: "only_locked s obj"
    and bk: "sa_buckets s b = Some bk" "sb_obj bk = obj" and ob: "sa_objs s obj = Some ob" and two: "2 \<le> sb_entry_count bk"
    and c: "F b = x # xs" "b \<in> set (P obj) \<longleftrightarrow> xs \<noteq> []" "int (length xs) < sb_entry_count bk" and ls: "\<forall>b'. b' \<noteq> b \<longrightarrow> listed s F P b'"
  shows "\<exists>s' P'. (if sb_avail_count bk = sb_entry_count bk
       then ebind (remove_bucket obj b (upd_bucket b (\<lambda>bk. bk\<lparr>sb_state := bucket_empty\<rparr>) s)) (free_bucket to_paddr obj b)
       else if 1 = sb_avail_count bk then insert_bucket obj b (upd_bucket b (\<lambda>bk. bk\<lparr>sb_state := bucket_partial\<rparr>) s)
       else Inr s) = Inr s' \<and> heap_ok off s' F P' \<and> (\<forall>b. listed s' F P' b) \<and> only_locked s' obj \<and> used_blocks s' F = used_blocks s F \<and>
    pfn_limit (sa_pages s') = pfn_limit (sa_pages s) \<and> sa_calls s' = sa_calls s"
proof -
  have av: "sb_avail_count bk = int (length xs) + 1" using heap_okD(4) [OF ok bk(1)] c(1) by (auto elim: bucket_okE)
  consider (empty) "int (length (F b)) = sb_entry_count bk" "b \<in> set (P obj)"
    | (first) "xs = []" "b \<notin> set (P obj)" "sb_avail_count bk \<noteq> sb_entry_count bk"
    | (other) "xs \<noteq> []" "b \<in> set (P obj)" "sb_avail_count bk \<noteq> sb_entry_count bk" using c two av by fastforce
  then show ?thesis
  proof cases
    case empty
    then have "sb_avail_count bk = sb_entry_count bk" using av c(1) by simp
    then show ?thesis using release_bucket [OF ok map lock bk ob empty ls] by simp
  next
    case first
    let ?u = "upd_bucket b (\<lambda>bk. bk\<lparr>sb_state := bucket_partial\<rparr>) s"
    have u: "sa_objs ?u obj = Some ob" "sa_buckets ?u b = Some (bk\<lparr>sb_state := bucket_partial\<rparr>)" using ob bk(1) by (simp_all add: upd_bucket_def)
    obtain s' where s': "insert_bucket obj b ?u = Inr s'" "heap_ok off s' F (P(obj := b # P obj))" "relinked ?u s'"
      using insert_bucket_ok [OF heap_ok_state [OF ok] u _ first(2)] bk(2) by auto
    have rel: "relinked s s'" by (rule relinked_trans [OF relinked_state s'(3)])
    have "listed s F (P(obj := b # P obj)) b'" for b' using ls c bk av first(3) by (cases "b' = b") (auto simp: listed_def)
    then have "\<forall>c. listed s' F (P(obj := b # P obj)) c" using listed_relinked [OF rel] by blast
    then show ?thesis using s'(1,2) av first(1,3) only_locked_relinked [OF rel lock] used_blocks_relinked [OF rel] relinked_calls [OF rel]
      by (intro exI [of _ s'] exI [of _ "P(obj := b # P obj)"]) simp
  next
    case other
    have "listed s F P b'" for b' using ls c bk av other by (cases "b' = b") (auto simp: listed_def)
    then show ?thesis using ok lock av other(1,3) by (intro exI [of _ s] exI [of _ P]) simp
  qed
qed

text \<open>\<^verbatim>\<open>sfree\<close> of a live object gives its block back, and nothing else changes for any object type.\<close>

lemma sfree_spec:
  assumes ok: "heap_ok off s F P" and ls: "lists_ok s F P" and map: "direct_map off to_ptr to_paddr (sa_pages s)"
    and x: "x \<in> used_blocks s F obj"
  shows "\<exists>s' F' P'. sfree to_paddr (x + magic_block_size) s = Inr s' \<and> salloc_inv off s' \<and> heap_ok off s' F' P' \<and>
    used_blocks s' F' = (used_blocks s F)(obj := used_blocks s F obj - {x}) \<and> pfn_limit (sa_pages s') = pfn_limit (sa_pages s)"
proof -
  obtain b bk ob where xb: "x \<in> used_in s F obj b" and bk: "sa_buckets s b = Some bk" "sb_obj bk = obj" and ob: "sa_objs s obj = Some ob"
      and xbk: "x \<in> bucket_blocks ob b" "x \<notin> set (F b)"
    using x by (auto simp: used_blocks_def used_in_block)
  obtain mb where mb: "sa_blocks s x = Some mb" "mb_bucket mb = b" and ent: "sb_entry_count bk = so_bucket_block_count ob"
    using heap_okD(4) [OF ok bk(1)] bk(2) ob xbk(1) by (auto simp: bucket_ok_def)
  define s0 where "s0 = call_back (so_destructor ob) (x + magic_block_size) (so_struct_size ob) s"
  define s1 where "s1 = upd_obj obj (\<lambda>ob. ob\<lparr>so_locked := True\<rparr>) s0"
  have f0: "sa_objs s0 = sa_objs s" "sa_buckets s0 = sa_buckets s" "sa_blocks s0 = sa_blocks s" "heap_ok off s0 F P" "lists_ok s0 F P"
      "sa_pages s0 = sa_pages s" "used_blocks s0 F = used_blocks s F" using ok ls by (simp_all add: s0_def)
  have ob0: "sa_objs s0 obj = Some ob" using f0(1) ob by simp
  note lk = lock_ok [OF f0(4,5) ob0, folded s1_def]
  have b1: "sa_buckets s1 b = Some bk" "sa_blocks s1 x = Some mb" "sa_objs s1 (sb_obj bk) = Some (ob\<lparr>so_locked := True\<rparr>)"
    using bk mb(1) f0(2,3) lk(6) by (simp_all add: s1_def upd_obj_def)
  have x1: "x \<in> bucket_blocks (ob\<lparr>so_locked := True\<rparr>) b" using xbk(1) by (simp add: bucket_blocks_def block_at_def)
  define s2 where "s2 = upd_bucket b (\<lambda>bk. bk\<lparr>sb_block := x, sb_avail_count := sb_avail_count bk + 1\<rparr>) (set_block x (mb\<lparr>mb_next := sb_block bk\<rparr>) s1)"
  define bk2 where "bk2 = bk\<lparr>sb_block := x, sb_avail_count := sb_avail_count bk + 1\<rparr>"
  let ?F = "F(b := x # F b)"
  have ok2: "heap_ok off s2 ?F P" unfolding s2_def by (rule push_block_ok [OF lk(2) b1(1,3) x1 xbk(2) b1(2)])
  have s2: "sa_buckets s2 = (sa_buckets s1)(b \<mapsto> bk2)" "sa_objs s2 = sa_objs s1" "sa_pages s2 = sa_pages s" "sa_calls s2 = sa_calls s1"
    using b1(1) lk(7) f0(6) by (simp_all add: s2_def bk2_def set_block_def upd_bucket_def)
  have u2: "used_blocks s2 ?F = (used_blocks s F)(obj := used_blocks s F obj - {x})"
  proof -
    have "x \<in> used_in s1 F (sb_obj bk) b" using b1 x1 xbk(2) by (auto simp: used_in_block)
    then have "used_blocks s2 ?F = (used_blocks s1 F)(sb_obj bk := used_blocks s1 F (sb_obj bk) - {x})"
      by (rule used_push [OF lk(2) b1(1)]) (simp_all add: s2 b1(1) bk2_def)
    then show ?thesis using lk(5) f0(7) bk(2) by simp
  qed
  have l2: "only_locked s2 obj" by (rule only_locked_frame [OF _ lk(4)]) (simp add: s2(2))
  have bl: "b \<in> set (P obj) \<longleftrightarrow> F b \<noteq> []" "int (length (F b)) < sb_entry_count bk" using ls bk by (auto simp: lists_ok_def listed_def)
  have ls2: "\<forall>b'. b' \<noteq> b \<longrightarrow> listed s2 ?F P b'" using lk(3) by (simp add: listed_def s2(1))
  have two: "2 \<le> sb_entry_count bk2" using heap_okD(3) [OF ok ob] ent by (simp add: bk2_def obj_shape_def)
  have map2: "direct_map off to_ptr to_paddr (sa_pages s2)" using map s2(3) by simp
  have b2: "sa_buckets s2 b = Some bk2" "sb_obj bk2 = obj" "sa_objs s2 obj = Some (ob\<lparr>so_locked := True\<rparr>)" "sb_entry_count bk2 = sb_entry_count bk"
    using s2(1,2) bk(2) lk(6) by (simp_all add: bk2_def)
  obtain s3 P' where r: "(if sb_avail_count bk2 = sb_entry_count bk2
       then ebind (remove_bucket obj b (upd_bucket b (\<lambda>bk. bk\<lparr>sb_state := bucket_empty\<rparr>) s2)) (free_bucket to_paddr obj b)
       else if 1 = sb_avail_count bk2 then insert_bucket obj b (upd_bucket b (\<lambda>bk. bk\<lparr>sb_state := bucket_partial\<rparr>) s2)
       else Inr s2) = Inr s3" "heap_ok off s3 ?F P'" "\<forall>c. listed s3 ?F P' c" "only_locked s3 obj" "used_blocks s3 ?F = used_blocks s2 ?F"
       "pfn_limit (sa_pages s3) = pfn_limit (sa_pages s2)"
    using settle_given [OF ok2 map2 l2 b2(1-3) two _ _ _ ls2, of x "F b"] bl b2(4) by auto
  define f where "f = (\<lambda>ob. ob\<lparr>so_num_active_objs := so_num_active_objs ob - 1\<rparr> :: salloc_obj_t)"
  have u: "salloc_inv off (unlock_obj obj (upd_obj obj f s3))" "used_blocks (unlock_obj obj (upd_obj obj f s3)) ?F = used_blocks s3 ?F"
      "heap_ok off (unlock_obj obj (upd_obj obj f s3)) ?F P'"
    by (rule unlock_ok [OF r(2-4)], simp add: f_def)+
  have av2: "sb_avail_count bk2 = sb_avail_count bk + 1" by (simp add: bk2_def)
  have "sfree to_paddr (x + magic_block_size) s = Inr (unlock_obj obj (upd_obj obj f s3))"
    using r(1) [unfolded av2 b2(4)] mb bk ob lk(1)
    by (auto simp: sfree_def load_block_def load_bucket_def load_obj_def Let_def s0_def [symmetric] s2_def [symmetric] f_def split: if_splits)
  then show ?thesis using u u2 r(5,6) s2(3) by (intro exI [of _ "unlock_obj obj (upd_obj obj f s3)"] exI [of _ ?F] exI [of _ P']) simp
qed

end
