(* ===== verification/Spec2Isabelle.thy ===== *)
theory Spec2Isabelle
  imports Prelude Kbits Kmath Klist Palloc Palloc_Buddy Palloc_Init Palloc_Client Memmap Memmap_Claim Pfn Palloc_Boot Kid Spinlock Kstring Atomic Rwlock Salloc Salloc_Inv
begin

text \<open>
  A verification library for the toddler-ng kernel. The header is completed with the development.
\<close>

end
